(* ===== verification/Prelude.thy ===== *)
theory Prelude
  imports Main "HOL-Library.Word" "HOL-Library.FSet" "HOL-Library.Finite_Map"
    "HOL-Library.Char_ord" "HOL-Library.List_Lexorder" "HOL-Library.Sublist" "HOL-Library.Code_Target_Nat"
begin

text \<open>
  Shared vocabulary of the development: Go's byte strings, 64-bit integers and instants,
  the collections of simplification rules the component theories fill, and the generic
  lemmas on lists, finite maps and finite sets they rely on.

  A Go \<^verbatim>\<open>[]byte\<close> or \<^verbatim>\<open>string\<close> is a list of characters (a HOL character is one byte).
  A nil slice and an empty slice are the same list.  A Go \<^verbatim>\<open>int64\<close> is an integer, with
  \<open>wrap64\<close> written wherever the source's arithmetic could leave the range.  A Go
  \<^verbatim>\<open>time.Time\<close> is the number of nanoseconds since its zero value (1 January of year 1),
  so that the zero \<^verbatim>\<open>Time\<close> is 0; a \<^verbatim>\<open>time.Duration\<close> is a 64-bit count of nanoseconds.
\<close>

named_theorems io_simps "how the primitive writers change what a sink holds"
named_theorems store_simps "how the store's primitives change what a lookup sees"
named_theorems inv_intros "operations that keep the store's invariant"

type_synonym bytes = string
type_synonym key = string
type_synonym time = nat
type_synonym duration = int

section \<open>Definitions\<close>

subsection \<open>Bytes and 64-bit integers\<close>

abbreviation byte_val :: "char \<Rightarrow> nat" where
  "byte_val c \<equiv> of_char c"

definition CR :: char where "CR = CHR 0x0D"

definition LF :: char where "LF = CHR 0x0A"

definition maxInt64 :: int where "maxInt64 = 9223372036854775807"

definition minInt64 :: int where "minInt64 = - 9223372036854775808"

definition in64 :: "int \<Rightarrow> bool" where
  "in64 n \<longleftrightarrow> minInt64 \<le> n \<and> n \<le> maxInt64"

definition wrap64 :: "int \<Rightarrow> int" where
  "wrap64 n = (n + 9223372036854775808) mod 18446744073709551616 - 9223372036854775808"

text \<open>Go's integer division truncates towards zero.\<close>

definition go_div :: "int \<Rightarrow> int \<Rightarrow> int" where
  "go_div a b = sgn a * sgn b * (\<bar>a\<bar> div \<bar>b\<bar>)"

subsection \<open>Instants\<close>

definition unixEpoch :: time where "unixEpoch = 62135596800000000000"

definition Second :: duration where "Second = 1000000000"

definition Millisecond :: duration where "Millisecond = 1000000"

text \<open>\<^verbatim>\<open>t.Add(d)\<close>, \<^verbatim>\<open>t.Sub(u)\<close> (which saturates), \<^verbatim>\<open>t.UnixMilli()\<close> and \<^verbatim>\<open>t.IsZero()\<close>.\<close>

definition time_add :: "time \<Rightarrow> duration \<Rightarrow> time" where
  "time_add t d = nat (int t + d)"

definition time_sub :: "time \<Rightarrow> time \<Rightarrow> duration" where
  "time_sub t u = max minInt64 (min maxInt64 (int t - int u))"

definition UnixMilli :: "time \<Rightarrow> int" where
  "UnixMilli t = (int t - int unixEpoch) div 1000000"

definition IsZero :: "time \<Rightarrow> bool" where
  "IsZero t \<longleftrightarrow> t = 0"

subsection \<open>Ranging over a Go map\<close>

text \<open>
  The order in which \<^verbatim>\<open>for k := range m\<close> visits a map is unspecified and changes from one
  loop to the next.  The model takes it from outside: \<open>pref\<close> is any list of keys, the keys
  of the map that it lists come first and in its order, and the remaining ones follow.
  Every order of the map's keys is obtained by some \<open>pref\<close>, and for every \<open>pref\<close> each key of
  the map is visited exactly once.
\<close>

definition range_order :: "'a::linorder list \<Rightarrow> 'a fset \<Rightarrow> 'a list" where
  "range_order pref ks =
     remdups (filter (\<lambda>k. k |\<in>| ks) pref) @
     filter (\<lambda>k. k \<notin> set pref) (sorted_list_of_fset ks)"

section \<open>Lemmas\<close>

lemma in64_wrap64: "in64 (wrap64 n)"
  by (simp add: in64_def wrap64_def minInt64_def maxInt64_def)

lemma wrap64_id [simp]: "in64 n \<Longrightarrow> wrap64 n = n"
  by (simp add: in64_def wrap64_def minInt64_def maxInt64_def)

declare IsZero_def [simp]

lemma set_range_order [simp]: "set (range_order pref ks) = fset ks"
  by (auto simp: range_order_def)

lemma distinct_range_order [simp]: "distinct (range_order pref ks)"
proof -
  have "distinct (sorted_list_of_fset ks)"
    by (simp add: sorted_list_of_fset.rep_eq)
  then show ?thesis
    by (auto simp: range_order_def)
qed

text \<open>Any enumeration of the keys is the order of some loop.\<close>

lemma range_order_any:
  assumes "distinct xs" and "set xs = fset ks"
  shows "range_order xs ks = xs"
proof -
  have "filter (\<lambda>k. k |\<in>| ks) xs = xs"
    using assms(2) by (simp add: filter_id_conv)
  moreover have "filter (\<lambda>k. k \<notin> set xs) (sorted_list_of_fset ks) = []"
    using assms(2) by (simp add: filter_empty_conv)
  ultimately show ?thesis
    using assms(1) by (simp add: range_order_def distinct_remdups_id)
qed

lemma sum_fmupd:
  fixes f :: "'a \<Rightarrow> 'b \<Rightarrow> int"
  shows "(\<Sum>k \<in> fset (fmdom (fmupd a b m)). f k (the (fmlookup (fmupd a b m) k))) =
     (\<Sum>k \<in> fset (fmdom m). f k (the (fmlookup m k)))
     - (case fmlookup m a of None \<Rightarrow> 0 | Some old \<Rightarrow> f a old) + f a b"
proof -
  let ?D = "fset (fmdom m) - {a}"
  have eq: "fset (fmdom (fmupd a b m)) = insert a ?D"
    by auto
  have rest: "(\<Sum>k \<in> ?D. f k (the (fmlookup (fmupd a b m) k))) =
      (\<Sum>k \<in> ?D. f k (the (fmlookup m k)))"
    by (rule sum.cong) auto
  have whole: "(\<Sum>k \<in> fset (fmdom m). f k (the (fmlookup m k))) =
      (\<Sum>k \<in> ?D. f k (the (fmlookup m k)))
      + (case fmlookup m a of None \<Rightarrow> 0 | Some old \<Rightarrow> f a old)"
  proof (cases "fmlookup m a")
    case None
    then have "a \<notin> fset (fmdom m)"
      by (simp add: fmdom_notI)
    with None show ?thesis
      by simp
  next
    case (Some old)
    then have "a \<in> fset (fmdom m)"
      by (simp add: fmdomI)
    with Some show ?thesis
      by (simp add: sum.remove [of "fset (fmdom m)" a])
  qed
  have "(\<Sum>k \<in> insert a ?D. f k (the (fmlookup (fmupd a b m) k))) =
      f a b + (\<Sum>k \<in> ?D. f k (the (fmlookup (fmupd a b m) k)))"
    by (subst sum.insert) auto
  then show ?thesis
    unfolding eq rest whole by simp
qed

lemma sum_fmdrop:
  fixes f :: "'a \<Rightarrow> 'b \<Rightarrow> int"
  shows "(\<Sum>k \<in> fset (fmdom (fmdrop a m)). f k (the (fmlookup (fmdrop a m) k))) =
     (\<Sum>k \<in> fset (fmdom m). f k (the (fmlookup m k)))
     - (case fmlookup m a of None \<Rightarrow> 0 | Some old \<Rightarrow> f a old)"
proof (cases "fmlookup m a")
  case None
  then have "fmdrop a m = m"
    by (simp add: fmdrop_idle fmdom_notI)
  with None show ?thesis
    by simp
next
  case (Some old)
  then have "a \<in> fset (fmdom m)"
    by (simp add: fmdomI)
  moreover have "(\<Sum>k \<in> fset (fmdom m) - {a}. f k (the (fmlookup (fmdrop a m) k))) =
      (\<Sum>k \<in> fset (fmdom m) - {a}. f k (the (fmlookup m k)))"
    by (rule sum.cong) auto
  ultimately show ?thesis
    using Some by (simp add: sum.remove [of "fset (fmdom m)" a])
qed

lemma prefix_append_cases:
  assumes "prefix p (xs @ ys)"
  obtains "strict_prefix p xs" | q where "p = xs @ q" and "prefix q ys"
  using assms
  by (cases "p = xs") (auto simp: prefix_append strict_prefix_def)

lemma length_strict_prefix: "strict_prefix p xs \<Longrightarrow> length p < length xs"
  by (rule prefix_length_less)

lemma sum_list_upd:
  fixes xs :: "int list"
  shows "i < length xs \<Longrightarrow> sum_list (xs[i := x]) = sum_list xs - xs ! i + x"
  by (induction xs arbitrary: i) (auto split: nat.split)

lemma int_sum_list: "int (sum_list xs) = sum_list (map int xs)"
  by (induction xs) auto

end
