(* ===== verification/GoLib.thy ===== *)
theory GoLib
  imports Prelude
begin

text \<open>
  The parts of Go's standard library the program relies on: \<^verbatim>\<open>strconv\<close> (decimal
  integers), \<^verbatim>\<open>strings\<close> (case folding and trimming), \<^verbatim>\<open>io.Writer\<close> as an interface with
  two providers, \<^verbatim>\<open>bytes.Buffer\<close> and \<^verbatim>\<open>bufio.Writer\<close>, and the device (an open file or a
  connection) a \<^verbatim>\<open>bufio.Writer\<close> drains into.

  Case folding of strings that are not pure ASCII and Unicode white space are decided by
  Unicode tables; they are the parameter \<open>unicode\<close>.  The results that need nothing of it
  are stated for every value of it.
\<close>

section \<open>Definitions\<close>

subsection \<open>strconv\<close>

datatype num_error = ErrSyntax | ErrRange

definition digit :: "nat \<Rightarrow> char" where
  "digit d = char_of (48 + d)"

fun formatUint :: "nat \<Rightarrow> bytes" where
  "formatUint n = (if n < 10 then [digit n] else formatUint (n div 10) @ [digit (n mod 10)])"

declare formatUint.simps [simp del]

text \<open>\<^verbatim>\<open>strconv.AppendInt(nil, n, 10)\<close>, \<^verbatim>\<open>FormatInt(n, 10)\<close> and \<^verbatim>\<open>Itoa(n)\<close>.\<close>

definition formatInt :: "int \<Rightarrow> bytes" where
  "formatInt n = (if n < 0 then CHR ''-'' # formatUint (nat (- n)) else formatUint (nat n))"

definition is_digit :: "char \<Rightarrow> bool" where
  "is_digit c \<longleftrightarrow> 48 \<le> byte_val c \<and> byte_val c \<le> 57"

text \<open>The loop of \<^verbatim>\<open>strconv.ParseUint(s, 10, 64)\<close> and its entry.\<close>

fun parseUintLoop :: "nat \<Rightarrow> bytes \<Rightarrow> num_error + nat" where
  "parseUintLoop n [] = Inr n"
| "parseUintLoop n (c # cs) =
     (if \<not> is_digit c then Inl ErrSyntax
      else if n * 10 + (byte_val c - 48) > 18446744073709551615 then Inl ErrRange
      else parseUintLoop (n * 10 + (byte_val c - 48)) cs)"

definition ParseUint :: "bytes \<Rightarrow> num_error + nat" where
  "ParseUint s = (if s = [] then Inl ErrSyntax else parseUintLoop 0 s)"

text \<open>\<^verbatim>\<open>strconv.ParseInt(s, 10, 64)\<close>: an optional sign, either one, then digits.\<close>

definition ParseInt :: "bytes \<Rightarrow> num_error + int" where
  "ParseInt s =
     (case s of
        [] \<Rightarrow> Inl ErrSyntax
      | c # cs \<Rightarrow>
          (let neg = (c = CHR ''-''); t = (if c = CHR ''+'' \<or> c = CHR ''-'' then cs else s) in
           case ParseUint t of
             Inl e \<Rightarrow> Inl e
           | Inr un \<Rightarrow>
               (if \<not> neg \<and> 9223372036854775808 \<le> un then Inl ErrRange
                else if neg \<and> 9223372036854775808 < un then Inl ErrRange
                else Inr (if neg then - int un else int un))))"

subsection \<open>strings\<close>

record unicode =
  uUpper :: "bytes \<Rightarrow> bytes"
  uLower :: "bytes \<Rightarrow> bytes"
  uTrim :: "bytes \<Rightarrow> bytes"
  uTrimRight :: "bytes \<Rightarrow> bytes"

definition isASCII :: "bytes \<Rightarrow> bool" where
  "isASCII s \<longleftrightarrow> (\<forall>c \<in> set s. byte_val c < 128)"

definition upper :: "char \<Rightarrow> char" where
  "upper c = (if 97 \<le> byte_val c \<and> byte_val c \<le> 122 then char_of (byte_val c - 32) else c)"

definition lower :: "char \<Rightarrow> char" where
  "lower c = (if 65 \<le> byte_val c \<and> byte_val c \<le> 90 then char_of (byte_val c + 32) else c)"

definition ToUpper :: "unicode \<Rightarrow> bytes \<Rightarrow> bytes" where
  "ToUpper U s = (if isASCII s then map upper s else uUpper U s)"

definition ToLower :: "unicode \<Rightarrow> bytes \<Rightarrow> bytes" where
  "ToLower U s = (if isASCII s then map lower s else uLower U s)"

definition asciiSpace :: "char \<Rightarrow> bool" where
  "asciiSpace c \<longleftrightarrow> byte_val c \<in> {9, 10, 11, 12, 13, 32}"

text \<open>
  \<^verbatim>\<open>strings.TrimSpace\<close>: ASCII white space is dropped from both ends; at the first byte
  beyond ASCII the Unicode versions take over on what is left.
\<close>

definition TrimSpace :: "unicode \<Rightarrow> bytes \<Rightarrow> bytes" where
  "TrimSpace U s =
     (let t = dropWhile asciiSpace s in
      if t \<noteq> [] \<and> 128 \<le> byte_val (hd t) then uTrim U t
      else
        (let r = rev (dropWhile asciiSpace (rev t)) in
         if r \<noteq> [] \<and> 128 \<le> byte_val (last r) then uTrimRight U r else r))"

definition HasSuffix :: "bytes \<Rightarrow> bytes \<Rightarrow> bool" where
  "HasSuffix s t \<longleftrightarrow> length t \<le> length s \<and> drop (length s - length t) s = t"

definition TrimSuffix :: "bytes \<Rightarrow> bytes \<Rightarrow> bytes" where
  "TrimSuffix s t = (if HasSuffix s t then take (length s - length t) s else s)"

subsection \<open>Devices: an open file or a connection\<close>

text \<open>
  \<open>written\<close> is what the kernel has taken and \<open>durable\<close> how much of it an fsync has put on
  the disk.  \<open>quota\<close> is how many more bytes the device will take before a write fails
  (\<open>None\<close>: no failure), \<open>syncs\<close> how many more fsyncs will succeed, and \<open>emsg\<close> the text of
  the error a failing operation reports.
\<close>

record dev =
  written :: bytes
  durable :: nat
  quota :: "nat option"
  syncs :: "nat option"
  emsg :: bytes

definition dev_write :: "dev \<Rightarrow> bytes \<Rightarrow> nat \<times> bool \<times> dev" where
  "dev_write d p =
     (case quota d of
        None \<Rightarrow> (length p, True, d\<lparr>written := written d @ p\<rparr>)
      | Some q \<Rightarrow>
          (let n = min q (length p) in
           (n, length p \<le> q, d\<lparr>written := written d @ take n p, quota := Some (q - n)\<rparr>)))"

definition dev_sync :: "dev \<Rightarrow> bool \<times> dev" where
  "dev_sync d =
     (case syncs d of
        None \<Rightarrow> (True, d\<lparr>durable := length (written d)\<rparr>)
      | Some 0 \<Rightarrow> (False, d)
      | Some (Suc n) \<Rightarrow> (True, d\<lparr>durable := length (written d), syncs := Some n\<rparr>))"

subsection \<open>bytes.Buffer and bufio.Writer\<close>

definition buffer_write :: "bytes \<Rightarrow> bytes \<Rightarrow> bool \<times> bytes" where
  "buffer_write b p = (True, b @ p)"

record bufw =
  bw_size :: nat
  bw_buf :: bytes
  bw_err :: bool
  bw_dev :: dev

definition NewWriterSize :: "nat \<Rightarrow> dev \<Rightarrow> bufw" where
  "NewWriterSize n d = \<lparr>bw_size = n, bw_buf = [], bw_err = False, bw_dev = d\<rparr>"

definition bufio_flush :: "bufw \<Rightarrow> bool \<times> bufw" where
  "bufio_flush b =
     (if bw_err b then (False, b)
      else if bw_buf b = [] then (True, b)
      else
        (case dev_write (bw_dev b) (bw_buf b) of
           (n, True, d) \<Rightarrow> (True, b\<lparr>bw_buf := [], bw_dev := d\<rparr>)
         | (n, False, d) \<Rightarrow>
             (False, b\<lparr>bw_buf := drop n (bw_buf b), bw_err := True, bw_dev := d\<rparr>)))"

text \<open>
  \<^verbatim>\<open>bufio.Writer.Write\<close>: a write that fits is only copied; one that does not fills the
  buffer and flushes it, and once the buffer is empty what is still too big for it goes
  straight to the device.
\<close>

function bufio_write :: "bufw \<Rightarrow> bytes \<Rightarrow> bool \<times> bufw" where
  "bufio_write b p =
     (if bw_err b then (False, b)
      else if length p \<le> bw_size b - length (bw_buf b) then (True, b\<lparr>bw_buf := bw_buf b @ p\<rparr>)
      else if bw_buf b = [] then
        (case dev_write (bw_dev b) p of
           (n, ok, d) \<Rightarrow> (ok, b\<lparr>bw_dev := d, bw_err := \<not> ok\<rparr>))
      else
        (let n = bw_size b - length (bw_buf b) in
         case bufio_flush (b\<lparr>bw_buf := bw_buf b @ take n p\<rparr>) of
           (False, b') \<Rightarrow> (False, b')
         | (True, b') \<Rightarrow> bufio_write (b'\<lparr>bw_buf := []\<rparr>) (drop n p)))"
  by pat_completeness auto
termination
  by (relation "measure (\<lambda>(b, p). length (bw_buf b))") auto

declare bufio_write.simps [simp del]

definition bufio_content :: "bufw \<Rightarrow> bytes" where
  "bufio_content b = written (bw_dev b) @ bw_buf b"

text \<open>A buffered writer without a pending error, on a device that does not fill up.\<close>

definition healthy :: "bufw \<Rightarrow> bool" where
  "healthy b \<longleftrightarrow> \<not> bw_err b \<and> quota (bw_dev b) = None"

section \<open>The io.Writer interface\<close>

text \<open>
  What the program assumes of an \<^verbatim>\<open>io.Writer\<close>: a write that reports success has taken all
  of its bytes, in order, after everything taken before; one that reports an error has taken
  some prefix of them.  \<open>content\<close> is what has been taken so far, and \<open>good\<close> tells the states
  from which no write fails.
\<close>

locale io_writer =
  fixes wr :: "'w \<Rightarrow> bytes \<Rightarrow> bool \<times> 'w"
    and content :: "'w \<Rightarrow> bytes"
    and good :: "'w \<Rightarrow> bool"
  assumes write_ok: "wr w p = (True, w') \<Longrightarrow> content w' = content w @ p"
    and write_err: "wr w p = (False, w') \<Longrightarrow> \<exists>q. prefix q p \<and> content w' = content w @ q"
    and write_good: "good w \<Longrightarrow> fst (wr w p) \<and> good (snd (wr w p))"

text \<open>A writer that never fails, such as an in-memory buffer.\<close>

locale io_writer_total = io_writer +
  assumes always_good: "good w"

section \<open>Lemmas\<close>

subsection \<open>Decimal integers\<close>

lemma byte_val_digit: "d < 10 \<Longrightarrow> byte_val (digit d) = 48 + d"
  by (simp add: digit_def)

lemma is_digit_digit: "d < 10 \<Longrightarrow> is_digit (digit d)"
  by (simp add: is_digit_def byte_val_digit)

lemma formatUint_nonempty: "formatUint n \<noteq> []"
  by (subst formatUint.simps) simp

lemma formatUint_digits: "c \<in> set (formatUint n) \<Longrightarrow> is_digit c"
proof (induction n rule: formatUint.induct)
  case (1 n)
  then show ?case
    by (cases "n < 10") (auto simp: formatUint.simps [of n] is_digit_digit)
qed

lemma parseUintLoop_snoc:
  "parseUintLoop a (xs @ [c]) =
     (case parseUintLoop a xs of Inl e \<Rightarrow> Inl e | Inr n \<Rightarrow> parseUintLoop n [c])"
  by (induction xs arbitrary: a) auto

lemma parseUintLoop_formatUint:
  "n \<le> 18446744073709551615 \<Longrightarrow> parseUintLoop 0 (formatUint n) = Inr n"
proof (induction n rule: formatUint.induct)
  case (1 n)
  show ?case
  proof (cases "n < 10")
    case True
    then show ?thesis
      by (simp add: formatUint.simps [of n] is_digit_digit byte_val_digit)
  next
    case False
    with 1 have "parseUintLoop 0 (formatUint (n div 10)) = Inr (n div 10)"
      by simp
    moreover have "n div 10 * 10 + n mod 10 = n"
      by presburger
    ultimately show ?thesis
      using False 1(2)
      by (simp add: formatUint.simps [of n] parseUintLoop_snoc is_digit_digit byte_val_digit)
  qed
qed

lemma ParseUint_formatUint:
  "n \<le> 18446744073709551615 \<Longrightarrow> ParseUint (formatUint n) = Inr n"
  by (simp add: ParseUint_def formatUint_nonempty parseUintLoop_formatUint)

lemma hd_formatUint_no_sign:
  "hd (formatUint n) \<noteq> CHR ''+'' \<and> hd (formatUint n) \<noteq> CHR ''-''"
proof -
  have "is_digit (hd (formatUint n))"
    by (rule formatUint_digits [of _ n]) (simp add: formatUint_nonempty)
  then show ?thesis
    by (auto simp: is_digit_def)
qed

lemma ParseInt_formatInt [simp]:
  assumes "in64 n"
  shows "ParseInt (formatInt n) = Inr n"
proof (cases "n < 0")
  case True
  then have "ParseUint (formatUint (nat (- n))) = Inr (nat (- n))"
    using assms by (intro ParseUint_formatUint) (auto simp: in64_def minInt64_def)
  with True assms show ?thesis
    by (auto simp: formatInt_def ParseInt_def in64_def minInt64_def)
next
  case False
  obtain c cs where f: "formatUint (nat n) = c # cs"
    using formatUint_nonempty by (cases "formatUint (nat n)") auto
  then have "c \<noteq> CHR ''+'' \<and> c \<noteq> CHR ''-''"
    using hd_formatUint_no_sign [of "nat n"] by simp
  moreover have "ParseUint (c # cs) = Inr (nat n)"
    unfolding f [symmetric]
    using assms by (intro ParseUint_formatUint) (auto simp: in64_def maxInt64_def)
  ultimately show ?thesis
    using assms False f by (auto simp: formatInt_def ParseInt_def in64_def maxInt64_def)
qed

lemma parseUintLoop_range:
  "18446744073709551615 < n \<Longrightarrow> parseUintLoop 0 (formatUint n) = Inl ErrRange"
proof (induction n rule: formatUint.induct)
  case (1 n)
  have n: "n div 10 * 10 + n mod 10 = n"
    by presburger
  show ?case
  proof (cases "18446744073709551615 < n div 10")
    case True
    then show ?thesis
      using 1 by (simp add: formatUint.simps [of n] parseUintLoop_snoc)
  next
    case False
    then show ?thesis
      using 1(2) n parseUintLoop_formatUint [of "n div 10"]
      by (simp add: formatUint.simps [of n] parseUintLoop_snoc is_digit_digit byte_val_digit)
  qed
qed

lemma ParseUint_formatUint_cases:
  "ParseUint (formatUint n) = (if n \<le> 18446744073709551615 then Inr n else Inl ErrRange)"
  by (simp add: ParseUint_def formatUint_nonempty parseUintLoop_formatUint parseUintLoop_range)

lemma ParseInt_formatInt_range:
  assumes "\<not> in64 n"
  shows "ParseInt (formatInt n) = Inl ErrRange"
proof (cases "n < 0")
  case True
  with assms show ?thesis
    by (auto simp: formatInt_def ParseInt_def ParseUint_formatUint_cases in64_def minInt64_def maxInt64_def)
next
  case False
  obtain c cs where f: "formatUint (nat n) = c # cs"
    using formatUint_nonempty by (cases "formatUint (nat n)") auto
  then have "c \<noteq> CHR ''+'' \<and> c \<noteq> CHR ''-''"
    using hd_formatUint_no_sign [of "nat n"] by simp
  then show ?thesis
    using assms False f ParseUint_formatUint_cases [of "nat n"]
    by (auto simp: formatInt_def ParseInt_def in64_def minInt64_def maxInt64_def)
qed

lemma digit_inj: "digit a = digit b \<Longrightarrow> a < 10 \<Longrightarrow> b < 10 \<Longrightarrow> a = b"
  by (metis add_left_imp_eq byte_val_digit)

lemma formatUint_inj: "formatUint n = formatUint m \<Longrightarrow> n = m"
proof (induction n arbitrary: m rule: formatUint.induct)
  case (1 n)
  have d: "n div 10 * 10 + n mod 10 = n" "m div 10 * 10 + m mod 10 = m"
    by presburger+
  consider "n < 10" "m < 10" | "n < 10" "\<not> m < 10" | "\<not> n < 10" "m < 10" | "\<not> n < 10" "\<not> m < 10"
    by blast
  then show ?case
  proof cases
    case 4
    then have "formatUint (n div 10) = formatUint (m div 10)" "digit (n mod 10) = digit (m mod 10)"
      using 1(2) by (simp_all add: formatUint.simps [of n] formatUint.simps [of m])
    then have "n div 10 = m div 10" "n mod 10 = m mod 10"
      using 1(1) [OF 4(1)] digit_inj by simp_all
    with d show ?thesis by metis
  qed (use 1(2) formatUint_nonempty digit_inj in
      \<open>auto simp: formatUint.simps [of n] formatUint.simps [of m] dest!: sym [of "[]"]\<close>)
qed

lemma ParseInt_in64: "ParseInt s = Inr n \<Longrightarrow> in64 n"
  by (auto simp: ParseInt_def in64_def minInt64_def maxInt64_def Let_def
      split: list.splits sum.splits if_splits)

lemma formatInt_nonempty [simp]: "formatInt n \<noteq> []"
  by (simp add: formatInt_def formatUint_nonempty)

lemma formatInt_chars:
  "c \<in> set (formatInt n) \<Longrightarrow> is_digit c \<or> c = CHR ''-''"
  by (auto simp: formatInt_def dest: formatUint_digits split: if_splits)

lemma formatInt_no_crlf [simp]: "CR \<notin> set (formatInt n)" "LF \<notin> set (formatInt n)"
  by (auto dest!: formatInt_chars simp: is_digit_def CR_def LF_def)

lemma length_formatUint_less:
  "n < 10 ^ k \<Longrightarrow> 0 < k \<Longrightarrow> length (formatUint n) \<le> k"
proof (induction n arbitrary: k rule: formatUint.induct)
  case (1 n)
  show ?case
  proof (cases "n < 10")
    case True
    with 1 show ?thesis by (simp add: formatUint.simps [of n])
  next
    case False
    obtain j where k: "k = Suc j"
      using 1(3) by (cases k) auto
    with 1(2) False have "n div 10 < 10 ^ j" and "0 < j"
      by (auto simp: less_mult_imp_div_less intro!: Nat.gr0I)
    with 1(1) False have "length (formatUint (n div 10)) \<le> j"
      by blast
    with False k show ?thesis by (simp add: formatUint.simps [of n])
  qed
qed

lemma length_formatInt_le_20:
  assumes "in64 n"
  shows "length (formatInt n) \<le> 20"
proof -
  have "length (formatUint (nat \<bar>n\<bar>)) \<le> 19"
    using assms by (intro length_formatUint_less) (auto simp: in64_def minInt64_def maxInt64_def)
  then show ?thesis
    by (auto simp: formatInt_def split: if_splits)
qed

subsection \<open>The providers of io.Writer\<close>

lemma dev_write_cases:
  assumes "dev_write d p = (n, ok, d')"
  shows "written d' = written d @ take n p" and "ok \<longleftrightarrow> n = length p" and "n \<le> length p"
    and "durable d' = durable d" and "emsg d' = emsg d" and "syncs d' = syncs d"
  using assms by (auto simp: dev_write_def Let_def split: option.splits)

lemma dev_write_full:
  "dev_write d p = (n, True, d') \<Longrightarrow> n = length p"
  using dev_write_cases(2) by blast

lemma bufio_flush_content: "bufio_content (snd (bufio_flush b)) = bufio_content b"
  by (auto simp: bufio_flush_def bufio_content_def dev_write_cases dest: dev_write_full
      split: prod.splits bool.splits)

lemma bufio_flush_ok:
  assumes "bufio_flush b = (True, b')"
  shows "bw_buf b' = []" and "bw_size b' = bw_size b" and "\<not> bw_err b'"
  using assms by (auto simp: bufio_flush_def split: if_splits prod.splits bool.splits)

lemma bufio_write_content:
  "bufio_write b p = (ok, b') \<Longrightarrow>
     (ok \<longrightarrow> bufio_content b' = bufio_content b @ p) \<and>
     (\<exists>q. prefix q p \<and> bufio_content b' = bufio_content b @ q)"
proof (induction b p arbitrary: ok b' rule: bufio_write.induct)
  case (1 b p)
  consider (err) "bw_err b" | (fits) "\<not> bw_err b" "length p \<le> bw_size b - length (bw_buf b)"
    | (direct) "\<not> bw_err b" "\<not> length p \<le> bw_size b - length (bw_buf b)" "bw_buf b = []"
    | (fill) "\<not> bw_err b" "\<not> length p \<le> bw_size b - length (bw_buf b)" "bw_buf b \<noteq> []"
    by blast
  then show ?case
  proof cases
    case err
    with 1(2) show ?thesis by (auto simp: bufio_write.simps [of b p])
  next
    case fits
    with 1(2) show ?thesis
      by (auto simp: bufio_write.simps [of b p] bufio_content_def)
  next
    case direct
    with 1(2) show ?thesis
      by (auto simp: bufio_write.simps [of b p] bufio_content_def take_is_prefix
          dev_write_cases(1) dest: dev_write_full split: prod.splits)
  next
    case fill
    let ?n = "bw_size b - length (bw_buf b)"
    let ?b = "b\<lparr>bw_buf := bw_buf b @ take ?n p\<rparr>"
    obtain f b1 where fl: "bufio_flush ?b = (f, b1)"
      by (cases "bufio_flush ?b")
    have c1: "bufio_content b1 = bufio_content b @ take ?n p"
      using bufio_flush_content [of ?b] fl by (simp add: bufio_content_def)
    show ?thesis
    proof (cases f)
      case False
      with fill fl 1(2) have "ok = False" "b' = b1"
        by (auto simp: bufio_write.simps [of b p] Let_def)
      with c1 show ?thesis by (auto simp: take_is_prefix)
    next
      case True
      with fl have e: "b1\<lparr>bw_buf := []\<rparr> = b1"
        using bufio_flush_ok(1) [of ?b b1] by simp
      with fill fl True 1(2) have "bufio_write b1 (drop ?n p) = (ok, b')"
        by (simp add: bufio_write.simps [of b p] Let_def)
      then have "(ok \<longrightarrow> bufio_content b' = bufio_content b1 @ drop ?n p) \<and>
         (\<exists>q. prefix q (drop ?n p) \<and> bufio_content b' = bufio_content b1 @ q)"
        using 1(1) [OF fill refl fl [symmetric]] True e by simp
      then show ?thesis
        unfolding c1
        by (auto simp: append_assoc)
          (metis append_assoc append_take_drop_id same_prefix_prefix)
    qed
  qed
qed

lemma bufio_flush_healthy:
  "healthy b \<Longrightarrow> \<exists>b'. bufio_flush b = (True, b') \<and> healthy b'"
  by (simp add: bufio_flush_def healthy_def dev_write_def)

lemma bufio_write_healthy: "healthy b \<Longrightarrow> \<exists>b'. bufio_write b p = (True, b') \<and> healthy b'"
proof (induction b p rule: bufio_write.induct)
  case (1 b p)
  let ?n = "bw_size b - length (bw_buf b)"
  have "healthy (b\<lparr>bw_buf := bw_buf b @ take ?n p\<rparr>)"
    using 1(2) by (simp add: healthy_def)
  then obtain b1 where fl: "bufio_flush (b\<lparr>bw_buf := bw_buf b @ take ?n p\<rparr>) = (True, b1)" "healthy b1"
    using bufio_flush_healthy by blast
  then have "healthy (b1\<lparr>bw_buf := []\<rparr>)"
    by (simp add: healthy_def)
  then show ?case
    using 1 fl by (subst bufio_write.simps) (auto simp: Let_def healthy_def dev_write_def)
qed

interpretation buffer_w: io_writer_total buffer_write "\<lambda>b. b" "\<lambda>_. True"
  by unfold_locales (auto simp: buffer_write_def)

interpretation bufio_w: io_writer bufio_write bufio_content healthy
proof unfold_locales
  show "healthy w \<Longrightarrow> fst (bufio_write w p) \<and> healthy (snd (bufio_write w p))" for w p
    using bufio_write_healthy [of w p] by auto
qed (auto dest: bufio_write_content)

end
