(* ===== verification/Shards.thy ===== *)
theory Shards
  imports Prelude
begin

text \<open>
  Routing keys to shards (\<^verbatim>\<open>internal/store/shard.go\<close>) and the order in which a multi-key
  command takes its shard locks (\<^verbatim>\<open>internal/store/shard_locks.go\<close>).
\<close>

unbundle bit_operations_syntax

section \<open>Definitions\<close>

definition shardCount :: nat where "shardCount = 32"

text \<open>The loop of FNV-1a over the bytes of a key, on \<^verbatim>\<open>uint64\<close> with wrap-around.\<close>

fun fnv1a :: "64 word \<Rightarrow> bytes \<Rightarrow> 64 word" where
  "fnv1a h [] = h"
| "fnv1a h (c # cs) = fnv1a ((h XOR of_char c) * 1099511628211) cs"

definition shardIndex :: "key \<Rightarrow> 8 word" where
  "shardIndex key = ucast (fnv1a 14695981039346656037 key AND 31)"

abbreviation sidx :: "key \<Rightarrow> nat" where
  "sidx key \<equiv> unat (shardIndex key)"

text \<open>
  \<open>lockWriteShards\<close> returns the shards it locks, in the order it locks them: the
  \<^verbatim>\<open>seen\<close> map drops repeated shards, and the rest is sorted.  \<open>unlockWriteShards\<close> returns
  the order in which they are unlocked.
\<close>

fun shardIds :: "8 word list \<Rightarrow> key list \<Rightarrow> 8 word list" where
  "shardIds ids [] = ids"
| "shardIds ids (key # keys) =
     (if shardIndex key \<in> set ids then shardIds ids keys
      else shardIds (ids @ [shardIndex key]) keys)"

definition lockWriteShards :: "key list \<Rightarrow> 8 word list" where
  "lockWriteShards keys = sort (shardIds [] keys)"

definition unlockWriteShards :: "8 word list \<Rightarrow> 8 word list" where
  "unlockWriteShards ids = rev ids"

text \<open>
  The index only depends on the low five bits of the hash, and these only on the low five bits
  of the bytes: \<open>low_hash\<close> is the same loop on numbers below 32, which is also how the index is
  evaluated.
\<close>

fun low_hash :: "nat \<Rightarrow> bytes \<Rightarrow> nat" where
  "low_hash h [] = h"
| "low_hash h (c # cs) = low_hash (((h XOR byte_val c) * 19) mod 32) cs"

section \<open>Lemmas\<close>

lemma low_hash_step:
  "take_bit 5 (unat ((h XOR of_char c) * (1099511628211 :: 64 word))) =
   ((take_bit 5 (unat h) XOR byte_val c) * 19) mod 32"
proof -
  have c: "unat (of_char c :: 64 word) = byte_val c"
    by (subst of_nat_of_char [symmetric])
      (simp add: unsigned_of_nat take_bit_nat_eq_self_iff less_trans [OF nat_of_char_less_256])
  have "take_bit 5 (unat ((h XOR of_char c) * (1099511628211 :: 64 word))) =
      (unat (h XOR of_char c) * 1099511628211) mod 32"
    by (simp add: take_bit_eq_mod unat_word_ariths mod_mod_cancel)
  also have "\<dots> = ((unat h XOR byte_val c) mod 32 * 19) mod 32"
    unfolding unsigned_xor_eq c
    using mod_mult_right_eq [of "unat h XOR byte_val c" 1099511628211 32]
    by (simp add: mod_mult_left_eq)
  also have "(unat h XOR byte_val c) mod 32 = (take_bit 5 (unat h) XOR byte_val c) mod 32"
    using take_bit_xor [of 5 "unat h" "byte_val c"] take_bit_xor [of 5 "take_bit 5 (unat h)" "byte_val c"]
    by (simp add: take_bit_eq_mod)
  finally show ?thesis
    by (simp add: mod_mult_left_eq)
qed

lemma low_hash_fnv1a: "take_bit 5 (unat (fnv1a h cs)) = low_hash (take_bit 5 (unat h)) cs"
  by (induction cs arbitrary: h) (simp_all add: low_hash_step)

lemma sidx_low_hash: "sidx key = low_hash 5 key"
proof -
  have "sidx key = take_bit 5 (unat (fnv1a 14695981039346656037 key))"
  proof -
    have m: "(31 :: nat) = mask 5"
      by (simp add: mask_eq_exp_minus_1)
    show ?thesis
      unfolding shardIndex_def unsigned_ucast_eq unsigned_take_bit_eq unsigned_and_eq
      by (simp add: m take_bit_eq_mask [symmetric])
  qed
  then show ?thesis
    unfolding low_hash_fnv1a by (simp add: take_bit_eq_mod)
qed

lemma shardIndex_code [code]: "shardIndex key = of_nat (low_hash 5 key)"
  unfolding sidx_low_hash [symmetric] by simp

lemma shardIndex_less: "sidx key < 32"
proof -
  have "unat (fnv1a 14695981039346656037 key AND 31) \<le> unat (31 :: 64 word)"
    by (rule word_and_le1 [THEN word_le_nat_alt [THEN iffD1]])
  moreover have "sidx key \<le> unat (fnv1a 14695981039346656037 key AND 31)"
    by (simp add: shardIndex_def unsigned_ucast_eq unsigned_take_bit_eq
        take_bit_nat_less_eq_self)
  ultimately show ?thesis
    by simp
qed

lemma sidx_bound [simp]: "sidx key < shardCount"
  using shardIndex_less by (simp add: shardCount_def)

lemma set_shardIds: "set (shardIds ids keys) = set ids \<union> shardIndex ` set keys"
  by (induction ids keys rule: shardIds.induct) auto

lemma distinct_shardIds: "distinct ids \<Longrightarrow> distinct (shardIds ids keys)"
  by (induction ids keys rule: shardIds.induct) auto

lemma lockWriteShards_props:
  "set (lockWriteShards keys) = shardIndex ` set keys"
  "distinct (lockWriteShards keys)"
  "sorted (lockWriteShards keys)"
  by (simp_all add: lockWriteShards_def set_shardIds distinct_shardIds)

section \<open>Properties\<close>

text \<open>
  A multi-key command takes every shard its keys live in exactly once, in strictly increasing
  order and whatever order the keys come in, and releases them in the opposite order.
\<close>

theorem lockWriteShards_ordered:
  "sorted_wrt (<) (lockWriteShards keys) \<and>
   set (lockWriteShards keys) = shardIndex ` set keys \<and>
   unat ` set (lockWriteShards keys) \<subseteq> {..< shardCount} \<and>
   sorted_wrt (>) (unlockWriteShards (lockWriteShards keys))"
  using lockWriteShards_props [of keys]
  by (auto simp: strict_sorted_iff unlockWriteShards_def sorted_wrt_rev)

text \<open>
  The shard of a key is the FNV-1a loop run on numbers below 32: it depends on nothing but
  the low five bits of the key's bytes.
\<close>

theorem shardIndex_low_bits: "sidx key = low_hash 5 key"
  by (rule sidx_low_hash)

end
