(* ===== verification/Store.thy ===== *)
theory Store
  imports GoLib Shards
begin

text \<open>
  The keyspace of \<^verbatim>\<open>internal/store/store.go\<close>: 32 shards, each with its map, its index of
  keys that have a deadline and its memory subtotal; the journal the mutations are handed
  to; and every operation of \<^verbatim>\<open>Store\<close>.

  An operation takes the readings of \<^verbatim>\<open>time.Now()\<close> it makes as arguments, in the order it
  makes them, and returns the new store.  \<open>ap\<close> is \<^verbatim>\<open>Journal.Append\<close>, the one method of the
  interface; the store is polymorphic in the journal's state.  Here an operation runs
  alone; theory \<open>Interleaving\<close> cuts the operations into their critical sections.
\<close>

section \<open>State\<close>

record entry =
  val :: bytes
  atime :: "64 word"
  expiresAt :: time

record readShard =
  data :: "(key, entry) fmap"
  expiring :: "key fset"
  used :: int

record Stats =
  KeyspaceHits :: "64 word"
  KeyspaceMisses :: "64 word"
  EvictedKeys :: "64 word"
  ExpiredKeys :: "64 word"

record 'j store =
  readShards :: "readShard list"
  journal :: "'j option"
  maxMemory :: int
  policy :: bytes
  clock :: "64 word"
  stats :: Stats

datatype TTLState = KeyMissing | KeyPersistent | KeyVolatile

datatype store_error = ErrNotInteger

record Pair =
  Key :: key
  Value :: bytes

section \<open>Operations\<close>

subsection \<open>Primitives\<close>

definition expired :: "entry \<Rightarrow> time \<Rightarrow> bool" where
  "expired e now \<longleftrightarrow> \<not> IsZero (expiresAt e) \<and> \<not> now < expiresAt e"

definition entryOverhead :: int where "entryOverhead = 128"

definition entrySize :: "key \<Rightarrow> bytes \<Rightarrow> int" where
  "entrySize key v = int (length key) + int (length v) + entryOverhead"

definition New :: "'j store" where
  "New = \<lparr>readShards = replicate shardCount \<lparr>data = fmempty, expiring = {||}, used = 0\<rparr>,
     journal = None, maxMemory = 0, policy = [], clock = 0,
     stats = \<lparr>KeyspaceHits = 0, KeyspaceMisses = 0, EvictedKeys = 0, ExpiredKeys = 0\<rparr>\<rparr>"

definition shard_of :: "'j store \<Rightarrow> key \<Rightarrow> readShard" where
  "shard_of s key = readShards s ! sidx key"

definition put_shard :: "key \<Rightarrow> readShard \<Rightarrow> 'j store \<Rightarrow> 'j store" where
  "put_shard key sh s = s\<lparr>readShards := (readShards s)[sidx key := sh]\<rparr>"

definition SetJournal :: "'j \<Rightarrow> 'j store \<Rightarrow> 'j store" where
  "SetJournal j s = s\<lparr>journal := Some j\<rparr>"

definition propagate :: "(bytes list \<Rightarrow> 'j \<Rightarrow> 'j) \<Rightarrow> bytes list \<Rightarrow> 'j store \<Rightarrow> 'j store" where
  "propagate ap args s =
     (case journal s of None \<Rightarrow> s | Some j \<Rightarrow> s\<lparr>journal := Some (ap args j)\<rparr>)"

definition cmdSET :: bytes where "cmdSET = ''SET''"

definition cmdMSET :: bytes where "cmdMSET = ''MSET''"

definition cmdDEL :: bytes where "cmdDEL = ''DEL''"

definition cmdPXAT :: bytes where "cmdPXAT = ''PXAT''"

definition cmdPEXPIREAT :: bytes where "cmdPEXPIREAT = ''PEXPIREAT''"

definition unixMillis :: "time \<Rightarrow> bytes" where
  "unixMillis t = formatInt (UnixMilli t)"

definition tick :: "'j store \<Rightarrow> 'j store" where
  "tick s = s\<lparr>clock := clock s + 1\<rparr>"

definition deleteLockedInWriteLockedShard :: "key \<Rightarrow> 'j store \<Rightarrow> 'j store" where
  "deleteLockedInWriteLockedShard key s =
     (let sh = shard_of s key;
          u = (case fmlookup (data sh) key of
                 Some e \<Rightarrow> used sh - entrySize key (val e)
               | None \<Rightarrow> used sh)
      in put_shard key
           (sh\<lparr>data := fmdrop key (data sh), expiring := expiring sh |-| {|key|}, used := u\<rparr>) s)"

definition deleteLocked :: "key \<Rightarrow> 'j store \<Rightarrow> 'j store" where
  "deleteLocked key s = deleteLockedInWriteLockedShard key s"

definition setLockedInWriteLockedShard ::
  "key \<Rightarrow> bytes \<Rightarrow> time \<Rightarrow> 'j store \<Rightarrow> 'j store" where
  "setLockedInWriteLockedShard key v at s =
     (let e = \<lparr>val = v, atime = clock s, expiresAt = at\<rparr>;
          sh = shard_of s key;
          u = (case fmlookup (data sh) key of
                 Some old \<Rightarrow> used sh - entrySize key (val old)
               | None \<Rightarrow> used sh)
      in put_shard key
           (sh\<lparr>data := fmupd key e (data sh),
               expiring := (if IsZero at then expiring sh |-| {|key|}
                            else finsert key (expiring sh)),
               used := u + entrySize key v\<rparr>) s)"

definition propagateSetLocked ::
  "(bytes list \<Rightarrow> 'j \<Rightarrow> 'j) \<Rightarrow> key \<Rightarrow> bytes \<Rightarrow> time \<Rightarrow> 'j store \<Rightarrow> 'j store" where
  "propagateSetLocked ap key v at s =
     (if IsZero at then propagate ap [cmdSET, key, v] s
      else propagate ap [cmdSET, key, v, cmdPXAT, unixMillis at] s)"

definition setLocked ::
  "(bytes list \<Rightarrow> 'j \<Rightarrow> 'j) \<Rightarrow> key \<Rightarrow> bytes \<Rightarrow> time \<Rightarrow> 'j store \<Rightarrow> 'j store" where
  "setLocked ap key v at s =
     propagateSetLocked ap key v at (setLockedInWriteLockedShard key v at s)"

subsection \<open>Reading\<close>

text \<open>
  \<^verbatim>\<open>Get\<close> has two critical sections.  \<open>Get_read\<close> is the first, up to the switch: it looks
  the key up under the read lock.  \<open>Get_collect\<close> is the second: under the write lock it
  looks again, against a new reading of the clock, before it deletes.
\<close>

datatype get_result = Missing | Hit bytes | Stale

definition Get_read :: "time \<Rightarrow> key \<Rightarrow> 'j store \<Rightarrow> get_result \<times> 'j store" where
  "Get_read now key s =
     (case fmlookup (data (shard_of s key)) key of
        None \<Rightarrow>
          (Missing, s\<lparr>stats := (stats s)\<lparr>KeyspaceMisses := KeyspaceMisses (stats s) + 1\<rparr>\<rparr>)
      | Some e \<Rightarrow>
          (if \<not> expired e now then
             (let sh = shard_of s key;
                  s1 = put_shard key (sh\<lparr>data := fmupd key (e\<lparr>atime := clock s\<rparr>) (data sh)\<rparr>) s
              in (Hit (val e),
                  s1\<lparr>stats := (stats s)\<lparr>KeyspaceHits := KeyspaceHits (stats s) + 1\<rparr>\<rparr>))
           else (Stale, s)))"

definition Get_collect :: "time \<Rightarrow> key \<Rightarrow> 'j store \<Rightarrow> 'j store" where
  "Get_collect now key s =
     (case fmlookup (data (shard_of s key)) key of
        Some e \<Rightarrow> (if expired e now then deleteLockedInWriteLockedShard key s else s)
      | None \<Rightarrow> s)"

definition Get :: "time \<Rightarrow> time \<Rightarrow> key \<Rightarrow> 'j store \<Rightarrow> bytes option \<times> 'j store" where
  "Get now now' key s =
     (case Get_read now key s of
        (Missing, s1) \<Rightarrow> (None, s1)
      | (Hit v, s1) \<Rightarrow> (Some v, s1)
      | (Stale, s1) \<Rightarrow> (None, Get_collect now' key s1))"

definition TTL :: "time \<Rightarrow> key \<Rightarrow> 'j store \<Rightarrow> duration \<times> TTLState" where
  "TTL now key s =
     (case fmlookup (data (shard_of s key)) key of
        None \<Rightarrow> (0, KeyMissing)
      | Some e \<Rightarrow>
          (let at = expiresAt e in
           if \<not> IsZero at \<and> \<not> now < at then (0, KeyMissing)
           else if IsZero at then (0, KeyPersistent)
           else (time_sub at now, KeyVolatile)))"

definition Exists :: "time \<Rightarrow> key list \<Rightarrow> 'j store \<Rightarrow> nat" where
  "Exists now keys s =
     length (filter (\<lambda>k. case fmlookup (data (shard_of s k)) k of
                           None \<Rightarrow> False
                         | Some e \<Rightarrow> \<not> expired e now) keys)"

definition Len :: "'j store \<Rightarrow> nat" where
  "Len s = sum_list (map (\<lambda>sh. fcard (fmdom (data sh))) (readShards s))"

definition DBSize :: "time \<Rightarrow> 'j store \<Rightarrow> nat" where
  "DBSize now s =
     sum_list (map (\<lambda>sh. length (filter (\<lambda>k. \<not> expired (the (fmlookup (data sh) k)) now)
                                  (range_order [] (fmdom (data sh)))))
                (readShards s))"

definition snapshot_record :: "key \<Rightarrow> entry \<Rightarrow> bytes list" where
  "snapshot_record key e =
     [cmdSET, key, val e] @
     (if \<not> IsZero (expiresAt e) then [cmdPXAT, unixMillis (expiresAt e)] else [])"

text \<open>The snapshot of one shard, in the order \<open>pref\<close> makes the loop take, and of the store.\<close>

definition shard_snapshot :: "key list \<Rightarrow> time \<Rightarrow> readShard \<Rightarrow> bytes list list" where
  "shard_snapshot pref now sh =
     map (\<lambda>k. snapshot_record k (the (fmlookup (data sh) k)))
       (filter (\<lambda>k. \<not> expired (the (fmlookup (data sh) k)) now)
          (range_order pref (fmdom (data sh))))"

definition AOFSnapshot :: "(nat \<Rightarrow> key list) \<Rightarrow> time \<Rightarrow> 'j store \<Rightarrow> bytes list list" where
  "AOFSnapshot pref now s =
     concat (map (\<lambda>i. shard_snapshot (pref i) now (readShards s ! i))
               [0 ..< length (readShards s)])"

subsection \<open>Writing\<close>

fun del_loop :: "time \<Rightarrow> key list \<Rightarrow> 'j store \<Rightarrow> bytes list \<Rightarrow> nat
    \<Rightarrow> 'j store \<times> bytes list \<times> nat" where
  "del_loop now [] s removed n = (s, removed, n)"
| "del_loop now (k # ks) s removed n =
     (case fmlookup (data (shard_of s k)) k of
        None \<Rightarrow> del_loop now ks s removed n
      | Some e \<Rightarrow>
          del_loop now ks (deleteLockedInWriteLockedShard k s) (removed @ [k])
            (if \<not> expired e now then n + 1 else n))"

definition Del ::
  "(bytes list \<Rightarrow> 'j \<Rightarrow> 'j) \<Rightarrow> time \<Rightarrow> key list \<Rightarrow> 'j store \<Rightarrow> nat \<times> 'j store" where
  "Del ap now keys s =
     (case del_loop now keys s [cmdDEL] 0 of
        (s1, removed, n) \<Rightarrow> (n, if 1 < length removed then propagate ap removed s1 else s1))"

definition set_store ::
  "(bytes list \<Rightarrow> 'j \<Rightarrow> 'j) \<Rightarrow> key \<Rightarrow> bytes \<Rightarrow> time \<Rightarrow> 'j store \<Rightarrow> 'j store" where
  "set_store ap key v at s = setLocked ap key v at s"

definition Set ::
  "(bytes list \<Rightarrow> 'j \<Rightarrow> 'j) \<Rightarrow> key \<Rightarrow> bytes \<Rightarrow> 'j store \<Rightarrow> 'j store" where
  "Set ap key v s = set_store ap key v 0 s"

definition SetWithTTL ::
  "(bytes list \<Rightarrow> 'j \<Rightarrow> 'j) \<Rightarrow> time \<Rightarrow> key \<Rightarrow> bytes \<Rightarrow> duration \<Rightarrow> 'j store \<Rightarrow> 'j store" where
  "SetWithTTL ap now key v ttl s =
     (if ttl \<le> 0 then snd (Del ap now [key] s) else set_store ap key v (time_add now ttl) s)"

definition SetWithDeadline ::
  "(bytes list \<Rightarrow> 'j \<Rightarrow> 'j) \<Rightarrow> time \<Rightarrow> time \<Rightarrow> key \<Rightarrow> bytes \<Rightarrow> time \<Rightarrow> 'j store \<Rightarrow> 'j store" where
  "SetWithDeadline ap now now' key v at s =
     (if \<not> at > now then snd (Del ap now' [key] s) else set_store ap key v at s)"

definition MSet ::
  "(bytes list \<Rightarrow> 'j \<Rightarrow> 'j) \<Rightarrow> Pair list \<Rightarrow> 'j store \<Rightarrow> 'j store" where
  "MSet ap pairs s =
     propagate ap (cmdMSET # concat (map (\<lambda>p. [Key p, Value p]) pairs))
       (fold (\<lambda>p. setLockedInWriteLockedShard (Key p) (Value p) 0) pairs s)"

text \<open>
  \<^verbatim>\<open>Increment\<close> and \<^verbatim>\<open>Append\<close> begin alike: look the key up under the read lock, and delete
  it if it has expired.
\<close>

definition load_live :: "time \<Rightarrow> key \<Rightarrow> 'j store \<Rightarrow> entry option \<times> 'j store" where
  "load_live now key s =
     (case fmlookup (data (shard_of s key)) key of
        None \<Rightarrow> (None, s)
      | Some e \<Rightarrow> (if expired e now then (None, deleteLocked key s) else (Some e, s)))"

definition Increment ::
  "(bytes list \<Rightarrow> 'j \<Rightarrow> 'j) \<Rightarrow> time \<Rightarrow> key \<Rightarrow> int \<Rightarrow> 'j store \<Rightarrow> (store_error + int) \<times> 'j store" where
  "Increment ap now key delta s =
     (case load_live now key s of
        (found, s1) \<Rightarrow>
          (case (case found of None \<Rightarrow> Inr 0 | Some e \<Rightarrow> ParseInt (val e)) of
             Inl _ \<Rightarrow> (Inl ErrNotInteger, s1)
           | Inr n \<Rightarrow>
               (if (delta > 0 \<and> n > wrap64 (maxInt64 - delta)) \<or>
                   (delta < 0 \<and> n < wrap64 (- maxInt64 - 1 - delta))
                then (Inl ErrNotInteger, s1)
                else
                  (let n' = wrap64 (n + delta);
                       at = (case found of None \<Rightarrow> 0 | Some e \<Rightarrow> expiresAt e)
                   in (Inr n', setLocked ap key (formatInt n') at s1)))))"

definition Append ::
  "(bytes list \<Rightarrow> 'j \<Rightarrow> 'j) \<Rightarrow> time \<Rightarrow> key \<Rightarrow> bytes \<Rightarrow> 'j store \<Rightarrow> nat \<times> 'j store" where
  "Append ap now key suf s =
     (case load_live now key s of
        (found, s1) \<Rightarrow>
          (let old = (case found of None \<Rightarrow> [] | Some e \<Rightarrow> val e);
               at = (case found of None \<Rightarrow> 0 | Some e \<Rightarrow> expiresAt e);
               v = old @ suf
           in (length v, setLocked ap key v at s1)))"

definition ExpireAt ::
  "(bytes list \<Rightarrow> 'j \<Rightarrow> 'j) \<Rightarrow> time \<Rightarrow> key \<Rightarrow> time \<Rightarrow> 'j store \<Rightarrow> bool \<times> 'j store" where
  "ExpireAt ap now key at s =
     (case fmlookup (data (shard_of s key)) key of
        None \<Rightarrow> (False, s)
      | Some e \<Rightarrow>
          (if expired e now then
             (False, propagate ap [cmdDEL, key] (deleteLockedInWriteLockedShard key s))
           else if \<not> at > now then
             (True, propagate ap [cmdDEL, key] (deleteLockedInWriteLockedShard key s))
           else
             (let sh = shard_of s key;
                  s1 = put_shard key
                    (sh\<lparr>data := fmupd key (e\<lparr>expiresAt := at\<rparr>) (data sh),
                        expiring := finsert key (expiring sh)\<rparr>) s
              in (True, propagate ap [cmdPEXPIREAT, key, unixMillis at] s1))))"

definition Expire ::
  "(bytes list \<Rightarrow> 'j \<Rightarrow> 'j) \<Rightarrow> time \<Rightarrow> time \<Rightarrow> key \<Rightarrow> duration \<Rightarrow> 'j store \<Rightarrow> bool \<times> 'j store" where
  "Expire ap now now' key ttl s = ExpireAt ap now' key (time_add now ttl) s"

end
