(* ===== verification/Store_Inv.thy ===== *)
theory Store_Inv
  imports Store
begin

text \<open>
  What the store's primitives do to a lookup, and the invariant every operation keeps: each
  key lives in the shard it hashes to, a shard's expiry index holds exactly its keys with a
  deadline, and its subtotal is the sum of the sizes of its entries.
\<close>

section \<open>Definitions\<close>

definition wf_store :: "'j store \<Rightarrow> bool" where
  "wf_store s \<longleftrightarrow> length (readShards s) = shardCount"

text \<open>What the store holds for a key, and the part of it a client can see at \<open>now\<close>.\<close>

definition lookup :: "'j store \<Rightarrow> key \<Rightarrow> entry option" where
  "lookup s k = fmlookup (data (shard_of s k)) k"

definition view :: "'j store \<Rightarrow> key \<Rightarrow> (bytes \<times> time) option" where
  "view s k = map_option (\<lambda>e. (val e, expiresAt e)) (lookup s k)"

definition visible :: "time \<Rightarrow> 'j store \<Rightarrow> key \<Rightarrow> (bytes \<times> time) option" where
  "visible now s k =
     (case lookup s k of
        None \<Rightarrow> None
      | Some e \<Rightarrow> (if expired e now then None else Some (val e, expiresAt e)))"

definition shard_size :: "(key, entry) fmap \<Rightarrow> int" where
  "shard_size m = (\<Sum>k \<in> fset (fmdom m). entrySize k (val (the (fmlookup m k))))"

definition shard_inv :: "nat \<Rightarrow> readShard \<Rightarrow> bool" where
  "shard_inv i sh \<longleftrightarrow>
     (\<forall>k. k |\<in>| fmdom (data sh) \<longrightarrow> sidx k = i) \<and>
     (\<forall>k. k |\<in>| expiring sh \<longleftrightarrow>
        (\<exists>e. fmlookup (data sh) k = Some e \<and> \<not> IsZero (expiresAt e))) \<and>
     used sh = shard_size (data sh)"

definition store_inv :: "'j store \<Rightarrow> bool" where
  "store_inv s \<longleftrightarrow> wf_store s \<and> (\<forall>i < shardCount. shard_inv i (readShards s ! i))"

text \<open>The records an operation has handed to the journal, in order.\<close>

definition journalled ::
  "(bytes list \<Rightarrow> 'j \<Rightarrow> 'j) \<Rightarrow> bytes list list \<Rightarrow> 'j store \<Rightarrow> 'j store \<Rightarrow> bool" where
  "journalled ap recs s s' \<longleftrightarrow> journal s' = map_option (fold ap recs) (journal s)"

text \<open>The record of a full replacement of a key.\<close>

definition set_record :: "key \<Rightarrow> bytes \<Rightarrow> time \<Rightarrow> bytes list" where
  "set_record k v at =
     (if IsZero at then [cmdSET, k, v] else [cmdSET, k, v, cmdPXAT, unixMillis at])"

text \<open>
  A journal that is the list of its records, which the concrete instances below use.
\<close>

abbreviation rec_append :: "bytes list \<Rightarrow> bytes list list \<Rightarrow> bytes list list" where
  "rec_append r j \<equiv> j @ [r]"

section \<open>Lemmas\<close>

subsection \<open>Frames\<close>

lemma store_inv_wf [simp]: "store_inv s \<Longrightarrow> wf_store s"
  by (simp add: store_inv_def)

lemma put_shard_frame [simp]:
  "journal (put_shard k sh s) = journal s" "clock (put_shard k sh s) = clock s"
  "maxMemory (put_shard k sh s) = maxMemory s" "policy (put_shard k sh s) = policy s"
  "stats (put_shard k sh s) = stats s" "wf_store (put_shard k sh s) = wf_store s"
  by (simp_all add: put_shard_def wf_store_def)

lemma shard_of_put_shard [store_simps]:
  "wf_store s \<Longrightarrow>
     shard_of (put_shard k sh s) k' = (if sidx k = sidx k' then sh else shard_of s k')"
  by (simp add: shard_of_def put_shard_def wf_store_def nth_list_update)

lemma shard_of_cong: "sidx k = sidx k' \<Longrightarrow> shard_of s k = shard_of s k'"
  by (simp add: shard_of_def)

lemma propagate_frame [simp]:
  "readShards (propagate ap r s) = readShards s" "clock (propagate ap r s) = clock s"
  "maxMemory (propagate ap r s) = maxMemory s" "policy (propagate ap r s) = policy s"
  "stats (propagate ap r s) = stats s"
  by (simp_all add: propagate_def split: option.split)

lemma propagate_lookup [simp]:
  "shard_of (propagate ap r s) k = shard_of s k" "lookup (propagate ap r s) k = lookup s k"
  "wf_store (propagate ap r s) = wf_store s" "store_inv (propagate ap r s) = store_inv s"
  by (simp_all add: shard_of_def lookup_def wf_store_def store_inv_def)

lemma stats_frame [simp]:
  "shard_of (s\<lparr>stats := st\<rparr>) k = shard_of s k" "lookup (s\<lparr>stats := st\<rparr>) k = lookup s k"
  "wf_store (s\<lparr>stats := st\<rparr>) = wf_store s" "store_inv (s\<lparr>stats := st\<rparr>) = store_inv s"
  by (simp_all add: shard_of_def lookup_def wf_store_def store_inv_def)

lemma journalled_propagate: "journal s' = journal s \<Longrightarrow> journalled ap [r] s (propagate ap r s')"
  by (simp add: journalled_def propagate_def split: option.split)

lemma journalled_nil: "journal s' = journal s \<Longrightarrow> journalled ap [] s s'"
  by (simp add: journalled_def option.map_id)

lemma journalled_trans:
  "journalled ap rs s s' \<Longrightarrow> journalled ap rs' s' s'' \<Longrightarrow> journalled ap (rs @ rs') s s''"
  by (auto simp: journalled_def option.map_comp)

subsection \<open>The effect of the primitives on a lookup\<close>

lemma lookup_delete [store_simps]:
  "wf_store s \<Longrightarrow> lookup (deleteLockedInWriteLockedShard k s) = (lookup s)(k := None)"
  by (auto simp: deleteLockedInWriteLockedShard_def lookup_def Let_def shard_of_put_shard
      fun_eq_iff)
    (metis shard_of_cong)+

lemma lookup_set [store_simps]:
  "wf_store s \<Longrightarrow> lookup (setLockedInWriteLockedShard k v at s) =
     (lookup s)(k \<mapsto> \<lparr>val = v, atime = clock s, expiresAt = at\<rparr>)"
  by (auto simp: setLockedInWriteLockedShard_def lookup_def Let_def shard_of_put_shard
      fun_eq_iff)
    (metis shard_of_cong)+

lemma delete_frame [simp]:
  "journal (deleteLockedInWriteLockedShard k s) = journal s"
  "clock (deleteLockedInWriteLockedShard k s) = clock s"
  "maxMemory (deleteLockedInWriteLockedShard k s) = maxMemory s"
  "policy (deleteLockedInWriteLockedShard k s) = policy s"
  "stats (deleteLockedInWriteLockedShard k s) = stats s"
  "wf_store (deleteLockedInWriteLockedShard k s) = wf_store s"
  by (simp_all add: deleteLockedInWriteLockedShard_def Let_def)

lemma set_frame [simp]:
  "journal (setLockedInWriteLockedShard k v at s) = journal s"
  "clock (setLockedInWriteLockedShard k v at s) = clock s"
  "maxMemory (setLockedInWriteLockedShard k v at s) = maxMemory s"
  "policy (setLockedInWriteLockedShard k v at s) = policy s"
  "stats (setLockedInWriteLockedShard k v at s) = stats s"
  "wf_store (setLockedInWriteLockedShard k v at s) = wf_store s"
  by (simp_all add: setLockedInWriteLockedShard_def Let_def)

lemma setLocked_lookup [store_simps]:
  "wf_store s \<Longrightarrow> lookup (setLocked ap k v at s) =
     (lookup s)(k \<mapsto> \<lparr>val = v, atime = clock s, expiresAt = at\<rparr>)"
  by (simp add: setLocked_def propagateSetLocked_def fun_eq_iff lookup_set)

lemma setLocked_frame [simp]:
  "clock (setLocked ap k v at s) = clock s" "maxMemory (setLocked ap k v at s) = maxMemory s"
  "policy (setLocked ap k v at s) = policy s" "stats (setLocked ap k v at s) = stats s"
  "wf_store (setLocked ap k v at s) = wf_store s"
  by (simp_all add: setLocked_def propagateSetLocked_def)

lemma setLocked_journalled: "journalled ap [set_record k v at] s (setLocked ap k v at s)"
  by (simp add: setLocked_def propagateSetLocked_def set_record_def journalled_propagate)

lemma view_visible:
  "visible now s k = (case view s k of
     None \<Rightarrow> None | Some (v, at) \<Rightarrow> if at \<noteq> 0 \<and> \<not> now < at then None else Some (v, at))"
  by (simp add: visible_def view_def expired_def IsZero_def split: option.split)

subsection \<open>The invariant\<close>

lemma shard_size_upd:
  "shard_size (fmupd k e m) =
     shard_size m - (case fmlookup m k of None \<Rightarrow> 0 | Some old \<Rightarrow> entrySize k (val old))
     + entrySize k (val e)"
  unfolding shard_size_def
  using sum_fmupd [where f = "\<lambda>k e. entrySize k (val e)" and a = k and b = e and m = m] .

lemma shard_size_drop:
  "shard_size (fmdrop k m) =
     shard_size m - (case fmlookup m k of None \<Rightarrow> 0 | Some old \<Rightarrow> entrySize k (val old))"
  unfolding shard_size_def
  using sum_fmdrop [where f = "\<lambda>k e. entrySize k (val e)" and a = k and m = m] .

lemma shard_inv_upd:
  assumes "shard_inv i sh" and "sidx k = i"
    and "expiring sh' =
      (if IsZero (expiresAt e) then expiring sh |-| {|k|} else finsert k (expiring sh))"
    and "data sh' = fmupd k e (data sh)"
    and "used sh' = used sh
      - (case fmlookup (data sh) k of None \<Rightarrow> 0 | Some old \<Rightarrow> entrySize k (val old))
      + entrySize k (val e)"
  shows "shard_inv i sh'"
  using assms by (auto simp: shard_inv_def shard_size_upd split: if_splits)

lemma shard_inv_drop:
  assumes "shard_inv i sh"
    and "expiring sh' = expiring sh |-| {|k|}" and "data sh' = fmdrop k (data sh)"
    and "used sh' = used sh
      - (case fmlookup (data sh) k of None \<Rightarrow> 0 | Some old \<Rightarrow> entrySize k (val old))"
  shows "shard_inv i sh'"
  using assms by (auto simp: shard_inv_def shard_size_drop split: if_splits)

lemma shard_inv_of: "store_inv s \<Longrightarrow> shard_inv (sidx k) (shard_of s k)"
  by (simp add: store_inv_def shard_of_def)

lemma store_inv_put_shard:
  assumes "store_inv s" and "shard_inv (sidx k) sh"
  shows "store_inv (put_shard k sh s)"
  using assms
  by (auto simp: store_inv_def put_shard_def wf_store_def nth_list_update)

lemma store_inv_delete [inv_intros]:
  "store_inv s \<Longrightarrow> store_inv (deleteLockedInWriteLockedShard k s)"
  unfolding deleteLockedInWriteLockedShard_def Let_def
  by (rule store_inv_put_shard, assumption, rule shard_inv_drop [OF shard_inv_of])
    (auto split: option.split)

lemma store_inv_set [inv_intros]:
  "store_inv s \<Longrightarrow> store_inv (setLockedInWriteLockedShard k v at s)"
  unfolding setLockedInWriteLockedShard_def Let_def
  by (rule store_inv_put_shard, assumption, rule shard_inv_upd [OF shard_inv_of,
      where e = "\<lparr>val = v, atime = clock s, expiresAt = at\<rparr>" and k = k])
    (auto split: option.split)

lemma store_inv_setLocked [inv_intros]:
  "store_inv s \<Longrightarrow> store_inv (setLocked ap k v at s)"
  by (simp add: setLocked_def propagateSetLocked_def store_inv_set)

text \<open>An in-place change of an entry that keeps its value.\<close>

lemma store_inv_touch:
  assumes inv: "store_inv s" and l: "lookup s k = Some e" and v: "val e' = val e"
    and ex: "ex = (if IsZero (expiresAt e') then expiring (shard_of s k) |-| {|k|}
                   else finsert k (expiring (shard_of s k)))"
  shows "store_inv (put_shard k
    ((shard_of s k)\<lparr>data := fmupd k e' (data (shard_of s k)), expiring := ex\<rparr>) s)"
  by (rule store_inv_put_shard [OF inv], rule shard_inv_upd [OF shard_inv_of [OF inv],
        where k = k and e = e'])
    (use l v ex in \<open>auto simp: lookup_def\<close>)

lemma store_inv_New [simp]: "store_inv New"
  by (auto simp: store_inv_def wf_store_def New_def shard_inv_def shard_size_def)

lemma lookup_New [simp]: "lookup New k = None"
  by (simp add: lookup_def shard_of_def New_def)

lemma SetJournal_frame [simp]:
  "lookup (SetJournal j s) = lookup s" "store_inv (SetJournal j s) = store_inv s"
  "wf_store (SetJournal j s) = wf_store s" "journal (SetJournal j s) = Some j"
  by (simp_all add: SetJournal_def lookup_def shard_of_def store_inv_def wf_store_def fun_eq_iff)

end
