(* ===== verification/Store_Props.thy ===== *)
theory Store_Props
  imports Store_Inv
begin

text \<open>
  The operations of the store, one after the other: what each returns, what it leaves for
  every key, which records it hands to the journal, and that it keeps the invariant.
\<close>

section \<open>Reading\<close>

lemma lookup_touch:
  assumes "wf_store s"
  shows "lookup (put_shard k ((shard_of s k)\<lparr>data := fmupd k e (data (shard_of s k))\<rparr>) s) =
    (lookup s)(k \<mapsto> e)"
  using assms by (auto simp: lookup_def fun_eq_iff shard_of_put_shard) (metis shard_of_cong)

lemma Get_read_cases:
  assumes "store_inv s"
  shows "store_inv (snd (Get_read now k s))"
    and "view (snd (Get_read now k s)) = view s"
    and "journal (snd (Get_read now k s)) = journal s"
    and "clock (snd (Get_read now k s)) = clock s"
    and "fst (Get_read now k s) =
      (case lookup s k of
         None \<Rightarrow> Missing | Some e \<Rightarrow> if expired e now then Stale else Hit (val e))"
proof -
  show "store_inv (snd (Get_read now k s))"
  proof (cases "lookup s k")
    case (Some e)
    have idx: "k |\<in>| expiring (shard_of s k) \<longleftrightarrow> expiresAt e \<noteq> 0"
      using shard_inv_of [OF assms, of k] Some by (auto simp: shard_inv_def lookup_def)
    have "store_inv (put_shard k
      ((shard_of s k)\<lparr>data := fmupd k (e\<lparr>atime := clock s\<rparr>) (data (shard_of s k)),
          expiring := expiring (shard_of s k)\<rparr>) s)"
      by (rule store_inv_touch [OF assms Some]) (use idx in auto)
    with Some assms show ?thesis
      by (simp add: Get_read_def lookup_def Let_def)
  qed (use assms in \<open>simp add: Get_read_def lookup_def\<close>)
  show "view (snd (Get_read now k s)) = view s"
    using assms lookup_touch [of s k]
    by (auto simp: Get_read_def view_def fun_eq_iff lookup_def [symmetric] Let_def
        split: option.split)
qed (simp_all add: Get_read_def lookup_def Let_def split: option.split)

lemma Get_collect_lookup:
  "wf_store s \<Longrightarrow> lookup (Get_collect now k s) =
     (case lookup s k of
        Some e \<Rightarrow> if expired e now then (lookup s)(k := None) else lookup s
      | None \<Rightarrow> lookup s)"
  by (simp add: Get_collect_def lookup_def [symmetric] lookup_delete split: option.split)

lemma Get_collect_frame:
  "journal (Get_collect now k s) = journal s" "clock (Get_collect now k s) = clock s"
  by (simp_all add: Get_collect_def split: option.split)

lemma Get_collect_inv: "store_inv s \<Longrightarrow> store_inv (Get_collect now k s)"
  by (simp add: Get_collect_def store_inv_delete split: option.split)

text \<open>Collecting an expired key changes nothing any client can see from then on.\<close>

lemma Get_collect_visible:
  assumes "wf_store s" and "now \<le> t"
  shows "visible t (Get_collect now k s) = visible t s"
  using assms
  by (auto simp: visible_def Get_collect_lookup fun_eq_iff expired_def split: option.split)

lemma Get_store:
  "snd (Get now now' k s) =
     (if fst (Get_read now k s) = Stale then Get_collect now' k (snd (Get_read now k s))
      else snd (Get_read now k s))"
  by (auto simp: Get_def split: prod.split get_result.split)

lemma Get_inv [inv_intros]: "store_inv s \<Longrightarrow> store_inv (snd (Get now now' k s))"
  by (simp add: Get_store Get_read_cases(1) Get_collect_inv)

lemma Get_journalled: "store_inv s \<Longrightarrow> journalled ap [] s (snd (Get now now' k s))"
  by (intro journalled_nil) (simp add: Get_store Get_read_cases Get_collect_frame)

lemma visible_cong_view: "view s' = view s \<Longrightarrow> visible t s' = visible t s"
  by (simp add: fun_eq_iff view_visible)

lemma Get_visible:
  assumes "store_inv s" and "now' \<le> t"
  shows "visible t (snd (Get now now' k s)) = visible t s"
  using assms visible_cong_view [OF Get_read_cases(2) [OF assms(1), of now k]]
  by (simp add: Get_store Get_collect_visible Get_read_cases(1))

lemma Get_value:
  "store_inv s \<Longrightarrow> fst (Get now now' k s) = map_option fst (visible now s k)"
  using Get_read_cases(5) [of s now k]
  by (auto simp: Get_def visible_def split: prod.split get_result.split option.splits if_splits)

section \<open>Replacing values\<close>

lemma Set_lookup:
  "wf_store s \<Longrightarrow> lookup (Set ap k v s) = (lookup s)(k \<mapsto> \<lparr>val = v, atime = clock s, expiresAt = 0\<rparr>)"
  by (simp add: Set_def set_store_def setLocked_lookup)

lemma visible_upd:
  assumes "lookup s' = (lookup s)(k \<mapsto> e)"
  shows "visible t s' = (visible t s)(k := if expired e t then None else Some (val e, expiresAt e))"
  using assms by (auto simp: visible_def fun_eq_iff)

lemma visible_del:
  assumes "lookup s' = (lookup s)(k := None)"
  shows "visible t s' = (visible t s)(k := None)"
  using assms by (auto simp: visible_def fun_eq_iff)

lemma MSet_fold_lookup:
  "wf_store s \<Longrightarrow>
     lookup (fold (\<lambda>p. setLockedInWriteLockedShard (Key p) (Value p) 0) ps s) =
     fold (\<lambda>p m. m(Key p \<mapsto> \<lparr>val = Value p, atime = clock s, expiresAt = 0\<rparr>)) ps (lookup s)"
  by (induction ps arbitrary: s) (simp_all add: lookup_set)

lemma MSet_fold_frame:
  "journal (fold (\<lambda>p. setLockedInWriteLockedShard (Key p) (Value p) 0) ps s) = journal s"
  "clock (fold (\<lambda>p. setLockedInWriteLockedShard (Key p) (Value p) 0) ps s) = clock s"
  by (induction ps arbitrary: s) simp_all

lemma MSet_fold_inv:
  "store_inv s \<Longrightarrow>
     store_inv (fold (\<lambda>p. setLockedInWriteLockedShard (Key p) (Value p) 0) ps s)"
  by (induction ps arbitrary: s) (simp_all add: store_inv_set)

lemma MSet_inv [inv_intros]: "store_inv s \<Longrightarrow> store_inv (MSet ap ps s)"
  by (simp add: MSet_def MSet_fold_inv)

lemma MSet_lookup:
  "wf_store s \<Longrightarrow> lookup (MSet ap ps s) =
     fold (\<lambda>p m. m(Key p \<mapsto> \<lparr>val = Value p, atime = clock s, expiresAt = 0\<rparr>)) ps (lookup s)"
  by (simp add: MSet_def MSet_fold_lookup fun_eq_iff)

lemma MSet_journalled:
  "journalled ap [cmdMSET # concat (map (\<lambda>p. [Key p, Value p]) ps)] s (MSet ap ps s)"
  by (simp add: MSet_def journalled_propagate MSet_fold_frame)

section \<open>Deleting\<close>

text \<open>The keys a \<^verbatim>\<open>DEL\<close> really removes: those present, once each, in order of appearance.\<close>

fun present :: "key list \<Rightarrow> (key \<Rightarrow> entry option) \<Rightarrow> key list" where
  "present [] m = []"
| "present (k # ks) m = (if m k = None then present ks m else k # present ks (m(k := None)))"

lemma set_present: "set (present ks m) = {k \<in> set ks. m k \<noteq> None}"
  by (induction ks arbitrary: m) auto

lemma distinct_present: "distinct (present ks m)"
  by (induction ks arbitrary: m) (auto simp: set_present)

lemma del_loop_result:
  assumes "store_inv s"
  shows "del_loop now ks s removed n = (s', removed', n') \<Longrightarrow>
    store_inv s' \<and> journal s' = journal s \<and> clock s' = clock s \<and>
    lookup s' = (\<lambda>k. if k \<in> set ks then None else lookup s k) \<and>
    removed' = removed @ present ks (lookup s) \<and>
    n' = n + length (filter (\<lambda>k. \<not> expired (the (lookup s k)) now) (present ks (lookup s)))"
  using assms
proof (induction ks arbitrary: s removed n)
  case Nil
  then show ?case by (auto simp: fun_eq_iff)
next
  case (Cons k ks)
  show ?case
  proof (cases "lookup s k")
    case None
    with Cons.prems Cons.IH [of s removed n] show ?thesis
      by (auto simp: lookup_def [symmetric] fun_eq_iff)
  next
    case (Some e)
    let ?s = "deleteLockedInWriteLockedShard k s"
    have l: "lookup ?s = (lookup s)(k := None)"
      using Cons.prems(2) by (simp add: lookup_delete)
    have f: "filter (\<lambda>j. \<not> expired (the (((lookup s)(k := None)) j)) now)
        (present ks ((lookup s)(k := None))) =
      filter (\<lambda>j. \<not> expired (the (lookup s j)) now) (present ks ((lookup s)(k := None)))"
      by (rule filter_cong) (auto simp: set_present)
    from Cons.prems Some
    have "del_loop now ks ?s (removed @ [k]) (if \<not> expired e now then n + 1 else n) =
        (s', removed', n')"
      by (simp add: lookup_def)
    from Cons.IH [OF this store_inv_delete [OF Cons.prems(2)]]
    have "store_inv s' \<and> journal s' = journal s \<and> clock s' = clock s \<and>
      lookup s' = (\<lambda>j. if j \<in> set ks then None else ((lookup s)(k := None)) j) \<and>
      removed' = removed @ k # present ks ((lookup s)(k := None)) \<and>
      n' = (if \<not> expired e now then n + 1 else n) +
        length (filter (\<lambda>j. \<not> expired (the (((lookup s)(k := None)) j)) now)
          (present ks ((lookup s)(k := None))))"
      by (simp add: l del: fun_upd_apply cong: if_cong)
    then show ?thesis
      using Some f by (auto simp: fun_upd_apply)
  qed
qed

lemma Del_result:
  assumes "store_inv s"
  shows "store_inv (snd (Del ap now ks s))"
    and "lookup (snd (Del ap now ks s)) = (\<lambda>k. if k \<in> set ks then None else lookup s k)"
    and "fst (Del ap now ks s) = card {k \<in> set ks. visible now s k \<noteq> None}"
    and "journalled ap (if present ks (lookup s) = [] then [] else [cmdDEL # present ks (lookup s)])
      s (snd (Del ap now ks s))"
    and "clock (snd (Del ap now ks s)) = clock s"
proof -
  obtain s' removed n where d: "del_loop now ks s [cmdDEL] 0 = (s', removed, n)"
    by (cases "del_loop now ks s [cmdDEL] 0") auto
  note r = del_loop_result [OF assms d]
  show "store_inv (snd (Del ap now ks s))" "clock (snd (Del ap now ks s)) = clock s"
    "lookup (snd (Del ap now ks s)) = (\<lambda>k. if k \<in> set ks then None else lookup s k)"
    using r by (auto simp: Del_def d fun_eq_iff)
  have "fst (Del ap now ks s) =
      length (filter (\<lambda>k. \<not> expired (the (lookup s k)) now) (present ks (lookup s)))"
    using r by (simp add: Del_def d)
  also have "\<dots> = card {k \<in> set ks. visible now s k \<noteq> None}"
    by (subst distinct_card [symmetric])
      (auto simp: distinct_present set_present visible_def split: option.splits
        intro!: arg_cong [where f = card])
  finally show "fst (Del ap now ks s) = card {k \<in> set ks. visible now s k \<noteq> None}" .
  show "journalled ap
      (if present ks (lookup s) = [] then [] else [cmdDEL # present ks (lookup s)])
      s (snd (Del ap now ks s))"
    using r by (auto simp: Del_def d journalled_nil journalled_propagate)
qed

lemmas Del_inv [inv_intros] = Del_result(1)

section \<open>Read, modify, write\<close>

lemma load_live_result:
  assumes "store_inv s"
  shows "store_inv (snd (load_live now k s))"
    and "journal (snd (load_live now k s)) = journal s"
    and "clock (snd (load_live now k s)) = clock s"
    and "fst (load_live now k s) =
      (case lookup s k of None \<Rightarrow> None | Some e \<Rightarrow> if expired e now then None else Some e)"
    and "(lookup (snd (load_live now k s)))(k := x) = (lookup s)(k := x)"
  using assms
  by (auto simp: load_live_def deleteLocked_def lookup_def [symmetric] lookup_delete
      store_inv_delete split: option.split)

lemma Append_lookup:
  assumes "store_inv s"
  shows "lookup (snd (Append ap now k suf s)) =
    (lookup s)(k \<mapsto> \<lparr>val = (case visible now s k of None \<Rightarrow> [] | Some (v, _) \<Rightarrow> v) @ suf,
      atime = clock s, expiresAt = (case visible now s k of None \<Rightarrow> 0 | Some (_, at) \<Rightarrow> at)\<rparr>)"
  using load_live_result [OF assms, of now k]
  by (auto simp: Append_def Let_def visible_def setLocked_lookup store_inv_wf
      split: prod.split option.splits if_splits)

lemma Append_fst:
  assumes "store_inv s"
  shows "fst (Append ap now k suf s) =
    length ((case visible now s k of None \<Rightarrow> [] | Some (v, _) \<Rightarrow> v) @ suf)"
  using load_live_result(4) [OF assms, of now k]
  by (auto simp: Append_def Let_def visible_def split: prod.split option.splits if_splits)

lemma Append_inv [inv_intros]:
  assumes "store_inv s"
  shows "store_inv (snd (Append ap now k suf s))"
  using load_live_result(1) [OF assms, of now k]
  by (auto simp: Append_def Let_def store_inv_setLocked split: prod.split)

text \<open>The number \<^verbatim>\<open>Increment\<close> starts from: 0 for a key no client can see.\<close>

definition current_int :: "(bytes \<times> time) option \<Rightarrow> int option" where
  "current_int x =
     (case x of
        None \<Rightarrow> Some 0
      | Some (v, _) \<Rightarrow> (case ParseInt v of Inl _ \<Rightarrow> None | Inr n \<Rightarrow> Some n))"

lemma in64_zero: "in64 0"
  by (simp add: in64_def minInt64_def maxInt64_def)

lemma current_int_in64: "current_int x = Some n \<Longrightarrow> in64 n"
  by (auto simp: current_int_def in64_zero split: option.splits sum.splits dest: ParseInt_in64)

lemma overflow_check:
  assumes "in64 n" and "in64 delta"
  shows "((delta > 0 \<and> n > wrap64 (maxInt64 - delta)) \<or>
      (delta < 0 \<and> n < wrap64 (- maxInt64 - 1 - delta))) \<longleftrightarrow> \<not> in64 (n + delta)"
proof -
  have "delta > 0 \<Longrightarrow> wrap64 (maxInt64 - delta) = maxInt64 - delta"
    using assms by (intro wrap64_id) (auto simp: in64_def minInt64_def maxInt64_def)
  moreover have "delta < 0 \<Longrightarrow> wrap64 (- maxInt64 - 1 - delta) = minInt64 - delta"
    using assms by (subst wrap64_id) (auto simp: in64_def minInt64_def maxInt64_def)
  ultimately show ?thesis
    using assms by (auto simp: in64_def)
qed

lemma Increment_unfold:
  assumes "store_inv s" and "in64 delta"
  shows "Increment ap now k delta s =
    (case current_int (visible now s k) of
       None \<Rightarrow> (Inl ErrNotInteger, snd (load_live now k s))
     | Some n \<Rightarrow>
         (if in64 (n + delta) then
            (Inr (n + delta),
             setLocked ap k (formatInt (n + delta))
               (case visible now s k of None \<Rightarrow> 0 | Some (_, at) \<Rightarrow> at) (snd (load_live now k s)))
          else (Inl ErrNotInteger, snd (load_live now k s))))"
proof -
  obtain f s1 where l: "load_live now k s = (f, s1)"
    by (cases "load_live now k s")
  have f: "visible now s k = map_option (\<lambda>e. (val e, expiresAt e)) f"
    using load_live_result(4) [OF assms(1), of now k] l
    by (auto simp: visible_def split: option.splits)
  show ?thesis
  proof (cases "current_int (visible now s k)")
    case None
    then show ?thesis
      using f by (auto simp: Increment_def l current_int_def split: option.splits sum.splits)
  next
    case (Some n)
    with f have "(case f of None \<Rightarrow> Inr 0 | Some e \<Rightarrow> ParseInt (val e)) = (Inr n :: num_error + int)"
      by (auto simp: current_int_def split: option.splits sum.splits)
    then show ?thesis
      using Some f overflow_check [OF current_int_in64 [OF Some] assms(2)]
      by (auto simp: Increment_def l Let_def split: option.split)
  qed
qed

lemma Increment_inv [inv_intros]:
  assumes "store_inv s" and "in64 delta"
  shows "store_inv (snd (Increment ap now k delta s))"
  using load_live_result(1) [OF assms(1), of now k]
  by (auto simp: Increment_unfold [OF assms] store_inv_setLocked split: option.split)

lemma load_live_visible:
  assumes "store_inv s" and "now \<le> t"
  shows "visible t (snd (load_live now k s)) = visible t s"
proof (cases "lookup s k")
  case None
  then show ?thesis by (simp add: load_live_def lookup_def)
next
  case (Some e)
  show ?thesis
  proof (cases "expired e now")
    case True
    then have "snd (load_live now k s) = deleteLockedInWriteLockedShard k s"
      using Some by (simp add: load_live_def lookup_def deleteLocked_def)
    moreover have "expired e t"
      using True assms(2) by (auto simp: expired_def)
    ultimately show ?thesis
      using Some assms(1) by (auto simp: visible_def lookup_delete fun_eq_iff)
  next
    case False
    with Some show ?thesis by (simp add: load_live_def lookup_def)
  qed
qed

section \<open>Deadlines\<close>

lemma ExpireAt_cases:
  assumes "store_inv s"
  shows "visible now s k = None \<Longrightarrow>
      fst (ExpireAt ap now k at s) = False \<and>
      lookup (snd (ExpireAt ap now k at s)) = (lookup s)(k := None)"
    and "visible now s k = Some (v, d) \<Longrightarrow> at \<le> now \<Longrightarrow>
      fst (ExpireAt ap now k at s) = True \<and>
      lookup (snd (ExpireAt ap now k at s)) = (lookup s)(k := None)"
    and "visible now s k = Some (v, d) \<Longrightarrow> now < at \<Longrightarrow>
      fst (ExpireAt ap now k at s) = True \<and>
      lookup (snd (ExpireAt ap now k at s)) =
        (lookup s)(k \<mapsto> (the (lookup s k))\<lparr>expiresAt := at\<rparr>)"
proof -
  have w: "wf_store s" using assms by simp
  show "visible now s k = None \<Longrightarrow>
      fst (ExpireAt ap now k at s) = False \<and>
      lookup (snd (ExpireAt ap now k at s)) = (lookup s)(k := None)"
    using w by (auto simp: ExpireAt_def visible_def lookup_def [symmetric] fun_eq_iff
        lookup_delete split: option.splits if_splits)
  show "visible now s k = Some (v, d) \<Longrightarrow> at \<le> now \<Longrightarrow>
      fst (ExpireAt ap now k at s) = True \<and>
      lookup (snd (ExpireAt ap now k at s)) = (lookup s)(k := None)"
    using w by (auto simp: ExpireAt_def visible_def lookup_def [symmetric] fun_eq_iff
        lookup_delete split: option.splits if_splits)
  assume v: "visible now s k = Some (v, d)" and at: "now < at"
  then obtain e where e: "lookup s k = Some e" "\<not> expired e now"
    by (auto simp: visible_def split: option.splits if_splits)
  have "lookup (put_shard k
      ((shard_of s k)\<lparr>data := fmupd k (e\<lparr>expiresAt := at\<rparr>) (data (shard_of s k)),
        expiring := finsert k (expiring (shard_of s k))\<rparr>) s) = (lookup s)(k \<mapsto> e\<lparr>expiresAt := at\<rparr>)"
    using w by (auto simp: lookup_def fun_eq_iff shard_of_put_shard) (metis shard_of_cong)
  with e at show "fst (ExpireAt ap now k at s) = True \<and>
      lookup (snd (ExpireAt ap now k at s)) =
        (lookup s)(k \<mapsto> (the (lookup s k))\<lparr>expiresAt := at\<rparr>)"
    by (auto simp: ExpireAt_def lookup_def [symmetric] Let_def fun_eq_iff)
qed

lemma ExpireAt_inv [inv_intros]:
  assumes "store_inv s"
  shows "store_inv (snd (ExpireAt ap now k at s))"
proof (cases "lookup s k")
  case None
  with assms show ?thesis by (simp add: ExpireAt_def lookup_def)
next
  case (Some e)
  have "now < at \<Longrightarrow> store_inv (put_shard k
      ((shard_of s k)\<lparr>data := fmupd k (e\<lparr>expiresAt := at\<rparr>) (data (shard_of s k)),
        expiring := finsert k (expiring (shard_of s k))\<rparr>) s)"
    by (rule store_inv_touch [OF assms Some]) auto
  with Some assms show ?thesis
    by (auto simp: ExpireAt_def lookup_def [symmetric] Let_def store_inv_delete)
qed

lemma ExpireAt_journalled:
  "journalled ap
     (case lookup s k of
        None \<Rightarrow> []
      | Some e \<Rightarrow>
          [if \<not> expired e now \<and> now < at then [cmdPEXPIREAT, k, unixMillis at] else [cmdDEL, k]])
     s (snd (ExpireAt ap now k at s))"
  by (auto simp: ExpireAt_def lookup_def [symmetric] Let_def journalled_nil journalled_propagate
      split: option.split)

lemma SetWithTTL_inv [inv_intros]:
  "store_inv s \<Longrightarrow> store_inv (SetWithTTL ap now k v ttl s)"
  by (simp add: SetWithTTL_def set_store_def Del_inv store_inv_setLocked)

lemma SetWithDeadline_inv [inv_intros]:
  "store_inv s \<Longrightarrow> store_inv (SetWithDeadline ap now now' k v at s)"
  by (simp add: SetWithDeadline_def set_store_def Del_inv store_inv_setLocked)

lemma Set_inv [inv_intros]: "store_inv s \<Longrightarrow> store_inv (Set ap k v s)"
  by (simp add: Set_def set_store_def store_inv_setLocked)

lemma Expire_inv [inv_intros]: "store_inv s \<Longrightarrow> store_inv (snd (Expire ap now now' k ttl s))"
  by (simp add: Expire_def ExpireAt_inv)

lemma tick_inv [inv_intros]: "store_inv s \<Longrightarrow> store_inv (tick s)"
  by (simp add: tick_def store_inv_def wf_store_def)

end
