(* ===== verification/Evict.thy ===== *)
theory Evict
  imports Store_Props
begin

text \<open>
  The memory budget and eviction of \<^verbatim>\<open>internal/store/evict.go\<close>: parsing the two settings,
  the estimate of the memory in use, the choice of a victim and the loop that evicts until
  the keyspace fits.

  The order in which a loop over a shard's map visits the keys is the parameter \<open>pref\<close>
  (see \<open>range_order\<close>): per shard for one choice of a victim, and per round of the eviction
  loop and shard for \<open>EnforceMemoryLimit\<close>.
\<close>

section \<open>Definitions\<close>

subsection \<open>Settings\<close>

definition PolicyNoEviction :: bytes where "PolicyNoEviction = ''noeviction''"

definition PolicyAllKeysLRU :: bytes where "PolicyAllKeysLRU = ''allkeys-lru''"

definition PolicyAllKeysRandom :: bytes where "PolicyAllKeysRandom = ''allkeys-random''"

definition PolicyVolatileLRU :: bytes where "PolicyVolatileLRU = ''volatile-lru''"

definition ParseEvictionPolicy :: "unicode \<Rightarrow> bytes \<Rightarrow> bytes option" where
  "ParseEvictionPolicy U s =
     (let p = ToLower U s in
      if p \<in> {PolicyNoEviction, PolicyAllKeysLRU, PolicyAllKeysRandom, PolicyVolatileLRU}
      then Some p else None)"

datatype memory_error = InvalidSize bytes | NegativeSize bytes

definition memory_suffixes :: "(bytes \<times> int) list" where
  "memory_suffixes =
     [(''kb'', 1024), (''mb'', 1048576), (''gb'', 1073741824),
      (''k'', 1024), (''m'', 1048576), (''g'', 1073741824), (''b'', 1)]"

definition ParseMemory :: "unicode \<Rightarrow> bytes \<Rightarrow> memory_error + int" where
  "ParseMemory U s =
     (let t = ToLower U (TrimSpace U s) in
      case (case find (\<lambda>(suf, m). HasSuffix t suf) memory_suffixes of
              None \<Rightarrow> (t, 1)
            | Some (suf, m) \<Rightarrow> (TrimSpace U (TrimSuffix t suf), m)) of
        (digits, mult) \<Rightarrow>
          (case ParseInt digits of
             Inl _ \<Rightarrow> Inl (InvalidSize s)
           | Inr n \<Rightarrow> (if n < 0 then Inl (NegativeSize s) else Inr (wrap64 (n * mult)))))"

definition SetMemoryLimit :: "int \<Rightarrow> bytes \<Rightarrow> 'j store \<Rightarrow> 'j store" where
  "SetMemoryLimit limit p s = s\<lparr>maxMemory := limit, policy := p\<rparr>"

definition Used :: "'j store \<Rightarrow> int" where
  "Used s = sum_list (map used (readShards s))"

definition MaxMemory :: "'j store \<Rightarrow> int" where
  "MaxMemory s = maxMemory s"

definition Policy :: "'j store \<Rightarrow> bytes" where
  "Policy s = (if policy s = [] then PolicyNoEviction else policy s)"

subsection \<open>Choosing a victim\<close>

definition evictSampleSize :: nat where "evictSampleSize = 5"

record sampling =
  best :: "(key \<times> 64 word) option"
  scanned :: nat

text \<open>The closure \<^verbatim>\<open>sample\<close>: whether to go on, and the best candidate so far.\<close>

definition sample :: "'j store \<Rightarrow> key \<Rightarrow> sampling \<Rightarrow> bool \<times> sampling" where
  "sample s key st =
     (case fmlookup (data (shard_of s key)) key of
        None \<Rightarrow> (True, st)
      | Some e \<Rightarrow>
          (let n = scanned st + 1;
               b = (case best st of
                      None \<Rightarrow> Some (key, atime e)
                    | Some (bk, bt) \<Rightarrow> if atime e < bt then Some (key, atime e) else Some (bk, bt))
           in (n < evictSampleSize, \<lparr>best = b, scanned = n\<rparr>)))"

fun scan :: "'j store \<Rightarrow> key list \<Rightarrow> sampling \<Rightarrow> sampling" where
  "scan s [] st = st"
| "scan s (k # ks) st =
     (case sample s k st of (go, st') \<Rightarrow> if go then scan s ks st' else st')"

fun pick_loop :: "(nat \<Rightarrow> key list) \<Rightarrow> 'j store \<Rightarrow> nat list \<Rightarrow> sampling \<Rightarrow> key option" where
  "pick_loop pref s [] st = map_option fst (best st)"
| "pick_loop pref s (i # is) st =
     (let sh = readShards s ! i in
      if Policy s = PolicyVolatileLRU then
        (let st' = scan s (range_order (pref i) (expiring sh)) st in
         if evictSampleSize \<le> scanned st' then map_option fst (best st')
         else pick_loop pref s is st')
      else if Policy s = PolicyAllKeysRandom then
        (case range_order (pref i) (fmdom (data sh)) of
           k # _ \<Rightarrow> Some k
         | [] \<Rightarrow>
             (if evictSampleSize \<le> scanned st then map_option fst (best st)
              else pick_loop pref s is st))
      else
        (let st' = scan s (range_order (pref i) (fmdom (data sh))) st in
         if evictSampleSize \<le> scanned st' then map_option fst (best st')
         else pick_loop pref s is st'))"

definition pickVictim :: "(nat \<Rightarrow> key list) \<Rightarrow> 'j store \<Rightarrow> key option" where
  "pickVictim pref s =
     pick_loop pref s [0 ..< length (readShards s)] \<lparr>best = None, scanned = 0\<rparr>"

subsection \<open>The eviction loop\<close>

definition evict_one :: "(bytes list \<Rightarrow> 'j \<Rightarrow> 'j) \<Rightarrow> key \<Rightarrow> 'j store \<Rightarrow> 'j store" where
  "evict_one ap key s =
     (let s1 = deleteLocked key s;
          s2 = s1\<lparr>stats := (stats s1)\<lparr>EvictedKeys := EvictedKeys (stats s1) + 1\<rparr>\<rparr>
      in propagate ap [cmdDEL, key] s2)"

text \<open>
  The loop is bounded by fuel, and \<open>None\<close> is running out of it; \<open>Suc (Len s)\<close> rounds are
  always enough (theorem \<open>EnforceMemoryLimit_returns\<close>), since every round removes a key.
\<close>

fun evict_loop ::
  "(bytes list \<Rightarrow> 'j \<Rightarrow> 'j) \<Rightarrow> (nat \<Rightarrow> nat \<Rightarrow> key list) \<Rightarrow> nat \<Rightarrow> nat \<Rightarrow> 'j store
    \<Rightarrow> ((nat \<times> bool) \<times> 'j store) option" where
  "evict_loop ap pref 0 evicted s = None"
| "evict_loop ap pref (Suc fuel) evicted s =
     (if Used s > maxMemory s then
        (case pickVictim (pref evicted) s of
           None \<Rightarrow> Some ((evicted, False), s)
         | Some key \<Rightarrow> evict_loop ap pref fuel (evicted + 1) (evict_one ap key s))
      else Some ((evicted, True), s))"

definition EnforceMemoryLimit ::
  "(bytes list \<Rightarrow> 'j \<Rightarrow> 'j) \<Rightarrow> (nat \<Rightarrow> nat \<Rightarrow> key list) \<Rightarrow> 'j store \<Rightarrow> (nat \<times> bool) \<times> 'j store" where
  "EnforceMemoryLimit ap pref s =
     (if maxMemory s \<le> 0 then ((0, True), s)
      else if Used s \<le> maxMemory s then ((0, True), s)
      else if Policy s = PolicyNoEviction then ((0, False), s)
      else
        (case evict_loop ap pref (Suc (Len s)) 0 s of
           Some r \<Rightarrow> r
         | None \<Rightarrow> ((0, False), s)))"

text \<open>The keys a policy may evict, in the order the sampling loops meet them.\<close>

definition candidates_at :: "(nat \<Rightarrow> key list) \<Rightarrow> 'j store \<Rightarrow> nat \<Rightarrow> key list" where
  "candidates_at pref s i =
     range_order (pref i)
       (if Policy s = PolicyVolatileLRU then expiring (readShards s ! i)
        else fmdom (data (readShards s ! i)))"

definition candidates :: "(nat \<Rightarrow> key list) \<Rightarrow> 'j store \<Rightarrow> key list" where
  "candidates pref s = concat (map (candidates_at pref s) [0 ..< length (readShards s)])"

definition evictable :: "'j store \<Rightarrow> key \<Rightarrow> bool" where
  "evictable s k \<longleftrightarrow>
     (case lookup s k of
        None \<Rightarrow> False
      | Some e \<Rightarrow> Policy s = PolicyVolatileLRU \<longrightarrow> expiresAt e \<noteq> 0)"

text \<open>\<open>st\<close> is the state of the sampling after exactly the keys \<open>vs\<close>.\<close>

definition sampled :: "'j store \<Rightarrow> key list \<Rightarrow> sampling \<Rightarrow> bool" where
  "sampled s vs st \<longleftrightarrow>
     scanned st = length vs \<and>
     (case best st of
        None \<Rightarrow> vs = []
      | Some (k, t) \<Rightarrow>
          k \<in> set vs \<and> t = atime (the (lookup s k)) \<and>
          (\<forall>x \<in> set vs. t \<le> atime (the (lookup s x))))"

text \<open>
  \<open>evicts ap s vs s'\<close>: \<open>s'\<close> is \<open>s\<close> with exactly the keys \<open>vs\<close> evicted, each of them one the
  policy allows, with one \<^verbatim>\<open>DEL\<close> in the journal for each.  \<open>evict_result\<close> adds why the
  loop stopped, and that it was still over the budget before the last eviction.
\<close>

definition size_of :: "'j store \<Rightarrow> key \<Rightarrow> int" where
  "size_of s k = entrySize k (val (the (lookup s k)))"

definition evicts ::
  "(bytes list \<Rightarrow> 'j \<Rightarrow> 'j) \<Rightarrow> 'j store \<Rightarrow> key list \<Rightarrow> 'j store \<Rightarrow> bool" where
  "evicts ap s vs s' \<longleftrightarrow>
     store_inv s' \<and> distinct vs \<and> (\<forall>k \<in> set vs. evictable s k) \<and>
     lookup s' = (\<lambda>k. if k \<in> set vs then None else lookup s k) \<and>
     Used s' = Used s - sum_list (map (size_of s) vs) \<and>
     journalled ap (map (\<lambda>k. [cmdDEL, k]) vs) s s' \<and>
     EvictedKeys (stats s') = EvictedKeys (stats s) + of_nat (length vs) \<and>
     maxMemory s' = maxMemory s \<and> policy s' = policy s"

definition evict_result ::
  "(bytes list \<Rightarrow> 'j \<Rightarrow> 'j) \<Rightarrow> 'j store \<Rightarrow> key list \<Rightarrow> bool \<Rightarrow> 'j store \<Rightarrow> bool" where
  "evict_result ap s vs ok s' \<longleftrightarrow>
     evicts ap s vs s' \<and> (ok \<longleftrightarrow> Used s' \<le> maxMemory s) \<and>
     (\<not> ok \<longrightarrow> (\<forall>k. \<not> evictable s' k)) \<and>
     (vs \<noteq> [] \<longrightarrow> maxMemory s < Used s' + size_of s (last vs))"

text \<open>One key, under a budget it does not fit in.\<close>

definition one_key :: "bytes list list store" where
  "one_key = SetMemoryLimit 100 PolicyAllKeysLRU (Set rec_append '''' ''x'' (SetJournal [] New))"

section \<open>Lemmas\<close>

subsection \<open>The candidates\<close>

lemma shard_inv_nth: "store_inv s \<Longrightarrow> i < shardCount \<Longrightarrow> shard_inv i (readShards s ! i)"
  by (simp add: store_inv_def)

lemma shard_lookup:
  assumes "store_inv s" and "i < shardCount" and "fmlookup (data (readShards s ! i)) k = Some e"
  shows "lookup s k = Some e" and "sidx k = i"
proof -
  show i: "sidx k = i"
    using assms shard_inv_nth [OF assms(1,2)] by (auto simp: shard_inv_def fmlookup_dom_iff)
  show "lookup s k = Some e"
    using assms(3) i by (simp add: lookup_def shard_of_def)
qed

lemma set_candidates_at:
  assumes "store_inv s" and "i < shardCount"
  shows "set (candidates_at pref s i) = {k. evictable s k \<and> sidx k = i}"
proof -
  have e: "fmlookup (data (readShards s ! i)) k = Some e \<longleftrightarrow> lookup s k = Some e \<and> sidx k = i"
    for k e
    using shard_lookup [OF assms] by (auto simp: lookup_def shard_of_def)
  have x: "k |\<in>| expiring (readShards s ! i) \<longleftrightarrow>
      (\<exists>e. lookup s k = Some e \<and> sidx k = i \<and> expiresAt e \<noteq> 0)" for k
    using shard_inv_nth [OF assms] by (auto simp: shard_inv_def e)
  have d: "k |\<in>| fmdom (data (readShards s ! i)) \<longleftrightarrow>
      (\<exists>e. lookup s k = Some e \<and> sidx k = i)" for k
    by (simp add: fmlookup_dom_iff e)
  show ?thesis
    unfolding candidates_at_def evictable_def set_range_order
    by (rule set_eqI) (simp add: d x conj_commute del: fmlookup_dom_iff split: option.splits)
qed

lemma set_candidates:
  assumes "store_inv s"
  shows "set (candidates pref s) = {k. evictable s k}"
proof -
  have "length (readShards s) = shardCount"
    using assms by (simp add: store_inv_def wf_store_def)
  then show ?thesis
    by (auto simp: candidates_def set_candidates_at [OF assms])
qed

lemma candidates_at_present:
  "store_inv s \<Longrightarrow> i < shardCount \<Longrightarrow> k \<in> set (candidates_at pref s i) \<Longrightarrow> lookup s k \<noteq> None"
  by (auto simp: set_candidates_at evictable_def split: option.splits)

subsection \<open>The sample\<close>

lemma sampled_step:
  assumes "sampled s vs st" and "lookup s k \<noteq> None"
  shows "sampled s (vs @ [k]) (snd (sample s k st))"
    and "fst (sample s k st) \<longleftrightarrow> length vs + 1 < evictSampleSize"
  using assms
  by (auto simp: sampled_def sample_def Let_def lookup_def [symmetric] split: option.splits)

lemma scan_sampled:
  assumes "\<forall>k \<in> set ks. lookup s k \<noteq> None" and "sampled s vs st" and "length vs < evictSampleSize"
  shows "sampled s (vs @ take (evictSampleSize - length vs) ks) (scan s ks st)"
  using assms
proof (induction ks arbitrary: vs st)
  case Nil
  then show ?case by simp
next
  case (Cons k ks)
  obtain go st' where sm: "sample s k st = (go, st')"
    by (cases "sample s k st")
  have step: "sampled s (vs @ [k]) st'" "go \<longleftrightarrow> length vs + 1 < evictSampleSize"
    using sampled_step [OF Cons.prems(2), of k] Cons.prems(1) sm by auto
  show ?case
  proof (cases go)
    case True
    then have "sampled s ((vs @ [k]) @ take (evictSampleSize - length (vs @ [k])) ks) (scan s ks st')"
      using Cons.prems(1) step by (intro Cons.IH) auto
    moreover have "evictSampleSize - length vs = Suc (evictSampleSize - length (vs @ [k]))"
      using Cons.prems(3) by simp
    ultimately show ?thesis
      using True sm by simp
  next
    case False
    with step(2) Cons.prems(3) have "evictSampleSize - length vs = Suc 0"
      by simp
    with False step(1) sm show ?thesis by simp
  qed
qed

lemma pick_loop_sampled:
  assumes "store_inv s" and "Policy s \<noteq> PolicyAllKeysRandom"
    and "\<forall>i \<in> set is. i < shardCount" and "sampled s vs st" and "length vs < evictSampleSize"
  shows "\<exists>st'. pick_loop pref s is st = map_option fst (best st') \<and>
    sampled s (take evictSampleSize (vs @ concat (map (candidates_at pref s) is))) st'"
  using assms(3-5)
proof (induction "is" arbitrary: vs st)
  case Nil
  then show ?case by auto
next
  case (Cons i "is")
  let ?ks = "candidates_at pref s i"
  let ?st = "scan s ?ks st"
  let ?vs = "vs @ take (evictSampleSize - length vs) ?ks"
  have sc: "sampled s ?vs ?st"
    using Cons.prems candidates_at_present [OF assms(1)] by (intro scan_sampled) auto
  have unf: "pick_loop pref s (i # is) st =
      (if evictSampleSize \<le> scanned ?st then map_option fst (best ?st)
       else pick_loop pref s is ?st)"
    using assms(2) by (simp add: candidates_at_def Let_def)
  have len: "scanned ?st = length ?vs"
    using sc by (simp add: sampled_def)
  show ?case
  proof (cases "evictSampleSize \<le> length ?vs")
    case True
    then have "take evictSampleSize (vs @ concat (map (candidates_at pref s) (i # is))) = ?vs"
      using Cons.prems(3) by auto
    with True unf len sc show ?thesis by auto
  next
    case False
    then have "?vs = vs @ ?ks"
      by auto
    moreover have "length ?vs < evictSampleSize"
      using False by simp
    ultimately show ?thesis
      using False unf len Cons.IH [OF _ sc] Cons.prems(1) by (simp del: pick_loop.simps)
  qed
qed

lemma pick_loop_random:
  assumes "Policy s = PolicyAllKeysRandom"
  shows "pick_loop pref s is \<lparr>best = None, scanned = 0\<rparr> =
    (case concat (map (candidates_at pref s) is) of [] \<Rightarrow> None | k # _ \<Rightarrow> Some k)"
proof (induction "is")
  case Nil
  then show ?case by simp
next
  case (Cons i "is")
  have ne: "PolicyAllKeysRandom \<noteq> PolicyVolatileLRU"
    by (simp add: PolicyAllKeysRandom_def PolicyVolatileLRU_def)
  then have "candidates_at pref s i = range_order (pref i) (fmdom (data (readShards s ! i)))"
    using assms by (simp add: candidates_at_def)
  then show ?case
    using Cons.IH assms ne
    by (cases "range_order (pref i) (fmdom (data (readShards s ! i)))")
      (simp_all add: Let_def evictSampleSize_def)
qed

lemma pickVictim_sampled:
  assumes "store_inv s" and "Policy s \<noteq> PolicyAllKeysRandom"
  shows "\<exists>st. pickVictim pref s = map_option fst (best st) \<and>
    sampled s (take evictSampleSize (candidates pref s)) st"
proof -
  have "sampled s [] \<lparr>best = None, scanned = 0\<rparr>" "length ([] :: key list) < evictSampleSize"
    by (simp_all add: sampled_def evictSampleSize_def)
  moreover have "\<forall>i \<in> set [0 ..< length (readShards s)]. i < shardCount"
    using assms(1) by (simp add: store_inv_def wf_store_def)
  ultimately show ?thesis
    using pick_loop_sampled [OF assms, of "[0 ..< length (readShards s)]" "[]"]
    by (simp add: pickVictim_def candidates_def)
qed

lemma pickVictim_random:
  "Policy s = PolicyAllKeysRandom \<Longrightarrow>
     pickVictim pref s = (case candidates pref s of [] \<Rightarrow> None | k # _ \<Rightarrow> Some k)"
  by (simp add: pickVictim_def candidates_def pick_loop_random)

lemma pickVictim_cases:
  assumes "store_inv s"
  shows "case pickVictim pref s of
           None \<Rightarrow> \<forall>k. \<not> evictable s k
         | Some k \<Rightarrow> evictable s k"
proof (cases "Policy s = PolicyAllKeysRandom")
  case True
  have "set (candidates pref s) = {k. evictable s k}"
    by (rule set_candidates [OF assms])
  with True show ?thesis
    by (auto simp: pickVictim_random split: list.splits)
next
  case False
  then obtain st where st: "pickVictim pref s = map_option fst (best st)"
    "sampled s (take evictSampleSize (candidates pref s)) st"
    using pickVictim_sampled [OF assms] by blast
  have c: "k \<in> set (candidates pref s) \<longleftrightarrow> evictable s k" for k
    using set_candidates [OF assms] by blast
  show ?thesis
  proof (cases "best st")
    case None
    with st(2) have "candidates pref s = []"
      by (simp add: sampled_def evictSampleSize_def)
    with None st(1) c show ?thesis by force
  next
    case (Some b)
    with st(2) have "fst b \<in> set (candidates pref s)"
      by (auto simp: sampled_def split: prod.splits dest: in_set_takeD)
    with Some st(1) c show ?thesis by simp
  qed
qed

subsection \<open>The loop\<close>

lemma sum_list_shards_update:
  fixes f :: "readShard \<Rightarrow> int"
  assumes "wf_store s"
  shows "sum_list (map f (readShards (put_shard k sh s))) =
    sum_list (map f (readShards s)) - f (shard_of s k) + f sh"
proof -
  have "sidx k < length (readShards s)"
    using assms by (simp add: wf_store_def)
  then show ?thesis
    by (simp add: put_shard_def shard_of_def map_update sum_list_upd)
qed

lemma Used_delete:
  assumes "wf_store s" and "lookup s k = Some e"
  shows "Used (deleteLocked k s) = Used s - entrySize k (val e)"
  using assms
  by (simp add: Used_def deleteLocked_def deleteLockedInWriteLockedShard_def Let_def lookup_def
      sum_list_shards_update)

lemma Len_int: "int (Len s) = sum_list (map (\<lambda>sh. int (fcard (fmdom (data sh)))) (readShards s))"
  by (simp add: Len_def int_sum_list o_def)

lemma Len_delete:
  assumes "wf_store s" and "lookup s k = Some e"
  shows "Len s = Suc (Len (deleteLocked k s))"
proof -
  have k: "k |\<in>| fmdom (data (shard_of s k))"
    using assms(2) by (simp add: lookup_def fmlookup_dom_iff)
  then have "fcard (fmdom (data (shard_of s k))) = Suc (fcard (fmdom (data (shard_of s k)) |-| {|k|}))"
    by (metis fcard_Suc_fminus1)
  then have "int (Len s) = int (Suc (Len (deleteLocked k s)))"
    using assms unfolding Len_int deleteLocked_def deleteLockedInWriteLockedShard_def Let_def
    by (simp add: Len_int sum_list_shards_update lookup_def)
  then show ?thesis by simp
qed

lemma Used_frame [simp]:
  "Used (propagate ap r s) = Used s" "Used (s\<lparr>stats := st\<rparr>) = Used s"
  "Len (propagate ap r s) = Len s" "Len (s\<lparr>stats := st\<rparr>) = Len s"
  by (simp_all add: Used_def Len_def)

lemma evictable_present: "evictable s k \<Longrightarrow> \<exists>e. lookup s k = Some e"
  by (simp add: evictable_def split: option.splits)

lemma evict_one_evicts:
  assumes "store_inv s" and "evictable s k"
  shows "evicts ap s [k] (evict_one ap k s)" and "Len s = Suc (Len (evict_one ap k s))"
proof -
  obtain e where e: "lookup s k = Some e"
    using evictable_present [OF assms(2)] by blast
  note del = Used_delete [OF _ e] Len_delete [OF _ e]
  show "evicts ap s [k] (evict_one ap k s)"
    using assms e del(1)
    by (auto simp: evicts_def evict_one_def deleteLocked_def Let_def lookup_delete size_of_def
        journalled_propagate intro: inv_intros)
  show "Len s = Suc (Len (evict_one ap k s))"
    using assms(1) del(2) by (simp add: evict_one_def Let_def)
qed

lemma evicts_cons:
  assumes "evicts ap s [k] s1" and "evicts ap s1 vs s'"
  shows "evicts ap s (k # vs) s'" and "\<forall>x \<in> set vs. size_of s1 x = size_of s x"
proof -
  have e: "evictable s1 x \<Longrightarrow> evictable s x \<and> x \<noteq> k" for x
    using assms(1) by (auto simp: evicts_def evictable_def Policy_def split: option.splits if_splits)
  then show sz: "\<forall>x \<in> set vs. size_of s1 x = size_of s x"
    using assms by (auto simp: evicts_def size_of_def)
  then have m: "map (size_of s1) vs = map (size_of s) vs"
    by simp
  have j: "journalled ap (map (\<lambda>k. [cmdDEL, k]) (k # vs)) s s'"
    using assms journalled_trans [of ap "[[cmdDEL, k]]" s s1 "map (\<lambda>k. [cmdDEL, k]) vs" s']
    by (simp add: evicts_def)
  have "evictable s k" "\<forall>x \<in> set vs. evictable s x \<and> x \<noteq> k"
    using assms e by (auto simp only: evicts_def list.set insert_iff)
  moreover have "lookup s' = (\<lambda>x. if x \<in> set (k # vs) then None else lookup s x)"
    using assms by (auto simp: evicts_def fun_eq_iff)
  ultimately show "evicts ap s (k # vs) s'"
    using assms j m by (auto simp: evicts_def)
qed

lemma evict_result_cons:
  assumes "evicts ap s [k] s1" and "maxMemory s < Used s" and "evict_result ap s1 vs ok s'"
  shows "evict_result ap s (k # vs) ok s'"
  using assms evicts_cons [OF assms(1), of vs s']
  by (auto simp: evict_result_def evicts_def)

lemma evict_loop_returns:
  assumes "store_inv s" and "Len s < fuel"
  shows "\<exists>vs ok s'. evict_loop ap pref fuel n s = Some ((n + length vs, ok), s') \<and>
    evict_result ap s vs ok s'"
  using assms
proof (induction fuel arbitrary: n s)
  case 0
  then show ?case by simp
next
  case (Suc fuel)
  have refl: "evicts ap s [] s"
    using Suc.prems by (simp add: evicts_def journalled_nil)
  have pick: "case pickVictim (pref n) s of None \<Rightarrow> \<forall>k. \<not> evictable s k | Some k \<Rightarrow> evictable s k"
    by (rule pickVictim_cases [OF Suc.prems(1)])
  consider (fits) "Used s \<le> maxMemory s"
    | (stuck) "maxMemory s < Used s" "pickVictim (pref n) s = None"
    | (victim) k where "maxMemory s < Used s" "pickVictim (pref n) s = Some k"
    by fastforce
  then show ?case
  proof cases
    case fits
    with refl show ?thesis
      by (intro exI [of _ "[]"] exI [of _ True] exI [of _ s]) (simp add: evict_result_def)
  next
    case stuck
    with refl pick show ?thesis
      by (intro exI [of _ "[]"] exI [of _ False] exI [of _ s]) (simp add: evict_result_def)
  next
    case (victim k)
    let ?s1 = "evict_one ap k s"
    have one: "evicts ap s [k] ?s1" "Len s = Suc (Len ?s1)"
      using victim pick Suc.prems(1) evict_one_evicts by auto
    then have "store_inv ?s1" "Len ?s1 < fuel"
      using Suc.prems(2) by (simp_all add: evicts_def)
    then obtain vs ok s' where "evict_loop ap pref fuel (n + 1) ?s1 = Some ((n + 1 + length vs, ok), s')"
      "evict_result ap ?s1 vs ok s'"
      using Suc.IH by blast
    then show ?thesis
      using victim evict_result_cons [OF one(1)]
      by (intro exI [of _ "k # vs"] exI [of _ ok] exI [of _ s']) simp
  qed
qed

lemma EnforceMemoryLimit_result:
  assumes "store_inv s" and "EnforceMemoryLimit ap pref s = ((n, ok), s')"
  shows "\<exists>vs. n = length vs \<and> evicts ap s vs s' \<and>
    (ok \<longleftrightarrow> maxMemory s \<le> 0 \<or> Used s' \<le> maxMemory s) \<and>
    (\<not> ok \<longrightarrow> Policy s = PolicyNoEviction \<or> (\<forall>k. \<not> evictable s' k)) \<and>
    (maxMemory s \<le> 0 \<longrightarrow> vs = []) \<and>
    (vs \<noteq> [] \<longrightarrow> maxMemory s < Used s' + size_of s (last vs))"
proof -
  have refl: "evicts ap s [] s"
    using assms(1) by (simp add: evicts_def journalled_nil)
  obtain vs ok' s'' where l: "evict_loop ap pref (Suc (Len s)) 0 s = Some ((length vs, ok'), s'')"
    and r: "evict_result ap s vs ok' s''"
    using evict_loop_returns [OF assms(1), of "Suc (Len s)" ap pref 0] by auto
  show ?thesis
  proof (cases "maxMemory s \<le> 0 \<or> Used s \<le> maxMemory s \<or> Policy s = PolicyNoEviction")
    case True
    with refl assms(2) show ?thesis
      by (intro exI [of _ "[]"]) (auto simp: EnforceMemoryLimit_def split: if_splits)
  next
    case False
    with l assms(2) have "n = length vs" "ok = ok'" "s' = s''"
      by (simp_all add: EnforceMemoryLimit_def del: evict_loop.simps)
    with False r show ?thesis
      by (intro exI [of _ vs]) (simp add: evict_result_def)
  qed
qed

subsection \<open>Sizes\<close>

lemma HasSuffix_prefix: "HasSuffix s t \<longleftrightarrow> prefix (rev t) (rev s)"
proof
  assume "HasSuffix s t"
  then have "s = take (length s - length t) s @ t"
    unfolding HasSuffix_def by (metis append_take_drop_id)
  then show "prefix (rev t) (rev s)"
    by (metis prefix_def rev_append)
next
  assume "prefix (rev t) (rev s)"
  then have "suffix t s"
    by (simp add: suffix_to_prefix)
  then show "HasSuffix s t"
    by (auto simp: HasSuffix_def suffix_def)
qed

lemma TrimSpace_plain:
  assumes "\<forall>c \<in> set t. \<not> asciiSpace c \<and> byte_val c < 128"
  shows "TrimSpace U t = t"
proof -
  have d: "dropWhile asciiSpace xs = xs" if "\<forall>c \<in> set xs. \<not> asciiSpace c" for xs
    using that by (cases xs) auto
  have "t = [] \<or> (byte_val (hd t) < 128 \<and> byte_val (last t) < 128)"
    using assms by auto
  then show ?thesis
    using assms by (auto simp: TrimSpace_def Let_def d)
qed

lemma digit_plain: "is_digit c \<Longrightarrow> \<not> asciiSpace c \<and> byte_val c < 128 \<and> lower c = c"
  by (auto simp: is_digit_def asciiSpace_def lower_def)

lemma memory_suffix_plain:
  "\<forall>(suf, m) \<in> set memory_suffixes.
     (\<forall>c \<in> set suf. \<not> asciiSpace c \<and> byte_val c < 128) \<and> map lower suf = suf \<and>
     (\<forall>c \<in> set (map upper suf). \<not> asciiSpace c \<and> byte_val c < 128) \<and>
     map lower (map upper suf) = suf"
  by code_simp

lemma find_memory_suffix:
  assumes "(suf, m) \<in> set memory_suffixes" and "0 \<le> n"
  shows "find (\<lambda>(x, m). HasSuffix (formatInt n @ suf) x) memory_suffixes = Some (suf, m)"
proof -
  have "is_digit (last (formatInt n))"
    using assms(2) formatUint_digits [OF last_in_set [OF formatUint_nonempty]]
    by (simp add: formatInt_def)
  moreover obtain d ds where ds: "rev (formatInt n) = d # ds"
    by (cases "rev (formatInt n)") auto
  ultimately have "is_digit d"
    by (metis hd_rev list.sel(1))
  then have "d \<noteq> CHR ''k''" "d \<noteq> CHR ''m''" "d \<noteq> CHR ''g''" "d \<noteq> CHR ''b''"
    by (auto simp: is_digit_def)
  with ds show ?thesis
    using assms(1) unfolding memory_suffixes_def HasSuffix_prefix
    by (elim set_ConsD [elim_format] disjE) simp_all
qed

lemma formatInt_plain:
  assumes "0 \<le> n" and "c \<in> set (formatInt n)"
  shows "\<not> asciiSpace c \<and> byte_val c < 128 \<and> lower c = c"
  using assms formatUint_digits [of c "nat n"] by (intro digit_plain) (simp add: formatInt_def)

lemma ParseMemory_lowered:
  assumes "0 \<le> n" and "in64 n" and "(suf, m) \<in> set memory_suffixes"
    and "\<forall>c \<in> set t. \<not> asciiSpace c \<and> byte_val c < 128" and "map lower t = formatInt n @ suf"
  shows "ParseMemory U t = Inr (wrap64 (n * m))"
proof -
  have "ToLower U (TrimSpace U t) = formatInt n @ suf"
    using assms(4,5) by (simp add: TrimSpace_plain ToLower_def isASCII_def)
  moreover have "TrimSpace U (TrimSuffix (formatInt n @ suf) suf) = formatInt n"
    using formatInt_plain [OF assms(1)]
    by (simp add: TrimSuffix_def HasSuffix_def TrimSpace_plain)
  ultimately show ?thesis
    using find_memory_suffix [OF assms(3,1)] assms(1,2)
    by (simp add: ParseMemory_def Let_def)
qed

lemma SetMemoryLimit_frame [simp]:
  "lookup (SetMemoryLimit m p s) = lookup s" "store_inv (SetMemoryLimit m p s) = store_inv s"
  by (simp_all add: SetMemoryLimit_def lookup_def shard_of_def store_inv_def wf_store_def
      fun_eq_iff)

lemma one_key_inv: "store_inv one_key"
  by (simp add: one_key_def inv_intros)

section \<open>Properties\<close>

text \<open>
  C25: the eviction loop always returns: with a budget exceeded, \<open>Suc (Len s)\<close> rounds are enough
  for it to end, whatever order the maps are visited in.
\<close>

theorem EnforceMemoryLimit_returns:
  "store_inv s \<Longrightarrow> \<exists>r. evict_loop ap pref (Suc (Len s)) 0 s = Some r"
  using evict_loop_returns [of s "Suc (Len s)" ap pref 0] by auto

theorem EnforceMemoryLimit_returns_witness:
  "store_inv one_key \<and>
   (\<exists>r. evict_loop rec_append (\<lambda>_ _. []) (Suc (Len one_key)) 0
          one_key = Some r)"
  using one_key_inv EnforceMemoryLimit_returns [OF one_key_inv] by blast

text \<open>
  C19: enforcing the memory limit evicts a list of distinct keys, each allowed by the policy, with
  one \<^verbatim>\<open>DEL\<close> in the journal for each, and touches nothing else.  It reports success exactly when
  there is no limit or the store now fits in it; it reports failure only under \<^verbatim>\<open>noeviction\<close>
  or when no key is left that the policy may evict; and it never evicts once the store fits.
\<close>

theorem EnforceMemoryLimit_effect:
  assumes "store_inv s" and "EnforceMemoryLimit ap pref s = ((n, ok), s')"
  shows "\<exists>vs. n = length vs \<and> evicts ap s vs s' \<and>
    (ok \<longleftrightarrow> maxMemory s \<le> 0 \<or> Used s' \<le> maxMemory s) \<and>
    (\<not> ok \<longrightarrow> Policy s = PolicyNoEviction \<or> (\<forall>k. \<not> evictable s' k)) \<and>
    (vs \<noteq> [] \<longrightarrow> maxMemory s < Used s' + size_of s (last vs))"
  using EnforceMemoryLimit_result [OF assms] by blast

theorem EnforceMemoryLimit_effect_witness:
  "fst (EnforceMemoryLimit rec_append (\<lambda>_ _. []) one_key) = (1, True) \<and>
   (\<exists>vs. 1 = length vs \<and>
      evicts rec_append one_key vs
        (snd (EnforceMemoryLimit rec_append (\<lambda>_ _. []) one_key)))"
proof -
  have e: "fst (EnforceMemoryLimit rec_append (\<lambda>_ _. []) one_key) = (1, True)"
    by code_simp
  then have "EnforceMemoryLimit rec_append (\<lambda>_ _. []) one_key =
      ((1, True), snd (EnforceMemoryLimit rec_append (\<lambda>_ _. []) one_key))"
    by (metis prod.collapse)
  from EnforceMemoryLimit_effect [OF one_key_inv this] e show ?thesis by blast
qed

text \<open>
  C26: under both LRU policies the victim is a least recently used key of the sample: the sample
  is the first five candidates the loops over the shards meet, the victim is one of them, and
  none of them has an older access stamp.  There is no victim exactly when no key is evictable.
\<close>

theorem pickVictim_lru:
  assumes "store_inv s" and "Policy s \<noteq> PolicyAllKeysRandom"
  shows "case pickVictim pref s of
           None \<Rightarrow> \<forall>k. \<not> evictable s k
         | Some v \<Rightarrow>
             v \<in> set (take evictSampleSize (candidates pref s)) \<and> evictable s v \<and>
             (\<forall>k \<in> set (take evictSampleSize (candidates pref s)).
                atime (the (lookup s v)) \<le> atime (the (lookup s k)))"
proof -
  obtain st where "pickVictim pref s = map_option fst (best st)"
    "sampled s (take evictSampleSize (candidates pref s)) st"
    using pickVictim_sampled [OF assms] by blast
  then show ?thesis
    using pickVictim_cases [OF assms(1), of pref]
    by (auto simp: sampled_def split: option.splits)
qed

theorem pickVictim_lru_witness:
  "pickVictim (\<lambda>_. []) one_key = Some '''' \<and>
   '''' \<in> set (take evictSampleSize (candidates (\<lambda>_. []) one_key)) \<and> evictable one_key ''''"
proof -
  have "pickVictim (\<lambda>_. []) one_key = Some ''''"
    "Policy one_key \<noteq> PolicyAllKeysRandom"
    by code_simp+
  then show ?thesis
    using pickVictim_lru [OF one_key_inv, of "\<lambda>_. []"] by simp
qed

text \<open>
  A size written as a number and one of the seven suffixes, in either case, is read as that
  number times the suffix's multiple, reduced to 64 bits: the product is not checked.
\<close>

theorem ParseMemory_suffix:
  assumes "0 \<le> n" and "in64 n" and "(suf, m) \<in> set memory_suffixes"
  shows "ParseMemory U (formatInt n @ suf) = Inr (wrap64 (n * m)) \<and>
    ParseMemory U (formatInt n @ map upper suf) = Inr (wrap64 (n * m))"
proof -
  have f: "\<forall>c \<in> set (formatInt n). \<not> asciiSpace c \<and> byte_val c < 128"
    "map lower (formatInt n) = formatInt n"
    using formatInt_plain [OF assms(1)] by (simp_all add: map_idI)
  have p: "\<forall>c \<in> set suf. \<not> asciiSpace c \<and> byte_val c < 128" "map lower suf = suf"
    "\<forall>c \<in> set (map upper suf). \<not> asciiSpace c \<and> byte_val c < 128"
    "map lower (map upper suf) = suf"
    using memory_suffix_plain assms(3) by blast+
  show ?thesis
    using f p by (intro conjI ParseMemory_lowered [OF assms]) (simp_all only: set_append map_append ball_Un)
qed

theorem ParseMemory_suffix_witness:
  "\<forall>U. ParseMemory U (formatInt 100 @ ''mb'') = Inr 104857600 \<and>
     ParseMemory U (formatInt 17179869184 @ ''gb'') = Inr 0"
  using ParseMemory_suffix [of 100 "''mb''" 1048576]
    ParseMemory_suffix [of 17179869184 "''gb''" 1073741824]
  by (simp add: memory_suffixes_def in64_def minInt64_def maxInt64_def wrap64_def)

end
