(* ===== verification/Expire.thy ===== *)
theory Expire
  imports Store_Props
begin

text \<open>
  Active expiration, \<^verbatim>\<open>internal/store/expire.go\<close>: one sample of the expiry index, the
  cycle of samples and the loop that runs a cycle per tick.  As in theory \<open>Evict\<close> the order
  of a loop over a map is a parameter, here of the keys of each shard's index.
\<close>

section \<open>Definitions\<close>

definition activeExpireSampleSize :: nat where "activeExpireSampleSize = 20"

definition activeExpireMaxRounds :: nat where "activeExpireMaxRounds = 16"

definition DefaultActiveExpireInterval :: duration where
  "DefaultActiveExpireInterval = 100 * Millisecond"

text \<open>
  The ratio test \<^verbatim>\<open>float64(gone)/float64(n) < 0.25\<close>: on counts of at most 20 the
  floating-point comparison is exact.
\<close>

definition below_threshold :: "nat \<Rightarrow> nat \<Rightarrow> bool" where
  "below_threshold gone n \<longleftrightarrow> 4 * gone < n"

definition put_shard_at :: "nat \<Rightarrow> readShard \<Rightarrow> 'j store \<Rightarrow> 'j store" where
  "put_shard_at i sh s = s\<lparr>readShards := (readShards s)[i := sh]\<rparr>"

text \<open>The loop over the index of shard \<open>i\<close>; \<open>seen\<close> and \<open>gone\<close> are the running totals.\<close>

fun expire_keys :: "time \<Rightarrow> nat \<Rightarrow> nat \<Rightarrow> key list \<Rightarrow> nat \<Rightarrow> nat \<Rightarrow> 'j store
    \<Rightarrow> nat \<times> nat \<times> 'j store" where
  "expire_keys now n i [] seen gone s = (seen, gone, s)"
| "expire_keys now n i (k # ks) seen gone s =
     (if seen = n then (seen, gone, s)
      else
        (let sh = readShards s ! i in
         case fmlookup (data sh) k of
           None \<Rightarrow>
             expire_keys now n i ks (seen + 1) gone
               (put_shard_at i (sh\<lparr>expiring := expiring sh |-| {|k|}\<rparr>) s)
         | Some e \<Rightarrow>
             (if expired e now then
                (let s1 = put_shard_at i
                       (sh\<lparr>used := used sh - entrySize k (val e), data := fmdrop k (data sh),
                           expiring := expiring sh |-| {|k|}\<rparr>) s
                 in expire_keys now n i ks (seen + 1) (gone + 1)
                      (s1\<lparr>stats := (stats s1)\<lparr>ExpiredKeys := ExpiredKeys (stats s1) + 1\<rparr>\<rparr>))
              else expire_keys now n i ks (seen + 1) gone s)))"

fun expire_shards :: "(nat \<Rightarrow> key list) \<Rightarrow> time \<Rightarrow> nat \<Rightarrow> nat list \<Rightarrow> nat \<Rightarrow> nat \<Rightarrow> 'j store
    \<Rightarrow> nat \<times> nat \<times> 'j store" where
  "expire_shards pref now n [] seen gone s = (seen, gone, s)"
| "expire_shards pref now n (i # is) seen gone s =
     (if seen = n then (seen, gone, s)
      else
        (case expire_keys now n i (range_order (pref i) (expiring (readShards s ! i))) seen gone s of
           (seen', gone', s') \<Rightarrow> expire_shards pref now n is seen' gone' s'))"

definition expireSample ::
  "(nat \<Rightarrow> key list) \<Rightarrow> time \<Rightarrow> nat \<Rightarrow> 'j store \<Rightarrow> nat \<times> nat \<times> 'j store" where
  "expireSample pref now n s =
     expire_shards pref now n [0 ..< length (readShards s)] 0 0 (tick s)"

text \<open>\<open>left\<close> is the number of rounds the cap still allows.\<close>

fun cycle_loop ::
  "(nat \<Rightarrow> nat \<Rightarrow> key list) \<Rightarrow> (nat \<Rightarrow> time) \<Rightarrow> nat \<Rightarrow> nat \<Rightarrow> nat \<Rightarrow> 'j store
    \<Rightarrow> nat \<times> nat \<times> 'j store" where
  "cycle_loop pref now 0 seen gone s = (seen, gone, s)"
| "cycle_loop pref now (Suc left) seen gone s =
     (case expireSample (pref left) (now left) activeExpireSampleSize s of
        (n, g, s') \<Rightarrow>
          (if n = 0 \<or> below_threshold g n then (seen + n, gone + g, s')
           else cycle_loop pref now left (seen + n) (gone + g) s'))"

definition activeExpireCycle ::
  "(nat \<Rightarrow> nat \<Rightarrow> key list) \<Rightarrow> (nat \<Rightarrow> time) \<Rightarrow> 'j store \<Rightarrow> nat \<times> nat \<times> 'j store" where
  "activeExpireCycle pref now s = cycle_loop pref now activeExpireMaxRounds 0 0 s"

text \<open>
  \<^verbatim>\<open>RunActiveExpiration\<close> waits for the context or the ticker.  \<open>events\<close> is what it receives:
  a tick, with the clock and the map orders of that cycle, or the end of the context.
\<close>

datatype expire_event =
    Tick "nat \<Rightarrow> nat \<Rightarrow> key list" "nat \<Rightarrow> time"
  | CtxDone

fun RunActiveExpiration :: "expire_event list \<Rightarrow> 'j store \<Rightarrow> 'j store" where
  "RunActiveExpiration [] s = s"
| "RunActiveExpiration (CtxDone # evs) s = s"
| "RunActiveExpiration (Tick pref now # evs) s =
     RunActiveExpiration evs (snd (snd (activeExpireCycle pref now s)))"

definition expire_interval :: "duration \<Rightarrow> duration" where
  "expire_interval d = (if d \<le> 0 then DefaultActiveExpireInterval else d)"

text \<open>
  The keys of the expiry index in the order the loops meet them, and the ones among the
  first \<open>n\<close> that have expired at \<open>now\<close>.
\<close>

definition index_at :: "(nat \<Rightarrow> key list) \<Rightarrow> 'j store \<Rightarrow> nat \<Rightarrow> key list" where
  "index_at pref s i = range_order (pref i) (expiring (readShards s ! i))"

definition index_order :: "(nat \<Rightarrow> key list) \<Rightarrow> 'j store \<Rightarrow> key list" where
  "index_order pref s = concat (map (index_at pref s) [0 ..< length (readShards s)])"

definition gone_at :: "time \<Rightarrow> 'j store \<Rightarrow> key \<Rightarrow> bool" where
  "gone_at now s k \<longleftrightarrow> (case lookup s k of None \<Rightarrow> False | Some e \<Rightarrow> expired e now)"

text \<open>\<open>reaps now s ds s'\<close>: \<open>s'\<close> is \<open>s\<close> without the keys \<open>ds\<close>, all of them past their deadline.\<close>

definition reaps :: "time \<Rightarrow> 'j store \<Rightarrow> key list \<Rightarrow> 'j store \<Rightarrow> bool" where
  "reaps now s ds s' \<longleftrightarrow>
     store_inv s' \<and> distinct ds \<and> (\<forall>k \<in> set ds. gone_at now s k) \<and>
     lookup s' = (\<lambda>k. if k \<in> set ds then None else lookup s k) \<and>
     journal s' = journal s \<and> maxMemory s' = maxMemory s \<and> policy s' = policy s \<and>
     clock s' = clock s \<and>
     stats s' = (stats s)\<lparr>ExpiredKeys := ExpiredKeys (stats s) + of_nat (length ds)\<rparr>"

text \<open>The body of the loop on an expired key is the store's own deletion and the counter.\<close>

definition reap :: "key \<Rightarrow> 'j store \<Rightarrow> 'j store" where
  "reap k s =
     (let s1 = deleteLockedInWriteLockedShard k s in
      s1\<lparr>stats := (stats s1)\<lparr>ExpiredKeys := ExpiredKeys (stats s1) + 1\<rparr>\<rparr>)"

text \<open>
  At least a sample's worth of keys in the first \<open>Suc i\<close> shards have deadlines beyond \<open>t\<close>.
\<close>

definition crowded :: "time \<Rightarrow> nat \<Rightarrow> key set \<Rightarrow> 'j store \<Rightarrow> bool" where
  "crowded t i L s \<longleftrightarrow>
     finite L \<and> activeExpireSampleSize \<le> card L \<and>
     (\<forall>k \<in> L. sidx k \<le> i \<and> (\<exists>e. lookup s k = Some e \<and> t < expiresAt e))"

definition ticks_before :: "time \<Rightarrow> expire_event list \<Rightarrow> bool" where
  "ticks_before t evs \<longleftrightarrow>
     (\<forall>ev \<in> set evs. case ev of
        Tick _ now \<Rightarrow> \<forall>j < activeExpireMaxRounds. now j \<le> t
      | CtxDone \<Rightarrow> True)"

text \<open>A key set at the beginning of 1970 to live a millisecond.\<close>

definition short_lived :: "bytes list list store" where
  "short_lived = SetWithTTL rec_append unixEpoch '''' ''x'' Millisecond (SetJournal [] New)"

text \<open>Twenty keys in the first thirty shards that live until 100, and one in a later shard.\<close>

definition letters :: "key list" where
  "letters = map (\<lambda>c. [c]) ''abcdefghijklmnpqrstu''"

definition lettered :: "bytes list list store" where
  "lettered = fold (\<lambda>k. setLocked rec_append k ''v'' 100) letters (setLocked rec_append ''o'' ''v'' 5 New)"

section \<open>Lemmas\<close>

lemma index_entry:
  assumes "store_inv s" and "i < shardCount" and "k |\<in>| expiring (readShards s ! i)"
  obtains e where "fmlookup (data (readShards s ! i)) k = Some e" "sidx k = i"
    "lookup s k = Some e" "expiresAt e \<noteq> 0"
proof -
  have "shard_inv i (readShards s ! i)"
    using assms(1,2) by (simp add: store_inv_def)
  then obtain e where "fmlookup (data (readShards s ! i)) k = Some e" "sidx k = i" "expiresAt e \<noteq> 0"
    using assms(3) unfolding shard_inv_def by (auto simp: fmlookup_dom_iff)
  then show thesis
    using that by (simp add: lookup_def shard_of_def)
qed

lemma shard_update_order:
  "sh\<lparr>used := u, data := d, expiring := x\<rparr> = sh\<lparr>data := d, expiring := x, used := u\<rparr>"
  by (rule readShard.equality) simp_all

lemma put_shard_at_delete:
  assumes "sidx k = i" and "fmlookup (data (readShards s ! i)) k = Some e"
  shows "put_shard_at i
      ((readShards s ! i)\<lparr>used := used (readShards s ! i) - entrySize k (val e),
         data := fmdrop k (data (readShards s ! i)),
         expiring := expiring (readShards s ! i) |-| {|k|}\<rparr>) s =
    deleteLockedInWriteLockedShard k s"
  using assms
  by (simp add: put_shard_at_def deleteLockedInWriteLockedShard_def put_shard_def shard_of_def
      Let_def shard_update_order)

lemma reap_frame [simp]:
  "readShards (reap k s) = readShards (deleteLockedInWriteLockedShard k s)"
  "lookup (reap k s) = lookup (deleteLockedInWriteLockedShard k s)"
  by (simp_all add: reap_def Let_def fun_eq_iff)

lemma reap_expiring:
  assumes "store_inv s" and "sidx k = i" and "i < shardCount"
  shows "expiring (readShards (reap k s) ! i) = expiring (readShards s ! i) |-| {|k|}"
    and "j \<noteq> i \<Longrightarrow> readShards (reap k s) ! j = readShards s ! j"
  using assms
  by (auto simp: deleteLockedInWriteLockedShard_def put_shard_def shard_of_def Let_def
      store_inv_def wf_store_def)

lemma reaps_nil: "store_inv s \<Longrightarrow> reaps now s [] s"
  by (simp add: reaps_def)

lemma reaps_trans:
  assumes "reaps now s ds s1" and "reaps now s1 ds' s'"
  shows "reaps now s (ds @ ds') s'"
proof -
  have "gone_at now s1 k \<Longrightarrow> gone_at now s k \<and> k \<notin> set ds" for k
    using assms(1) by (auto simp: reaps_def gone_at_def split: if_splits)
  then show ?thesis
    using assms by (auto simp: reaps_def fun_eq_iff)
qed

lemma reap_reaps:
  assumes "store_inv s" and "gone_at now s k"
  shows "reaps now s [k] (reap k s)"
  using assms by (auto simp: reaps_def reap_def Let_def lookup_delete intro: inv_intros)

lemma gone_at_reaps:
  "reaps now s ds s' \<Longrightarrow> gone_at now s' k \<longleftrightarrow> gone_at now s k \<and> k \<notin> set ds"
  by (simp add: reaps_def gone_at_def)

lemma expire_keys_step:
  assumes "store_inv s" and "i < shardCount" and "k |\<in>| expiring (readShards s ! i)" and "seen < n"
  shows "expire_keys now n i (k # ks) seen gone s =
    (if gone_at now s k then expire_keys now n i ks (seen + 1) (gone + 1) (reap k s)
     else expire_keys now n i ks (seen + 1) gone s)"
proof -
  obtain e where e: "fmlookup (data (readShards s ! i)) k = Some e" "sidx k = i" "lookup s k = Some e"
    using index_entry [OF assms(1-3)] by blast
  show ?thesis
    using assms(4) e by (simp add: put_shard_at_delete gone_at_def reap_def Let_def)
qed

lemma expire_keys_result:
  assumes "store_inv s" and "i < shardCount" and "seen \<le> n" and "distinct ks"
    and "set ks \<subseteq> fset (expiring (readShards s ! i))"
  shows "\<exists>s'. expire_keys now n i ks seen gone s =
      (seen + length (take (n - seen) ks),
       gone + length (filter (gone_at now s) (take (n - seen) ks)), s') \<and>
    reaps now s (filter (gone_at now s) (take (n - seen) ks)) s' \<and>
    (\<forall>j. j \<noteq> i \<longrightarrow> readShards s' ! j = readShards s ! j)"
  using assms
proof (induction ks arbitrary: seen gone s)
  case Nil
  then show ?case by (simp add: reaps_nil)
next
  case (Cons k ks)
  show ?case
  proof (cases "seen = n")
    case True
    then show ?thesis using Cons.prems(1) by (simp add: reaps_nil)
  next
    case False
    then have n: "seen + 1 \<le> n" "n - seen = Suc (n - (seen + 1))"
      using Cons.prems(3) by auto
    have k: "k |\<in>| expiring (readShards s ! i)" "k \<notin> set ks"
      using Cons.prems by auto
    note step = expire_keys_step [OF Cons.prems(1,2) k(1), of seen n now ks gone]
    show ?thesis
    proof (cases "gone_at now s k")
      case True
      let ?s1 = "reap k s"
      have r: "reaps now s [k] ?s1"
        by (rule reap_reaps [OF Cons.prems(1) True])
      have i: "sidx k = i"
        using index_entry [OF Cons.prems(1,2) k(1)] by blast
      have f: "filter (gone_at now ?s1) (take m ks) = filter (gone_at now s) (take m ks)" for m
        using k(2) by (intro filter_cong refl) (auto simp: gone_at_reaps [OF r] dest: in_set_takeD)
      note ex = reap_expiring [OF Cons.prems(1) i Cons.prems(2)]
      have "store_inv ?s1" "distinct ks" "set ks \<subseteq> fset (expiring (readShards ?s1 ! i))"
        using Cons.prems k(2) r ex(1) by (auto simp: reaps_def)
      then obtain s' where "expire_keys now n i ks (seen + 1) (gone + 1) ?s1 =
          (seen + 1 + length (take (n - (seen + 1)) ks),
           gone + 1 + length (filter (gone_at now s) (take (n - (seen + 1)) ks)), s')"
        "reaps now ?s1 (filter (gone_at now s) (take (n - (seen + 1)) ks)) s'"
        "\<forall>j. j \<noteq> i \<longrightarrow> readShards s' ! j = readShards ?s1 ! j"
        using Cons.IH [of ?s1 "seen + 1" "gone + 1"] Cons.prems(2) n(1) unfolding f by blast
      then show ?thesis
        using True n step reaps_trans [OF r] ex(2)
        by (intro exI [of _ s']) (simp del: expire_keys.simps reap_frame)
    next
      case False
      then show ?thesis
        using \<open>seen \<noteq> n\<close> n step Cons.IH [of s "seen + 1" gone] Cons.prems
        by (simp del: expire_keys.simps)
    qed
  qed
qed

lemma gone_at_other_shard:
  assumes "store_inv s" and "reaps now s ds s1" and "set ds \<subseteq> set (index_at pref s i)"
    and "\<forall>j \<in> set (i # is). j < shardCount" and "i \<notin> set is"
    and "k \<in> set (concat (map (index_at pref s) is))"
  shows "gone_at now s1 k = gone_at now s k"
proof -
  obtain j where j: "j \<in> set is" "k |\<in>| expiring (readShards s ! j)"
    using assms(6) by (auto simp: index_at_def)
  then have "sidx k = j" "j \<noteq> i"
    using index_entry [OF assms(1) _ j(2)] assms(4,5) by auto
  moreover have "sidx x = i" if "x \<in> set ds" for x
    using that assms(3,4) index_entry [OF assms(1), of i x] by (auto simp: index_at_def)
  ultimately have "k \<notin> set ds"
    by auto
  then show ?thesis
    by (simp add: gone_at_reaps [OF assms(2)])
qed

lemma expire_shards_result:
  assumes "store_inv s" and "seen \<le> n" and "distinct is" and "\<forall>i \<in> set is. i < shardCount"
  shows "\<exists>s'. expire_shards pref now n is seen gone s =
      (seen + length (take (n - seen) (concat (map (index_at pref s) is))),
       gone + length (filter (gone_at now s) (take (n - seen) (concat (map (index_at pref s) is)))), s') \<and>
    reaps now s (filter (gone_at now s) (take (n - seen) (concat (map (index_at pref s) is)))) s'"
  using assms
proof (induction "is" arbitrary: seen gone s)
  case Nil
  then show ?case by (simp add: reaps_nil)
next
  case (Cons i "is")
  show ?case
  proof (cases "seen = n")
    case True
    then show ?thesis using Cons.prems(1) by (simp add: reaps_nil)
  next
    case False
    let ?ks = "index_at pref s i"
    let ?S = "take (n - seen) ?ks"
    obtain s1 where s1: "expire_keys now n i ?ks seen gone s =
        (seen + length ?S, gone + length (filter (gone_at now s) ?S), s1)"
      "reaps now s (filter (gone_at now s) ?S) s1"
      "\<forall>j. j \<noteq> i \<longrightarrow> readShards s1 ! j = readShards s ! j"
      using expire_keys_result [of s i seen n ?ks now gone] Cons.prems
      by (auto simp: index_at_def)
    let ?rest = "concat (map (index_at pref s) is)"
    have ix: "map (index_at pref s1) is = map (index_at pref s) is"
      using s1(3) Cons.prems(3) by (auto simp: index_at_def)
    have f: "filter (gone_at now s1) (take m ?rest) = filter (gone_at now s) (take m ?rest)" for m
    proof (intro filter_cong refl gone_at_other_shard [OF Cons.prems(1) s1(2), of pref i "is"])
      show "set (filter (gone_at now s) ?S) \<subseteq> set ?ks"
        by (auto dest: in_set_takeD)
    qed (use Cons.prems(3,4) in \<open>auto dest: in_set_takeD\<close>)
    have "seen + length ?S \<le> n"
      using Cons.prems(2) by simp
    moreover have "store_inv s1"
      using s1(2) by (simp add: reaps_def)
    ultimately obtain s' where s': "expire_shards pref now n is (seen + length ?S)
        (gone + length (filter (gone_at now s) ?S)) s1 =
        (seen + length ?S + length (take (n - (seen + length ?S)) ?rest),
         gone + length (filter (gone_at now s) ?S) +
           length (filter (gone_at now s) (take (n - (seen + length ?S)) ?rest)), s')"
      "reaps now s1 (filter (gone_at now s) (take (n - (seen + length ?S)) ?rest)) s'"
      using Cons.IH [of s1 "seen + length ?S" "gone + length (filter (gone_at now s) ?S)"]
        Cons.prems(3,4) ix f
      by auto
    have "take (n - seen) (concat (map (index_at pref s) (i # is))) =
        ?S @ take (n - (seen + length ?S)) ?rest"
      by (cases "length ?ks \<le> n - seen") auto
    moreover have "expire_shards pref now n (i # is) seen gone s =
        expire_shards pref now n is (seen + length ?S)
          (gone + length (filter (gone_at now s) ?S)) s1"
      using False s1(1) by (simp add: index_at_def)
    ultimately show ?thesis
      using s' reaps_trans [OF s1(2) s'(2)] by (intro exI [of _ s']) (simp del: expire_shards.simps)
  qed
qed

lemma tick_frame [simp]:
  "readShards (tick s) = readShards s" "lookup (tick s) = lookup s" "journal (tick s) = journal s"
  "store_inv (tick s) = store_inv s" "stats (tick s) = stats s" "maxMemory (tick s) = maxMemory s"
  "policy (tick s) = policy s"
  by (simp_all add: tick_def lookup_def shard_of_def store_inv_def wf_store_def fun_eq_iff)

lemma tick_index [simp]:
  "gone_at now (tick s) = gone_at now s" "index_at pref (tick s) = index_at pref s"
  by (simp_all add: gone_at_def index_at_def fun_eq_iff)

lemma expireSample_result:
  assumes "store_inv s"
  shows "\<exists>s'. expireSample pref now n s =
      (length (take n (index_order pref s)),
       length (filter (gone_at now s) (take n (index_order pref s))), s') \<and>
    reaps now (tick s) (filter (gone_at now s) (take n (index_order pref s))) s'"
  using expire_shards_result [of "tick s" 0 n "[0 ..< length (readShards s)]" pref now 0] assms
  by (simp add: expireSample_def index_order_def store_inv_def wf_store_def)

lemma set_index_order:
  assumes "store_inv s"
  shows "set (index_order pref s) = {k. \<exists>e. lookup s k = Some e \<and> expiresAt e \<noteq> 0}"
proof -
  have len: "length (readShards s) = shardCount"
    using assms by (simp add: store_inv_def wf_store_def)
  have "k |\<in>| expiring (shard_of s k)" if "lookup s k = Some e" "expiresAt e \<noteq> 0" for k e
    using that shard_inv_of [OF assms, of k] by (simp add: shard_inv_def lookup_def)
  then have "\<exists>i < shardCount. k |\<in>| expiring (readShards s ! i)"
    if "lookup s k = Some e" "expiresAt e \<noteq> 0" for k e
    using that by (intro exI [of _ "sidx k"]) (simp add: shard_of_def)
  moreover have "\<exists>e. lookup s k = Some e \<and> expiresAt e \<noteq> 0"
    if "i < shardCount" "k |\<in>| expiring (readShards s ! i)" for k i
    using index_entry [OF assms that] by blast
  moreover have "set (index_order pref s) = {k. \<exists>i < shardCount. k |\<in>| expiring (readShards s ! i)}"
    by (auto simp: index_order_def index_at_def len)
  ultimately show ?thesis
    by blast
qed

text \<open>One cycle: what it removed was past its deadline at one of the cycle's readings.\<close>

lemma reaps_visible:
  assumes "reaps now s ds s'" and "now \<le> t"
  shows "visible t s' = visible t s"
proof
  fix k
  have "expired e t" if "k \<in> set ds" "lookup s k = Some e" for e
    using that assms by (fastforce simp: reaps_def gone_at_def expired_def split: option.splits)
  then show "visible t s' k = visible t s k"
    using assms(1) by (auto simp: reaps_def visible_def split: option.splits)
qed

lemma visible_tick [simp]: "visible t (tick s) = visible t s"
  by (simp add: visible_def fun_eq_iff)

lemma cycle_loop_result:
  assumes "store_inv s" and "\<forall>i < left. now i \<le> t" and "cycle_loop pref now left seen gone s = (n, g, s')"
  shows "store_inv s' \<and> visible t s' = visible t s \<and> journal s' = journal s \<and>
    maxMemory s' = maxMemory s \<and> policy s' = policy s \<and>
    n \<le> seen + left * activeExpireSampleSize \<and> gone \<le> g \<and> g - gone \<le> n - seen \<and> seen \<le> n \<and>
    ExpiredKeys (stats s') = ExpiredKeys (stats s) + of_nat (g - gone)"
  using assms
proof (induction left arbitrary: seen gone s)
  case 0
  then show ?case by simp
next
  case (Suc left)
  let ?S = "take activeExpireSampleSize (index_order (pref left) s)"
  let ?D = "filter (gone_at (now left) s) ?S"
  obtain s1 where s1: "expireSample (pref left) (now left) activeExpireSampleSize s =
      (length ?S, length ?D, s1)" "reaps (now left) (tick s) ?D s1"
    using expireSample_result [OF Suc.prems(1)] by blast
  have r: "store_inv s1" "visible t s1 = visible t s" "journal s1 = journal s"
    "maxMemory s1 = maxMemory s" "policy s1 = policy s"
    "ExpiredKeys (stats s1) = ExpiredKeys (stats s) + of_nat (length ?D)"
    using s1(2) reaps_visible [OF s1(2), of t] Suc.prems(2) by (simp_all add: reaps_def)
  have len: "length ?D \<le> length ?S" "length ?S \<le> activeExpireSampleSize"
    by (rule length_filter_le, simp)
  show ?case
  proof (cases "length ?S = 0 \<or> below_threshold (length ?D) (length ?S)")
    case True
    then have "n = seen + length ?S" "g = gone + length ?D" "s' = s1"
      using Suc.prems(3) s1(1) by auto
    with r len show ?thesis by simp
  next
    case False
    then have c: "cycle_loop pref now left (seen + length ?S) (gone + length ?D) s1 = (n, g, s')"
      using Suc.prems(3) s1(1) by (simp del: length_take)
    have nw: "\<forall>i < left. now i \<le> t"
      using Suc.prems(2) by simp
    note ih = Suc.IH [OF r(1) nw c]
    then have "g - gone = length ?D + (g - (gone + length ?D))"
      by simp
    then have "(of_nat (g - gone) :: 64 word) = of_nat (length ?D) + of_nat (g - (gone + length ?D))"
      by (metis of_nat_add)
    moreover have "n \<le> seen + Suc left * activeExpireSampleSize" "g - gone \<le> n - seen"
      using ih len unfolding mult_Suc by linarith+
    ultimately show ?thesis
      using ih r by (simp add: add.assoc del: length_take)
  qed
qed

lemma short_lived_inv: "store_inv short_lived"
  by (simp add: short_lived_def inv_intros)

lemma activeExpireCycle_inv [inv_intros]:
  assumes "store_inv s"
  shows "store_inv (snd (snd (activeExpireCycle pref now s)))"
proof -
  have t: "\<forall>i < activeExpireMaxRounds. now i \<le> Max (now ` {..< activeExpireMaxRounds})"
    by simp
  obtain n g s' where c: "cycle_loop pref now activeExpireMaxRounds 0 0 s = (n, g, s')"
    by (metis prod_cases3)
  from cycle_loop_result [OF assms t c] c show ?thesis
    by (simp add: activeExpireCycle_def)
qed

lemma RunActiveExpiration_inv [inv_intros]: "store_inv s \<Longrightarrow> store_inv (RunActiveExpiration evs s)"
  by (induction evs s rule: RunActiveExpiration.induct) (simp_all add: activeExpireCycle_inv)

subsection \<open>Shards the sampling never reaches\<close>

lemma take_index_order:
  assumes "store_inv s" and "i < shardCount" and "n \<le> card L" and "finite L"
    and "\<forall>k \<in> L. sidx k \<le> i \<and> (\<exists>e. lookup s k = Some e \<and> expiresAt e \<noteq> 0)"
    and "k \<in> set (take n (index_order pref s))"
  shows "sidx k \<le> i"
proof -
  let ?low = "concat (map (index_at pref s) [0 ..< Suc i])"
  have len: "length (readShards s) = shardCount"
    using assms(1) by (simp add: store_inv_def wf_store_def)
  have "[0 ..< shardCount] = [0 ..< Suc i] @ [Suc i ..< shardCount]"
    using assms(2) upt_add_eq_append [of 0 "Suc i" "shardCount - Suc i"] by simp
  then have o: "index_order pref s = ?low @ concat (map (index_at pref s) [Suc i ..< shardCount])"
    by (simp add: index_order_def len)
  have low: "set ?low = (\<Union>j \<in> {..i}. fset (expiring (readShards s ! j)))"
    unfolding set_concat set_map set_upt index_at_def atLeast0LessThan lessThan_Suc_atMost
    by simp
  have "L \<subseteq> set ?low"
  proof
    fix x assume "x \<in> L"
    then obtain e where "sidx x \<le> i" "lookup s x = Some e" "expiresAt e \<noteq> 0"
      using assms(5) by blast
    moreover from this(2,3) have "x |\<in>| expiring (readShards s ! sidx x)"
      using shard_inv_of [OF assms(1), of x] by (simp add: shard_inv_def lookup_def shard_of_def)
    ultimately show "x \<in> set ?low"
      unfolding low by (intro UN_I [of "sidx x"]) simp_all
  qed
  then have "card L \<le> length ?low"
    using card_mono [of "set ?low" L] card_length [of ?low] by simp
  then have "k \<in> set ?low"
    using assms(3,6) in_set_takeD [of k n ?low] unfolding o by simp
  then obtain j where "j \<le> i" "k |\<in>| expiring (readShards s ! j)"
    unfolding low by auto
  then show ?thesis
    using index_entry [OF assms(1), of j k] assms(2) by auto
qed

lemma reaps_crowded:
  assumes "reaps now s ds s'" and "now \<le> t" and "crowded t i L s"
  shows "crowded t i L s'"
proof -
  have "k \<notin> set ds" if "k \<in> L" for k
    using that assms by (fastforce simp: reaps_def gone_at_def crowded_def expired_def)
  then show ?thesis
    using assms by (simp add: reaps_def crowded_def)
qed

lemma expireSample_crowded:
  assumes "store_inv s" and "i < shardCount" and "crowded t i L s" and "now \<le> t"
    and "expireSample pref now activeExpireSampleSize s = (n, g, s')"
  shows "store_inv s' \<and> crowded t i L s' \<and> (\<forall>k. i < sidx k \<longrightarrow> lookup s' k = lookup s k)"
proof -
  let ?D = "filter (gone_at now s) (take activeExpireSampleSize (index_order pref s))"
  have r: "reaps now (tick s) ?D s'"
    using expireSample_result [OF assms(1), of pref now activeExpireSampleSize] assms(5) by auto
  have "crowded t i L (tick s)"
    using assms(3) by (simp add: crowded_def)
  from reaps_crowded [OF r assms(4) this] have c: "crowded t i L s'" .
  have "k \<notin> set ?D" if "i < sidx k" for k
    using that take_index_order [OF assms(1,2), of activeExpireSampleSize L k pref] assms(3)
    by (fastforce simp: crowded_def)
  with r c show ?thesis
    by (auto simp: reaps_def)
qed

lemma cycle_loop_crowded:
  assumes "store_inv s" and "i < shardCount" and "crowded t i L s" and "\<forall>j < left. now j \<le> t"
    and "cycle_loop pref now left seen gone s = (n, g, s')"
  shows "store_inv s' \<and> crowded t i L s' \<and> (\<forall>k. i < sidx k \<longrightarrow> lookup s' k = lookup s k)"
  using assms
proof (induction left arbitrary: seen gone s)
  case 0
  then show ?case by simp
next
  case (Suc left)
  obtain m h s1 where s1: "expireSample (pref left) (now left) activeExpireSampleSize s = (m, h, s1)"
    by (metis prod_cases3)
  have step: "store_inv s1 \<and> crowded t i L s1 \<and> (\<forall>k. i < sidx k \<longrightarrow> lookup s1 k = lookup s k)"
    using expireSample_crowded [OF Suc.prems(1-3) _ s1] Suc.prems(4) by simp
  show ?case
  proof (cases "m = 0 \<or> below_threshold h m")
    case True
    with s1 Suc.prems(5) step show ?thesis by auto
  next
    case False
    with s1 Suc.prems(5) have "cycle_loop pref now left (seen + m) (gone + h) s1 = (n, g, s')"
      by simp
    from Suc.IH [OF _ Suc.prems(2) _ _ this] step Suc.prems(4) show ?thesis by simp
  qed
qed

lemma clock_New [simp]: "clock New = 0"
  by (simp add: New_def)

lemma fold_setLocked:
  assumes "store_inv s"
  shows "store_inv (fold (\<lambda>k. setLocked ap k v at) ks s) \<and>
    lookup (fold (\<lambda>k. setLocked ap k v at) ks s) =
      (\<lambda>k. if k \<in> set ks then Some \<lparr>val = v, atime = clock s, expiresAt = at\<rparr> else lookup s k)"
  using assms
proof (induction ks arbitrary: s)
  case (Cons k ks)
  then show ?case
    by (auto simp: store_inv_setLocked setLocked_lookup fun_eq_iff)
qed simp

lemma lettered_inv: "store_inv lettered"
  using fold_setLocked [of "setLocked rec_append ''o'' ''v'' 5 New"]
  by (simp add: lettered_def store_inv_setLocked)

lemma lettered_lookup:
  "lookup lettered k =
    (if k \<in> set letters then Some \<lparr>val = ''v'', atime = 0, expiresAt = 100\<rparr>
     else if k = ''o'' then Some \<lparr>val = ''v'', atime = 0, expiresAt = 5\<rparr> else None)"
  using fold_setLocked [of "setLocked rec_append ''o'' ''v'' 5 New" rec_append "''v''" 100 letters]
  by (auto simp: lettered_def store_inv_setLocked setLocked_lookup)

lemma lettered_crowded: "crowded 50 29 (set letters) lettered"
proof -
  have "card (set letters) = 20"
    by code_simp
  moreover have "\<forall>k \<in> set letters. sidx k \<le> 29"
    by code_simp
  ultimately show ?thesis
    by (simp add: crowded_def activeExpireSampleSize_def lettered_lookup)
qed

section \<open>Properties\<close>

text \<open>
  C27: one sample looks at the first \<open>n\<close> keys of the expiry index and removes exactly those among
  them that are past their deadline, counting both; it journals nothing, and the only counter
  it moves is the number of expired keys.
\<close>

theorem expireSample_exact:
  assumes "store_inv s" and "expireSample pref now n s = (seen, gone, s')"
  shows "seen = min n (length (index_order pref s)) \<and>
    gone = length (filter (gone_at now s) (take n (index_order pref s))) \<and>
    reaps now (tick s) (filter (gone_at now s) (take n (index_order pref s))) s'"
  using expireSample_result [OF assms(1), of pref now n] assms(2) by (auto simp: min.commute)

theorem expireSample_exact_witness:
  "fst (expireSample (\<lambda>_. []) (unixEpoch + 1000000) 20 short_lived) = 1 \<and>
   fst (snd (expireSample (\<lambda>_. []) (unixEpoch + 1000000) 20 short_lived)) = 1 \<and>
   min 20 (length (index_order (\<lambda>_. []) short_lived)) = 1"
proof -
  have "fst (expireSample (\<lambda>_. []) (unixEpoch + 1000000) 20 short_lived) = 1 \<and>
      fst (snd (expireSample (\<lambda>_. []) (unixEpoch + 1000000) 20 short_lived)) = 1"
    by code_simp
  then show ?thesis
    using expireSample_exact [OF short_lived_inv, of "\<lambda>_. []" "unixEpoch + 1000000" 20]
    by (cases "expireSample (\<lambda>_. []) (unixEpoch + 1000000) 20 short_lived") auto
qed

text \<open>
  A sample at least as large as the expiry index leaves no key in the store that is past
  its deadline.
\<close>

theorem expireSample_complete:
  assumes "store_inv s" and "length (index_order pref s) \<le> n"
    and "lookup (snd (snd (expireSample pref now n s))) k = Some e"
  shows "\<not> expired e now"
proof
  assume ex: "expired e now"
  obtain s' where s': "snd (snd (expireSample pref now n s)) = s'"
    "reaps now (tick s) (filter (gone_at now s) (index_order pref s)) s'"
    using expireSample_result [OF assms(1), of pref now n] assms(2) by auto
  then have "lookup s k = Some e" "k \<notin> set (filter (gone_at now s) (index_order pref s))"
    using assms(3) by (auto simp: reaps_def split: if_splits)
  then show False
    using ex set_index_order [OF assms(1), of pref] by (auto simp: gone_at_def expired_def)
qed

theorem expireSample_complete_witness:
  "lookup (snd (snd (expireSample (\<lambda>_. []) unixEpoch 20 short_lived))) '''' =
     Some \<lparr>val = ''x'', atime = 0, expiresAt = unixEpoch + 1000000\<rparr> \<and>
   \<not> expired \<lparr>val = ''x'', atime = 0, expiresAt = unixEpoch + 1000000\<rparr> unixEpoch"
proof -
  have l: "lookup (snd (snd (expireSample (\<lambda>_. []) unixEpoch 20 short_lived))) '''' =
      Some \<lparr>val = ''x'', atime = 0, expiresAt = unixEpoch + 1000000\<rparr>"
    by code_simp
  have n: "length (index_order (\<lambda>_. []) short_lived) \<le> 20"
    by code_simp
  from expireSample_complete [OF short_lived_inv n l] l show ?thesis by blast
qed

text \<open>
  C28: an active expiration cycle keeps the store's invariant, removes no key a client can see at
  or after the cycle's last reading of the clock, writes nothing to the journal, examines at
  most 16 samples of 20 keys, and counts every removal.
\<close>

theorem activeExpireCycle_safe:
  assumes "store_inv s" and "\<forall>i < activeExpireMaxRounds. now i \<le> t"
    and "activeExpireCycle pref now s = (n, g, s')"
  shows "store_inv s' \<and> visible t s' = visible t s \<and> journal s' = journal s \<and>
    g \<le> n \<and> n \<le> 320 \<and> ExpiredKeys (stats s') = ExpiredKeys (stats s) + of_nat g"
  using cycle_loop_result [of s activeExpireMaxRounds now t pref 0 0 n g s'] assms
  by (simp add: activeExpireCycle_def activeExpireMaxRounds_def activeExpireSampleSize_def)

theorem activeExpireCycle_safe_witness:
  "fst (snd (activeExpireCycle (\<lambda>_ _. []) (\<lambda>_. unixEpoch) short_lived)) = 0 \<and>
   visible unixEpoch (snd (snd (activeExpireCycle (\<lambda>_ _. []) (\<lambda>_. unixEpoch) short_lived))) =
     visible unixEpoch short_lived"
proof -
  have "fst (snd (activeExpireCycle (\<lambda>_ _. []) (\<lambda>_. unixEpoch) short_lived)) = 0"
    by code_simp
  then show ?thesis
    using activeExpireCycle_safe [OF short_lived_inv, of "\<lambda>_. unixEpoch" unixEpoch "\<lambda>_ _. []"]
    by (cases "activeExpireCycle (\<lambda>_ _. []) (\<lambda>_. unixEpoch) short_lived") auto
qed

text \<open>
  C31: active expiration starves the later shards: every sample starts again at shard 0, so while
  the first shards hold as many unexpired keys with a deadline as one sample looks at, no cycle
  ever removes a key of a later shard, however long ago it expired.
\<close>

theorem RunActiveExpiration_starves:
  assumes "store_inv s" and "i < shardCount" and "crowded t i L s" and "ticks_before t evs"
    and "i < sidx k"
  shows "lookup (RunActiveExpiration evs s) k = lookup s k"
  using assms
proof (induction evs s rule: RunActiveExpiration.induct)
  case (3 pref now evs s)
  obtain n g s' where c: "cycle_loop pref now activeExpireMaxRounds 0 0 s = (n, g, s')"
    by (metis prod_cases3)
  have nw: "\<forall>j < activeExpireMaxRounds. now j \<le> t" and t: "ticks_before t evs"
    using 3(5) by (simp_all add: ticks_before_def)
  from cycle_loop_crowded [OF 3(2-4) nw c]
  have "store_inv s' \<and> crowded t i L s' \<and> lookup s' k = lookup s k"
    using 3(6) by simp
  with 3 c t show ?case
    by (simp add: activeExpireCycle_def)
qed simp_all

theorem RunActiveExpiration_starves_witness:
  "lookup (RunActiveExpiration [Tick (\<lambda>_ _. []) (\<lambda>_. 50)] lettered) ''o'' =
     Some \<lparr>val = ''v'', atime = 0, expiresAt = 5\<rparr> \<and>
   expired \<lparr>val = ''v'', atime = 0, expiresAt = 5\<rparr> 50"
proof -
  have "29 < sidx ''o''" "''o'' \<notin> set letters"
    by code_simp+
  then show ?thesis
    using RunActiveExpiration_starves [OF lettered_inv _ lettered_crowded,
        of "[Tick (\<lambda>_ _. []) (\<lambda>_. 50)]" "''o''"]
    by (simp add: ticks_before_def shardCount_def lettered_lookup expired_def
        del: RunActiveExpiration.simps)
qed

end
