(* ===== verification/Keyspace.thy ===== *)
theory Keyspace
  imports Evict Expire
begin

text \<open>
  The keyspace as its clients rely on it.  The abstract state is a map from keys to values
  and deadlines, in which an entry stops being there once its deadline has passed;
  locale \<open>keyspace\<close> is the contract of the four ways of changing it, and the sharded store
  of theory \<open>Store\<close> is shown to meet it.  The rest of the theory states what each operation
  of the store answers and leaves behind in these terms, and that every sequence of
  operations keeps the invariant.
\<close>

section \<open>The abstract keyspace\<close>

type_synonym binding = "(bytes \<times> time) option"
type_synonym keymap = "key \<Rightarrow> binding"

definition live :: "time \<Rightarrow> binding \<Rightarrow> binding" where
  "live t x =
     (case x of
        None \<Rightarrow> None
      | Some (v, at) \<Rightarrow> (if at \<noteq> 0 \<and> at \<le> t then None else Some (v, at)))"

text \<open>
  The absolute mutations: everything a client does to the keyspace is journalled as one of
  these.  \<open>mutate\<close> is their meaning on a map, for a \<open>now\<close> at which they are carried out.
\<close>

datatype mutation =
    MutSet key bytes time
  | MutMSet "(key \<times> bytes) list"
  | MutDel "key list"
  | MutExpireAt key time

fun bind_all :: "(key \<times> bytes) list \<Rightarrow> keymap \<Rightarrow> keymap" where
  "bind_all [] m = m"
| "bind_all ((k, v) # ps) m = bind_all ps (m(k \<mapsto> (v, 0)))"

fun mutate :: "time \<Rightarrow> mutation \<Rightarrow> keymap \<Rightarrow> keymap" where
  "mutate now (MutSet k v at) m = m(k := live now (Some (v, at)))"
| "mutate now (MutMSet ps) m = bind_all ps m"
| "mutate now (MutDel ks) m = (\<lambda>k. if k \<in> set ks then None else m k)"
| "mutate now (MutExpireAt k at) m =
     (case m k of
        None \<Rightarrow> m
      | Some (v, _) \<Rightarrow> m(k := if at \<le> now then None else Some (v, at)))"

locale keyspace =
  fixes inv :: "'s \<Rightarrow> bool"
    and seen :: "time \<Rightarrow> 's \<Rightarrow> keymap"
    and set1 :: "time \<Rightarrow> key \<Rightarrow> bytes \<Rightarrow> time \<Rightarrow> 's \<Rightarrow> 's"
    and mset :: "(key \<times> bytes) list \<Rightarrow> 's \<Rightarrow> 's"
    and del :: "time \<Rightarrow> key list \<Rightarrow> 's \<Rightarrow> 's"
    and expat :: "time \<Rightarrow> key \<Rightarrow> time \<Rightarrow> 's \<Rightarrow> 's"
  assumes inv_set1: "inv s \<Longrightarrow> inv (set1 now k v at s)"
    and inv_mset: "inv s \<Longrightarrow> inv (mset ps s)"
    and inv_del: "inv s \<Longrightarrow> inv (del now ks s)"
    and inv_expat: "inv s \<Longrightarrow> inv (expat now k at s)"
    and seen_set1:
      "inv s \<Longrightarrow> seen now (set1 now k v at s) = (seen now s)(k := live now (Some (v, at)))"
    and seen_mset: "inv s \<Longrightarrow> seen now (mset ps s) = bind_all ps (seen now s)"
    and seen_del: "inv s \<Longrightarrow> seen now (del now ks s) = (\<lambda>k. if k \<in> set ks then None else seen now s k)"
    and seen_expat:
      "inv s \<Longrightarrow> seen now (expat now k at s) =
         (case seen now s k of
            None \<Rightarrow> seen now s
          | Some (v, _) \<Rightarrow> (seen now s)(k := if at \<le> now then None else Some (v, at)))"
begin

definition perform :: "time \<Rightarrow> mutation \<Rightarrow> 's \<Rightarrow> 's" where
  "perform now m s =
     (case m of
        MutSet k v at \<Rightarrow> set1 now k v at s
      | MutMSet ps \<Rightarrow> mset ps s
      | MutDel ks \<Rightarrow> del now ks s
      | MutExpireAt k at \<Rightarrow> expat now k at s)"

lemma perform_inv: "inv s \<Longrightarrow> inv (perform now m s)"
  by (simp add: perform_def inv_set1 inv_mset inv_del inv_expat split: mutation.split)

lemma perform_refines: "inv s \<Longrightarrow> seen now (perform now m s) = mutate now m (seen now s)"
  by (cases m) (simp_all add: perform_def seen_set1 seen_mset seen_del seen_expat)

lemma perform_all_inv: "inv s \<Longrightarrow> inv (fold (perform now) ms s)"
  by (induction ms arbitrary: s) (simp_all add: perform_inv)

lemma perform_all_refines:
  "inv s \<Longrightarrow> seen now (fold (perform now) ms s) = fold (mutate now) ms (seen now s)"
  by (induction ms arbitrary: s) (simp_all add: perform_inv perform_refines)

end

section \<open>Sequences of operations\<close>

text \<open>
  Everything that changes the store, with the clock readings and map orders it depends on.
  \<open>OpGet\<close> is among them: it stamps the access time and collects an expired key.
\<close>

datatype store_op =
    OpGet time time key
  | OpSet key bytes
  | OpSetWithTTL time key bytes duration
  | OpSetWithDeadline time time key bytes time
  | OpMSet "Pair list"
  | OpIncrement time key int
  | OpAppend time key bytes
  | OpExpire time time key duration
  | OpExpireAt time key time
  | OpDel time "key list"
  | OpTick
  | OpSetMemoryLimit int bytes
  | OpEnforceMemoryLimit "nat \<Rightarrow> nat \<Rightarrow> key list"
  | OpActiveExpireCycle "nat \<Rightarrow> nat \<Rightarrow> key list" "nat \<Rightarrow> time"

fun run_op :: "(bytes list \<Rightarrow> 'j \<Rightarrow> 'j) \<Rightarrow> store_op \<Rightarrow> 'j store \<Rightarrow> 'j store" where
  "run_op ap (OpGet now now' k) s = snd (Get now now' k s)"
| "run_op ap (OpSet k v) s = Set ap k v s"
| "run_op ap (OpSetWithTTL now k v ttl) s = SetWithTTL ap now k v ttl s"
| "run_op ap (OpSetWithDeadline now now' k v at) s = SetWithDeadline ap now now' k v at s"
| "run_op ap (OpMSet ps) s = MSet ap ps s"
| "run_op ap (OpIncrement now k d) s = snd (Increment ap now k d s)"
| "run_op ap (OpAppend now k v) s = snd (Append ap now k v s)"
| "run_op ap (OpExpire now now' k ttl) s = snd (Expire ap now now' k ttl s)"
| "run_op ap (OpExpireAt now k at) s = snd (ExpireAt ap now k at s)"
| "run_op ap (OpDel now ks) s = snd (Del ap now ks s)"
| "run_op ap OpTick s = tick s"
| "run_op ap (OpSetMemoryLimit m p) s = SetMemoryLimit m p s"
| "run_op ap (OpEnforceMemoryLimit pref) s = snd (EnforceMemoryLimit ap pref s)"
| "run_op ap (OpActiveExpireCycle pref now) s = snd (snd (activeExpireCycle pref now s))"

definition op_ok :: "store_op \<Rightarrow> bool" where
  "op_ok op \<longleftrightarrow> (case op of OpIncrement _ _ d \<Rightarrow> in64 d | _ \<Rightarrow> True)"

section \<open>Lemmas\<close>

lemma visible_live: "visible t s k = live t (view s k)"
  by (auto simp: view_visible live_def split: option.split)

lemma live_live: "t \<le> t' \<Longrightarrow> live t' (live t x) = live t' x"
  by (auto simp: live_def split: option.splits if_splits)

lemma visible_later: "t \<le> t' \<Longrightarrow> visible t' s k = live t' (visible t s k)"
  by (simp add: visible_live live_live)

lemma visible_lookup:
  "lookup s' = (lookup s)(k := x) \<Longrightarrow>
   visible t s' = (visible t s)(k := live t (map_option (\<lambda>e. (val e, expiresAt e)) x))"
  by (auto simp: visible_live view_def fun_eq_iff)

lemma setLocked_visible:
  "store_inv s \<Longrightarrow> visible t (setLocked ap k v at s) = (visible t s)(k := live t (Some (v, at)))"
  by (subst visible_lookup [OF setLocked_lookup]) simp_all

lemma Del_visible:
  "store_inv s \<Longrightarrow>
     visible t (snd (Del ap now ks s)) = (\<lambda>k. if k \<in> set ks then None else visible t s k)"
  by (auto simp: visible_live view_def Del_result(2) fun_eq_iff live_def)

lemma MSet_visible:
  assumes "store_inv s"
  shows "visible t (MSet ap ps s) =
    bind_all (map (\<lambda>p. (Key p, Value p)) ps) (visible t s)"
proof -
  have "(\<lambda>k. live t (map_option (\<lambda>e. (val e, expiresAt e))
      (fold (\<lambda>p m. m(Key p \<mapsto> \<lparr>val = Value p, atime = c, expiresAt = 0\<rparr>)) ps m k))) =
    bind_all (map (\<lambda>p. (Key p, Value p)) ps)
      (\<lambda>k. live t (map_option (\<lambda>e. (val e, expiresAt e)) (m k)))" for c m
  proof (induction ps arbitrary: m)
    case (Cons p ps)
    have "(\<lambda>k. live t (map_option (\<lambda>e. (val e, expiresAt e))
        ((m(Key p \<mapsto> \<lparr>val = Value p, atime = c, expiresAt = 0\<rparr>)) k))) =
      (\<lambda>k. live t (map_option (\<lambda>e. (val e, expiresAt e)) (m k)))(Key p \<mapsto> (Value p, 0))"
      by (auto simp: live_def fun_eq_iff)
    with Cons.IH [of "m(Key p \<mapsto> \<lparr>val = Value p, atime = c, expiresAt = 0\<rparr>)"] show ?case
      by (simp del: fun_upd_apply)
  qed simp
  from this [of "clock s" "lookup s"] show ?thesis
    using assms by (simp add: visible_live [abs_def] view_def MSet_lookup)
qed

lemma ExpireAt_visible:
  assumes "store_inv s" and "now \<le> t"
  shows "visible t (snd (ExpireAt ap now k at s)) =
    (case visible now s k of
       None \<Rightarrow> visible t s
     | Some (v, _) \<Rightarrow> (visible t s)(k := if at \<le> now then None else live t (Some (v, at))))"
proof (cases "visible now s k")
  case None
  then have "lookup (snd (ExpireAt ap now k at s)) = (lookup s)(k := None)"
    using ExpireAt_cases(1) [OF assms(1)] by blast
  from visible_lookup [OF this, of t] show ?thesis
    using None visible_later [OF assms(2), of s k] by (auto simp: live_def)
next
  case (Some x)
  obtain v d where x: "x = (v, d)" by (cases x)
  have v: "val (the (lookup s k)) = v"
    using Some x by (auto simp: visible_def split: option.splits if_splits)
  show ?thesis
  proof (cases "at \<le> now")
    case True
    then have "lookup (snd (ExpireAt ap now k at s)) = (lookup s)(k := None)"
      using ExpireAt_cases(2) [OF assms(1)] Some x by blast
    from visible_lookup [OF this, of t] show ?thesis
      using Some x True by (simp add: live_def)
  next
    case False
    then have "lookup (snd (ExpireAt ap now k at s)) =
        (lookup s)(k \<mapsto> (the (lookup s k))\<lparr>expiresAt := at\<rparr>)"
      using ExpireAt_cases(3) [OF assms(1), of now k v d at ap] Some x by simp
    from visible_lookup [OF this, of t] show ?thesis
      using Some x False v by simp
  qed
qed

lemma Increment_visible:
  assumes "store_inv s" and "in64 d" and "now \<le> t"
  shows "visible t (snd (Increment ap now k d s)) =
    (case fst (Increment ap now k d s) of
       Inl _ \<Rightarrow> visible t s
     | Inr n \<Rightarrow> (visible t s)
         (k := live t (Some (formatInt n, case visible now s k of None \<Rightarrow> 0 | Some (_, at) \<Rightarrow> at))))"
proof -
  have "store_inv (snd (load_live now k s))" "visible t (snd (load_live now k s)) = visible t s"
    using load_live_result(1) load_live_visible assms by blast+
  then show ?thesis
    by (auto simp: Increment_unfold [OF assms(1,2)] setLocked_visible split: option.split)
qed

lemma EnforceMemoryLimit_inv [inv_intros]:
  assumes "store_inv s"
  shows "store_inv (snd (EnforceMemoryLimit ap pref s))"
proof -
  obtain vs ok s' where "evict_loop ap pref (Suc (Len s)) 0 s = Some ((length vs, ok), s')"
    "evict_result ap s vs ok s'"
    using evict_loop_returns [OF assms, of "Suc (Len s)" ap pref 0] by auto
  then show ?thesis
    using assms
    by (simp add: EnforceMemoryLimit_def evict_result_def evicts_def del: evict_loop.simps)
qed

lemma run_op_inv: "store_inv s \<Longrightarrow> op_ok op \<Longrightarrow> store_inv (run_op ap op s)"
  by (cases op) (simp_all add: op_ok_def inv_intros)

lemma run_ops_inv: "store_inv s \<Longrightarrow> \<forall>op \<in> set ops. op_ok op \<Longrightarrow> store_inv (fold (run_op ap) ops s)"
  by (induction ops arbitrary: s) (simp_all add: run_op_inv)

subsection \<open>The store meets the contract\<close>

definition store_set :: "(bytes list \<Rightarrow> 'j \<Rightarrow> 'j) \<Rightarrow> time \<Rightarrow> key \<Rightarrow> bytes \<Rightarrow> time \<Rightarrow> 'j store \<Rightarrow> 'j store"
  where
  "store_set ap now k v at s =
     (if IsZero at then Set ap k v s else SetWithDeadline ap now now k v at s)"

definition pairs_of :: "(key \<times> bytes) list \<Rightarrow> Pair list" where
  "pairs_of = map (\<lambda>(k, v). \<lparr>Key = k, Value = v\<rparr>)"

lemma pairs_of_pairs [simp]: "map (\<lambda>p. (Key p, Value p)) (pairs_of ps) = ps"
  by (induction ps) (auto simp: pairs_of_def)

lemma store_set_inv [inv_intros]: "store_inv s \<Longrightarrow> store_inv (store_set ap now k v at s)"
  by (simp add: store_set_def inv_intros)

lemma store_set_visible:
  assumes "store_inv s" and "now \<le> t"
  shows "visible t (store_set ap now k v at s) = (visible t s)(k := live t (Some (v, at)))"
  using assms
  by (auto simp: store_set_def Set_def SetWithDeadline_def set_store_def setLocked_visible
      Del_visible live_def fun_eq_iff)

interpretation st: keyspace store_inv visible "store_set ap" "\<lambda>ps. MSet ap (pairs_of ps)"
    "\<lambda>now ks s. snd (Del ap now ks s)" "\<lambda>now k at s. snd (ExpireAt ap now k at s)"
  for ap :: "bytes list \<Rightarrow> 'j \<Rightarrow> 'j"
proof unfold_locales
  fix now k at and s :: "'j store"
  assume "store_inv s"
  then show "visible now (snd (ExpireAt ap now k at s)) =
      (case visible now s k of
         None \<Rightarrow> visible now s
       | Some (v, _) \<Rightarrow> (visible now s)(k := if at \<le> now then None else Some (v, at)))"
    by (auto simp: ExpireAt_visible live_def split: option.split)
qed (simp_all add: inv_intros store_set_visible MSet_visible Del_visible)

subsection \<open>Counting over the shards\<close>

lemma shard_sum:
  fixes f :: "key \<Rightarrow> entry \<Rightarrow> 'a::comm_monoid_add"
  assumes "store_inv s"
  shows "sum_list (map (\<lambda>sh. \<Sum>k \<in> {k \<in> fset (fmdom (data sh)). P (the (fmlookup (data sh) k))}.
      f k (the (fmlookup (data sh) k))) (readShards s)) =
    (\<Sum>k \<in> {k. \<exists>e. lookup s k = Some e \<and> P e}. f k (the (lookup s k)))"
proof -
  define A where "A i = {k. sidx k = i \<and> (\<exists>e. lookup s k = Some e \<and> P e)}" for i
  have len: "length (readShards s) = shardCount"
    using assms by (simp add: store_inv_def wf_store_def)
  have A: "{k \<in> fset (fmdom (data (readShards s ! i))). P (the (fmlookup (data (readShards s ! i)) k))} = A i"
    if "i < shardCount" for i
  proof -
    have "fmlookup (data (readShards s ! i)) k = (if sidx k = i then lookup s k else None)" for k
      using shard_lookup(2) [OF assms that, of k]
      by (cases "fmlookup (data (readShards s ! i)) k") (auto simp: lookup_def shard_of_def)
    then show ?thesis
      by (auto simp: A_def fmlookup_dom_iff split: if_splits)
  qed
  have f: "the (fmlookup (data (readShards s ! i)) k) = the (lookup s k)" if "k \<in> A i" for k i
    using that by (auto simp: A_def lookup_def shard_of_def)
  have "finite (A i)" if "i < shardCount" for i
    unfolding A [OF that, symmetric] by simp
  then have u: "(\<Sum>i < shardCount. \<Sum>k \<in> A i. f k (the (lookup s k))) =
      (\<Sum>k \<in> (\<Union>i < shardCount. A i). f k (the (lookup s k)))"
    by (intro sum.UNION_disjoint [symmetric]) (auto simp: A_def)
  have "sum_list (map (\<lambda>sh. \<Sum>k \<in> {k \<in> fset (fmdom (data sh)). P (the (fmlookup (data sh) k))}.
      f k (the (fmlookup (data sh) k))) (readShards s)) =
    (\<Sum>i < shardCount. \<Sum>k \<in> A i. f k (the (lookup s k)))"
    unfolding sum_list_sum_nth length_map len atLeast0LessThan
  proof (intro sum.cong refl)
    fix i assume "i \<in> {..< shardCount}"
    then have i: "i < shardCount" "i < length (readShards s)"
      by (simp_all add: len)
    show "map (\<lambda>sh. \<Sum>k \<in> {k \<in> fset (fmdom (data sh)). P (the (fmlookup (data sh) k))}.
        f k (the (fmlookup (data sh) k))) (readShards s) ! i = (\<Sum>k \<in> A i. f k (the (lookup s k)))"
      unfolding nth_map [OF i(2)] A [OF i(1)] by (intro sum.cong refl) (simp add: f)
  qed
  also note u
  also have "(\<Union>i < shardCount. A i) = {k. \<exists>e. lookup s k = Some e \<and> P e}"
    by (auto simp: A_def)
  finally show ?thesis .
qed

lemma finite_lookup: "finite {k. \<exists>e. lookup s k = Some e \<and> P e}"
proof -
  have "k \<in> (\<Union>i < shardCount. fset (fmdom (data (readShards s ! i))))"
    if "lookup s k = Some e" for k e
    using that
    by (intro UN_I [of "sidx k"]) (simp_all add: lookup_def shard_of_def fmlookup_dom_iff)
  then have "{k. \<exists>e. lookup s k = Some e \<and> P e} \<subseteq> (\<Union>i < shardCount. fset (fmdom (data (readShards s ! i))))"
    by blast
  then show ?thesis
    by (rule finite_subset) simp
qed

lemma shard_count:
  assumes "store_inv s"
  shows "sum_list (map (\<lambda>sh. card {k \<in> fset (fmdom (data sh)). P (the (fmlookup (data sh) k))})
      (readShards s)) = card {k. \<exists>e. lookup s k = Some e \<and> P e}"
  using shard_sum [OF assms, where P = P and f = "\<lambda>_ _. 1 :: nat"] by simp

lemma DBSize_card:
  assumes "store_inv s"
  shows "DBSize now s = card {k. visible now s k \<noteq> None}"
proof -
  have l: "length (filter P (range_order [] ks)) = card {k \<in> fset ks. P k}" for P and ks :: "key fset"
    using distinct_card [of "filter P (range_order [] ks)"] by simp
  have v: "{k. visible now s k \<noteq> None} = {k. \<exists>e. lookup s k = Some e \<and> \<not> expired e now}"
    by (auto simp: visible_def split: option.splits)
  show ?thesis
    unfolding DBSize_def l v by (rule shard_count [OF assms])
qed

lemma Len_card:
  assumes "store_inv s"
  shows "Len s = card {k. lookup s k \<noteq> None}"
  using shard_count [OF assms, of "\<lambda>_. True"] by (simp add: Len_def fcard.rep_eq)

lemma Used_sum:
  assumes "store_inv s"
  shows "Used s = (\<Sum>k \<in> {k. lookup s k \<noteq> None}. size_of s k)"
proof -
  have u: "map used (readShards s) = map (\<lambda>sh. shard_size (data sh)) (readShards s)"
    using assms by (auto simp: store_inv_def wf_store_def shard_inv_def in_set_conv_nth)
  show ?thesis
    unfolding Used_def u
    using shard_sum [OF assms, where P = "\<lambda>_. True" and f = "\<lambda>k e. entrySize k (val e)"]
    by (simp add: shard_size_def size_of_def)
qed

subsection \<open>A concrete keyspace\<close>

definition counter :: "bytes list list store" where
  "counter = Set rec_append ''n'' ''41'' (SetJournal [] New)"

lemma counter_inv: "store_inv counter"
  by (simp add: counter_def inv_intros)

lemma counter_lookup: "lookup counter = [''n'' \<mapsto> \<lparr>val = ''41'', atime = 0, expiresAt = 0\<rparr>]"
  by (simp add: counter_def Set_lookup SetJournal_def New_def lookup_def shard_of_def fun_eq_iff wf_store_def)

lemma counter_visible: "visible t counter = [''n'' \<mapsto> (''41'', 0)]"
  by (simp add: visible_live view_def counter_lookup live_def fun_eq_iff)

section \<open>Properties\<close>

text \<open>
  C7: every sequence of store operations, with any clock readings and map orders, leaves the
  store well formed: each key in the shard it hashes to, each shard's expiry index exactly its
  keys with a deadline, and the reported memory use exactly the sum of the entry sizes.
\<close>

theorem reachable_store_inv:
  assumes "\<forall>op \<in> set ops. op_ok op"
  shows "store_inv (fold (run_op ap) ops New) \<and>
    Used (fold (run_op ap) ops New) =
      (\<Sum>k \<in> {k. lookup (fold (run_op ap) ops New) k \<noteq> None}. size_of (fold (run_op ap) ops New) k)"
  using run_ops_inv [OF store_inv_New assms] Used_sum by blast

theorem reachable_store_inv_witness:
  "store_inv (fold (run_op rec_append) [OpSet ''n'' ''41'', OpIncrement 5 ''n'' 1, OpDel 6 [''m'']] New)"
  using reachable_store_inv [of "[OpSet ''n'' ''41'', OpIncrement 5 ''n'' 1, OpDel 6 [''m'']]" rec_append]
  by (simp add: op_ok_def in64_def minInt64_def maxInt64_def)

text \<open>
  C6: the sharded store implements the abstract keyspace: performing any list of absolute
  mutations on it has, on what clients see, exactly the effect of the mutations on a map.
\<close>

theorem store_refines_keymap:
  assumes "store_inv s"
  shows "visible now (fold (st.perform ap now) ms s) = fold (mutate now) ms (visible now s)"
  using assms by (rule st.perform_all_refines)

theorem store_refines_keymap_witness:
  "visible 7 (fold (st.perform rec_append 7) [MutSet ''a'' ''x'' 9, MutExpireAt ''n'' 3] counter) =
     [''a'' \<mapsto> (''x'', 9)]"
  using store_refines_keymap [OF counter_inv, of 7 rec_append "[MutSet ''a'' ''x'' 9, MutExpireAt ''n'' 3]"]
  by (simp add: counter_visible live_def fun_eq_iff)

text \<open>
  \<^verbatim>\<open>Get\<close> answers the value a client can see at its reading of the clock; it changes nothing
  anyone can see from then on, and journals nothing.
\<close>

theorem Get_spec:
  assumes "store_inv s" and "now' \<le> t"
  shows "fst (Get now now' k s) = map_option fst (visible now s k) \<and>
    visible t (snd (Get now now' k s)) = visible t s \<and> journalled ap [] s (snd (Get now now' k s))"
  using assms by (simp add: Get_value Get_visible Get_journalled)

theorem Get_spec_witness:
  "fst (Get 5 6 ''n'' counter) = Some ''41'' \<and> visible 7 (snd (Get 5 6 ''n'' counter)) = [''n'' \<mapsto> (''41'', 0)]"
  using Get_spec [OF counter_inv, of 6 7 5 "''n''" rec_append] by (simp add: counter_visible)

text \<open>
  C18: \<^verbatim>\<open>Increment\<close> adds to the integer a visible key holds (0 for an absent one), keeping its
  deadline, and journals the result as a plain \<^verbatim>\<open>SET\<close>; when the value is no integer or the
  sum leaves the 64-bit range it reports the error and nobody can see a change.
\<close>

theorem Increment_spec:
  assumes "store_inv s" and "in64 d" and "now \<le> t"
  shows "case current_int (visible now s k) of
      Some n \<Rightarrow>
        (if in64 (n + d) then
           fst (Increment ap now k d s) = Inr (n + d) \<and>
           visible t (snd (Increment ap now k d s)) =
             (visible t s)(k := live t (Some (formatInt (n + d),
                case visible now s k of None \<Rightarrow> 0 | Some (_, at) \<Rightarrow> at))) \<and>
           journalled ap [set_record k (formatInt (n + d))
             (case visible now s k of None \<Rightarrow> 0 | Some (_, at) \<Rightarrow> at)] s (snd (Increment ap now k d s))
         else fst (Increment ap now k d s) = Inl ErrNotInteger \<and>
           visible t (snd (Increment ap now k d s)) = visible t s)
    | None \<Rightarrow> fst (Increment ap now k d s) = Inl ErrNotInteger \<and>
        visible t (snd (Increment ap now k d s)) = visible t s"
proof -
  let ?s1 = "snd (load_live now k s)"
  have l: "store_inv ?s1" "visible t ?s1 = visible t s" "journal ?s1 = journal s"
    using load_live_result load_live_visible assms by blast+
  have j: "journalled ap [set_record k v at] s (setLocked ap k v at ?s1)" for v at
    using setLocked_journalled [of ap k v at ?s1] l(3) by (simp add: journalled_def)
  show ?thesis
    by (auto simp: Increment_unfold [OF assms(1,2)] setLocked_visible l j split: option.split)
qed

theorem Increment_spec_witness:
  "fst (Increment rec_append 5 ''n'' 1 counter) = Inr 42 \<and>
   visible 7 (snd (Increment rec_append 5 ''n'' 1 counter)) ''n'' = Some (''42'', 0)"
proof -
  have "ParseInt ''41'' = Inr 41" "formatInt 42 = ''42''"
    by code_simp+
  then show ?thesis
    using Increment_spec [OF counter_inv, where d = 1 and now = 5 and t = 7 and k = "''n''" and ap = rec_append]
    by (simp add: counter_visible current_int_def live_def in64_def minInt64_def maxInt64_def)
qed

text \<open>
  \<^verbatim>\<open>Append\<close> appends to the value a client can see (creating the key when there is none), keeps
  the deadline, answers the new length and leaves every other key alone.
\<close>

theorem Append_spec:
  assumes "store_inv s" and "visible now s k = x"
  shows "fst (Append ap now k suf s) = length ((case x of None \<Rightarrow> [] | Some (v, _) \<Rightarrow> v) @ suf) \<and>
    visible t (snd (Append ap now k suf s)) =
      (visible t s)(k := live t (Some ((case x of None \<Rightarrow> [] | Some (v, _) \<Rightarrow> v) @ suf,
         case x of None \<Rightarrow> 0 | Some (_, at) \<Rightarrow> at)))"
  using visible_lookup [OF Append_lookup [OF assms(1), of ap now k suf], of t]
    Append_fst [OF assms(1), of ap now k suf] assms(2)
  by simp

theorem Append_spec_witness:
  "fst (Append rec_append 5 ''n'' ''0'' counter) = 3 \<and>
   visible 7 (snd (Append rec_append 5 ''n'' ''0'' counter)) ''n'' = Some (''410'', 0)"
  using Append_spec [OF counter_inv, of 5 "''n''" "Some (''41'', 0)" rec_append "''0''" 7]
  by (simp add: counter_visible live_def)

text \<open>
  C29: \<^verbatim>\<open>Del\<close> removes exactly the given keys, answers how many of them a client could see (a key
  given twice counts once), and writes one record naming exactly the keys it really held.
\<close>

theorem Del_spec:
  assumes "store_inv s"
  shows "fst (Del ap now ks s) = card {k \<in> set ks. visible now s k \<noteq> None} \<and>
    lookup (snd (Del ap now ks s)) = (\<lambda>k. if k \<in> set ks then None else lookup s k) \<and>
    (\<exists>removed. distinct removed \<and> set removed = {k \<in> set ks. lookup s k \<noteq> None} \<and>
       journalled ap (if removed = [] then [] else [cmdDEL # removed]) s (snd (Del ap now ks s)))"
  using Del_result [OF assms, where ap = ap and now = now and ks = ks]
    set_present [of ks "lookup s"] distinct_present [of ks "lookup s"]
  by blast

theorem Del_spec_witness:
  "fst (Del rec_append 5 [''n'', ''n'', ''m''] counter) = 1 \<and>
   lookup (snd (Del rec_append 5 [''n'', ''n'', ''m''] counter)) ''n'' = None"
proof -
  have "{k \<in> set [''n'', ''n'', ''m'']. visible 5 counter k \<noteq> None} = {''n''}"
    by (auto simp: counter_visible)
  then show ?thesis
    using Del_spec [OF counter_inv, of rec_append 5 "[''n'', ''n'', ''m'']"] by simp
qed

text \<open>
  \<^verbatim>\<open>ExpireAt\<close> answers whether a client could see the key; a deadline that has passed removes
  the key, a later one replaces its deadline, and both are journalled with the absolute time.
\<close>

theorem ExpireAt_spec:
  assumes "store_inv s" and "now \<le> t" and "visible now s k = Some (v, d)"
  shows "fst (ExpireAt ap now k at s) \<and>
    visible t (snd (ExpireAt ap now k at s)) =
      (visible t s)(k := if at \<le> now then None else live t (Some (v, at))) \<and>
    journalled ap [if at \<le> now then [cmdDEL, k] else [cmdPEXPIREAT, k, unixMillis at]]
      s (snd (ExpireAt ap now k at s))"
proof -
  obtain e where e: "lookup s k = Some e" "\<not> expired e now"
    using assms(3) by (auto simp: visible_def split: option.splits if_splits)
  have "fst (ExpireAt ap now k at s)"
    using ExpireAt_cases [OF assms(1)] assms(3) by (metis not_le)
  then show ?thesis
    using ExpireAt_journalled [where ap = ap and s = s and k = k and now = now and at = at] e ExpireAt_visible [OF assms(1,2)] assms(3)
    by (auto simp: not_less)
qed

theorem ExpireAt_spec_witness:
  "fst (ExpireAt rec_append 5 ''n'' 9 counter) \<and>
   visible 7 (snd (ExpireAt rec_append 5 ''n'' 9 counter)) ''n'' = Some (''41'', 9)"
  using ExpireAt_spec [OF counter_inv, of 5 7 "''n''" "''41''" 0 rec_append 9]
  by (simp add: counter_visible live_def)

text \<open>
  \<^verbatim>\<open>TTL\<close> tells a missing key from one without a deadline and one with, and the remaining time
  it reports for the last is positive and ends at the deadline.
\<close>

theorem TTL_spec:
  "TTL now k s =
    (case visible now s k of
       None \<Rightarrow> (0, KeyMissing)
     | Some (v, at) \<Rightarrow>
         (if at = 0 then (0, KeyPersistent)
          else (min maxInt64 (int at - int now), KeyVolatile)))"
  by (auto simp: TTL_def visible_def lookup_def expired_def time_sub_def maxInt64_def minInt64_def
      Let_def split: option.splits)

text \<open>
  \<^verbatim>\<open>DBSize\<close> counts exactly the keys a client can see and \<^verbatim>\<open>Len\<close> exactly the keys held,
  although both add up 32 shards separately.
\<close>

theorem DBSize_spec:
  assumes "store_inv s"
  shows "DBSize now s = card {k. visible now s k \<noteq> None} \<and> Len s = card {k. lookup s k \<noteq> None} \<and>
    DBSize now s \<le> Len s"
proof -
  have "card {k. visible now s k \<noteq> None} \<le> card {k. lookup s k \<noteq> None}"
    using finite_lookup [of s "\<lambda>_. True"]
    by (intro card_mono) (auto simp: visible_def split: option.splits)
  then show ?thesis
    by (simp add: DBSize_card [OF assms] Len_card [OF assms])
qed

theorem DBSize_spec_witness:
  "DBSize 5 counter = 1 \<and> Len counter = 1"
  using DBSize_spec [OF counter_inv, of 5] by (simp add: counter_visible counter_lookup)

end
