(* ===== verification/Resp_Writer.thy ===== *)
theory Resp_Writer
  imports GoLib
begin

text \<open>
  The RESP2 encoder of \<^verbatim>\<open>internal/resp/writer.go\<close>.  Every method of \<^verbatim>\<open>resp.Writer\<close> is a
  function of the \<^verbatim>\<open>io.Writer\<close> behind it (\<open>wr\<close>, with state \<open>w\<close>); it stops at the first
  write that fails and panics where the source panics.  The \<open>enc_\<close> functions are the wire
  format of RESP2, which the methods are shown to produce.
\<close>

section \<open>Definitions\<close>

subsection \<open>Results of a sequence of writes\<close>

datatype wres = WOk | WErr | WPanic

definition io_put :: "('w \<Rightarrow> bytes \<Rightarrow> bool \<times> 'w) \<Rightarrow> bytes \<Rightarrow> 'w \<Rightarrow> wres \<times> 'w" where
  "io_put wr p w = (case wr w p of (ok, w') \<Rightarrow> (if ok then WOk else WErr, w'))"

text \<open>\<^verbatim>\<open>if err := first; err != nil { return err }; return second\<close>\<close>

definition w_then :: "wres \<times> 'w \<Rightarrow> ('w \<Rightarrow> wres \<times> 'w) \<Rightarrow> wres \<times> 'w" where
  "w_then r f = (case r of (WOk, w) \<Rightarrow> f w | _ \<Rightarrow> r)"

subsection \<open>The wire format\<close>

definition crlf :: bytes where "crlf = [CR, LF]"

definition no_newline :: "bytes \<Rightarrow> bool" where
  "no_newline s \<longleftrightarrow> (\<forall>c \<in> set s. c \<noteq> CR \<and> c \<noteq> LF)"

definition count_line :: "char \<Rightarrow> int \<Rightarrow> bytes" where
  "count_line typ n = typ # formatInt n @ crlf"

definition enc_simple :: "bytes \<Rightarrow> bytes" where
  "enc_simple s = CHR ''+'' # s @ crlf"

definition enc_error :: "bytes \<Rightarrow> bytes" where
  "enc_error s = CHR ''-'' # s @ crlf"

definition enc_int :: "int \<Rightarrow> bytes" where
  "enc_int n = count_line (CHR '':'') n"

definition enc_bulk :: "bytes \<Rightarrow> bytes" where
  "enc_bulk p = count_line (CHR ''$'') (int (length p)) @ p @ crlf"

definition enc_null :: bytes where
  "enc_null = ''$-1'' @ crlf"

definition enc_null_array :: bytes where
  "enc_null_array = ''*-1'' @ crlf"

definition enc_command :: "bytes list \<Rightarrow> bytes" where
  "enc_command args = count_line (CHR ''*'') (int (length args)) @ concat (map enc_bulk args)"

subsection \<open>The methods of resp.Writer\<close>

definition writeCountLine ::
  "('w \<Rightarrow> bytes \<Rightarrow> bool \<times> 'w) \<Rightarrow> char \<Rightarrow> int \<Rightarrow> 'w \<Rightarrow> wres \<times> 'w" where
  "writeCountLine wr typ n w = io_put wr ([typ] @ formatInt n @ crlf) w"

definition WriteSimpleString ::
  "('w \<Rightarrow> bytes \<Rightarrow> bool \<times> 'w) \<Rightarrow> bytes \<Rightarrow> 'w \<Rightarrow> wres \<times> 'w" where
  "WriteSimpleString wr s w =
     (if list_ex (\<lambda>c. c = CR \<or> c = LF) s then (WPanic, w)
      else w_then (io_put wr ''+'' w) (\<lambda>w. w_then (io_put wr s w) (io_put wr crlf)))"

definition WriteError ::
  "('w \<Rightarrow> bytes \<Rightarrow> bool \<times> 'w) \<Rightarrow> bytes \<Rightarrow> 'w \<Rightarrow> wres \<times> 'w" where
  "WriteError wr msg w =
     (if list_ex (\<lambda>c. c = CR \<or> c = LF) msg then (WPanic, w)
      else w_then (io_put wr ''-'' w) (\<lambda>w. w_then (io_put wr msg w) (io_put wr crlf)))"

definition WriteInteger ::
  "('w \<Rightarrow> bytes \<Rightarrow> bool \<times> 'w) \<Rightarrow> int \<Rightarrow> 'w \<Rightarrow> wres \<times> 'w" where
  "WriteInteger wr n w = writeCountLine wr (CHR '':'') n w"

definition WriteBulkString ::
  "('w \<Rightarrow> bytes \<Rightarrow> bool \<times> 'w) \<Rightarrow> bytes \<Rightarrow> 'w \<Rightarrow> wres \<times> 'w" where
  "WriteBulkString wr p w =
     w_then (writeCountLine wr (CHR ''$'') (int (length p)) w)
       (\<lambda>w. w_then (io_put wr p w) (io_put wr crlf))"

definition WriteNullBulkString ::
  "('w \<Rightarrow> bytes \<Rightarrow> bool \<times> 'w) \<Rightarrow> 'w \<Rightarrow> wres \<times> 'w" where
  "WriteNullBulkString wr w = io_put wr (''$-1'' @ [CR, LF]) w"

definition WriteArrayHeader ::
  "('w \<Rightarrow> bytes \<Rightarrow> bool \<times> 'w) \<Rightarrow> nat \<Rightarrow> 'w \<Rightarrow> wres \<times> 'w" where
  "WriteArrayHeader wr n w = writeCountLine wr (CHR ''*'') (int n) w"

definition WriteNullArray ::
  "('w \<Rightarrow> bytes \<Rightarrow> bool \<times> 'w) \<Rightarrow> 'w \<Rightarrow> wres \<times> 'w" where
  "WriteNullArray wr w = io_put wr (''*-1'' @ [CR, LF]) w"

section \<open>Lemmas\<close>

lemma w_then_ok: "w_then r f = (WOk, w') \<longleftrightarrow> (\<exists>w. r = (WOk, w) \<and> f w = (WOk, w'))"
  by (auto simp: w_then_def split: prod.splits wres.splits)

lemma no_newline_list_ex: "list_ex (\<lambda>c. c = CR \<or> c = LF) s \<longleftrightarrow> \<not> no_newline s"
  by (auto simp: no_newline_def list_ex_iff)

lemma no_newline_append [simp]: "no_newline (s @ t) \<longleftrightarrow> no_newline s \<and> no_newline t"
  by (auto simp: no_newline_def)

lemma no_newline_Cons [simp]: "no_newline (c # t) \<longleftrightarrow> c \<noteq> CR \<and> c \<noteq> LF \<and> no_newline t"
  by (auto simp: no_newline_def)

lemma no_newline_Nil [simp]: "no_newline []"
  by (simp add: no_newline_def)

lemma no_newline_formatInt [simp]: "no_newline (formatInt n)"
  by (auto simp: no_newline_def) 

subsection \<open>What a successful call has written, on any io.Writer\<close>

text \<open>
  \<open>emits f s\<close>: a call \<open>f\<close> that succeeds has added exactly \<open>s\<close> to what its writer holds,
  and one that fails has added a prefix of \<open>s\<close>; it does not panic, and does not fail on a
  good writer, which stays good.  It composes along \<open>w_then\<close>.
\<close>

context io_writer
begin

definition emits :: "('w \<Rightarrow> wres \<times> 'w) \<Rightarrow> bytes \<Rightarrow> bool" where
  "emits f s \<longleftrightarrow>
     (\<forall>w w'. f w = (WOk, w') \<longrightarrow> content w' = content w @ s) \<and>
     (\<forall>w w'. f w = (WErr, w') \<longrightarrow> (\<exists>q. prefix q s \<and> content w' = content w @ q)) \<and>
     (\<forall>w. fst (f w) \<noteq> WPanic) \<and>
     (\<forall>w. good w \<longrightarrow> fst (f w) = WOk \<and> good (snd (f w)))"

lemma emits_ok: "emits f s \<Longrightarrow> f w = (WOk, w') \<Longrightarrow> content w' = content w @ s"
  by (simp add: emits_def)

lemma emits_errE:
  assumes "emits f s" and "f w = (WErr, w')"
  obtains q where "prefix q s" and "content w' = content w @ q"
  using assms unfolding emits_def by blast

lemma emits_good: "emits f s \<Longrightarrow> good w \<Longrightarrow> \<exists>w'. f w = (WOk, w') \<and> good w'"
  unfolding emits_def by (metis prod.collapse)

lemma emits_put: "emits (io_put wr p) p"
  by (auto simp: emits_def io_put_def split: prod.splits if_splits dest: write_ok write_err
      write_good [of _ p])

lemma emits_then:
  assumes f: "emits f s" and g: "emits g t"
  shows "emits (\<lambda>w. w_then (f w) g) (s @ t)"
  unfolding emits_def
proof (intro conjI allI impI)
  fix w w' assume "w_then (f w) g = (WOk, w')"
  with f g show "content w' = content w @ s @ t"
    by (auto simp: w_then_ok emits_def)
next
  fix w w' assume a: "w_then (f w) g = (WErr, w')"
  show "\<exists>q. prefix q (s @ t) \<and> content w' = content w @ q"
  proof (cases "fst (f w) = WOk")
    case True
    then obtain u where u: "f w = (WOk, u)"
      by (cases "f w") auto
    with a have "g u = (WErr, w')"
      by (simp add: w_then_def)
    from g this obtain q where "prefix q t" and "content w' = content u @ q"
      by (rule emits_errE)
    with u f show ?thesis
      by (intro exI [of _ "s @ q"]) (auto simp: emits_def)
  next
    case False
    with a have "f w = (WErr, w')"
      by (auto simp: w_then_def split: prod.splits wres.splits)
    with f show ?thesis
      by (auto simp: emits_def) (meson prefix_prefix)
  qed
next
  fix w
  show "fst (w_then (f w) g) \<noteq> WPanic"
    using f g by (auto simp: w_then_def emits_def split: prod.splits wres.splits)
      (metis fst_conv)
next
  fix w assume "good w"
  then obtain u v where "f w = (WOk, u)" "g u = (WOk, v)" "good v"
    using emits_good [OF f] emits_good [OF g] by blast
  then show "fst (w_then (f w) g) = WOk" "good (snd (w_then (f w) g))"
    by (simp_all add: w_then_def)
qed

lemma emits_count_line: "emits (writeCountLine wr typ n) (count_line typ n)"
  using emits_put [of "[typ] @ formatInt n @ crlf"]
  by (simp add: writeCountLine_def [abs_def] count_line_def)

lemma emits_simple: "no_newline s \<Longrightarrow> emits (WriteSimpleString wr s) (enc_simple s)"
  using emits_then [OF emits_put [of "''+''"] emits_then [OF emits_put [of s] emits_put [of crlf]]]
  by (simp add: WriteSimpleString_def [abs_def] no_newline_list_ex enc_simple_def)

lemma emits_error: "no_newline s \<Longrightarrow> emits (WriteError wr s) (enc_error s)"
  using emits_then [OF emits_put [of "''-''"] emits_then [OF emits_put [of s] emits_put [of crlf]]]
  by (simp add: WriteError_def [abs_def] no_newline_list_ex enc_error_def)

lemma emits_int: "emits (WriteInteger wr n) (enc_int n)"
  using emits_count_line by (simp add: WriteInteger_def [abs_def] enc_int_def)

lemma emits_bulk: "emits (WriteBulkString wr p) (enc_bulk p)"
  using emits_then [OF emits_count_line [of "CHR ''$''" "int (length p)"]
      emits_then [OF emits_put [of p] emits_put [of crlf]]]
  by (simp add: WriteBulkString_def [abs_def] enc_bulk_def)

lemma emits_null: "emits (WriteNullBulkString wr) enc_null"
  using emits_put [of "''$-1'' @ crlf"]
  by (simp add: WriteNullBulkString_def [abs_def] enc_null_def crlf_def)

lemma emits_array_header: "emits (WriteArrayHeader wr n) (count_line (CHR ''*'') (int n))"
  using emits_count_line by (simp add: WriteArrayHeader_def [abs_def])

lemma emits_null_array: "emits (WriteNullArray wr) enc_null_array"
  using emits_put [of "''*-1'' @ crlf"]
  by (simp add: WriteNullArray_def [abs_def] enc_null_array_def crlf_def)

lemmas emits_intros =
  emits_simple emits_error emits_int emits_bulk emits_null emits_array_header emits_null_array

end

subsection \<open>A writer that never fails\<close>

context io_writer_total
begin

lemma put_total: "fst (io_put wr p w) = WOk"
  using emits_good [OF emits_put always_good, of p w] by auto

lemma put_total_content: "content (snd (io_put wr p w)) = content w @ p"
  using put_total [of p w] emits_ok [OF emits_put [of p], of w "snd (io_put wr p w)"]
  by (metis prod.collapse)

end

text \<open>On an in-memory buffer every method succeeds and appends its encoding.\<close>

lemma io_put_buffer [simp]: "io_put buffer_write p b = (WOk, b @ p)"
  using buffer_w.put_total [of p b] buffer_w.put_total_content [of p b]
  by (metis prod.collapse)

lemma buffer_methods [simp]:
  "writeCountLine buffer_write typ n b = (WOk, b @ count_line typ n)"
  "WriteInteger buffer_write n b = (WOk, b @ enc_int n)"
  "WriteBulkString buffer_write p b = (WOk, b @ enc_bulk p)"
  "WriteNullBulkString buffer_write b = (WOk, b @ enc_null)"
  "WriteArrayHeader buffer_write m b = (WOk, b @ count_line (CHR ''*'') (int m))"
  "no_newline s \<Longrightarrow> WriteSimpleString buffer_write s b = (WOk, b @ enc_simple s)"
  "no_newline s \<Longrightarrow> WriteError buffer_write s b = (WOk, b @ enc_error s)"
  by (simp_all add: writeCountLine_def WriteInteger_def WriteBulkString_def w_then_def
      WriteNullBulkString_def WriteArrayHeader_def WriteSimpleString_def WriteError_def
      no_newline_list_ex count_line_def enc_int_def enc_bulk_def enc_null_def enc_simple_def
      enc_error_def crlf_def)

section \<open>Properties\<close>

text \<open>
  C30: on a buffered connection or file, a reply method that succeeds has added exactly the
  encoding of its argument to the stream, and one that fails has added a prefix of it.  The text of
  an error or status line must have no line break, without which the two methods that write one do
  not panic; so such a line ends with the only line break in it.
\<close>

theorem Writer_encodes:
  assumes "no_newline msg"
  shows "bufio_w.emits (WriteSimpleString bufio_write msg) (enc_simple msg) \<and>
    bufio_w.emits (WriteError bufio_write msg) (enc_error msg) \<and>
    bufio_w.emits (WriteInteger bufio_write n) (enc_int n) \<and>
    bufio_w.emits (WriteBulkString bufio_write p) (enc_bulk p) \<and>
    bufio_w.emits (WriteNullBulkString bufio_write) enc_null \<and>
    bufio_w.emits (WriteArrayHeader bufio_write m) (count_line (CHR ''*'') (int m)) \<and>
    bufio_w.emits (WriteNullArray bufio_write) enc_null_array"
  using assms by (simp add: bufio_w.emits_intros)

theorem Writer_encodes_witness:
  "bufio_w.emits (WriteError bufio_write ''ERR syntax error'') (enc_error ''ERR syntax error'') \<and>
   bufio_w.emits (WriteBulkString bufio_write [CR, LF]) (enc_bulk [CR, LF])"
  using Writer_encodes [of "''ERR syntax error''" 0 "[CR, LF]" 0] by (simp add: CR_def LF_def)

text \<open>
  The two methods that write an unframed line panic exactly when their argument contains a
  line break, and then nothing has been written.
\<close>

theorem Writer_refuses_newline:
  "(fst (WriteError bufio_write msg w) = WPanic \<longleftrightarrow> \<not> no_newline msg) \<and>
   (WriteError bufio_write msg w = (WPanic, w) \<longleftrightarrow> \<not> no_newline msg) \<and>
   (fst (WriteSimpleString bufio_write msg w) = WPanic \<longleftrightarrow> \<not> no_newline msg) \<and>
   (WriteSimpleString bufio_write msg w = (WPanic, w) \<longleftrightarrow> \<not> no_newline msg)"
proof (cases "no_newline msg")
  case True
  then have "fst (WriteError bufio_write msg w) \<noteq> WPanic"
    "fst (WriteSimpleString bufio_write msg w) \<noteq> WPanic"
    using bufio_w.emits_error bufio_w.emits_simple by (auto simp: bufio_w.emits_def)
  with True show ?thesis by auto
next
  case False
  then show ?thesis
    by (simp add: WriteError_def WriteSimpleString_def no_newline_list_ex)
qed

end
