(* ===== verification/Resp_Reader.thy ===== *)
theory Resp_Reader
  imports Resp_Writer
begin

text \<open>
  The RESP2 command parser of \<^verbatim>\<open>internal/resp/reader.go\<close>.  The byte stream behind a
  \<^verbatim>\<open>resp.Reader\<close> is the list of bytes still to come and the error \<open>fin\<close> the source ends
  with after them (\<open>EOF\<close> for a file or an orderly disconnect); how the stream is cut into
  reads does not matter to the parser, because \<^verbatim>\<open>bufio.Reader\<close> reassembles it.  A parse
  returns the error or the result together with the bytes it has not consumed.
\<close>

section \<open>Definitions\<close>

definition MaxBulkLength :: int where "MaxBulkLength = 512 * 1024 * 1024"

definition MaxArrayLength :: int where "MaxArrayLength = 1024 * 1024"

definition readerBufSize :: nat where "readerBufSize = 16 * 1024"

datatype read_error =
    EOF
  | ErrUnexpectedEOF
  | ErrClosed
  | IOErr bytes
  | ProtocolError bytes

fun ProtocolError_Error :: "read_error \<Rightarrow> bytes" where
  "ProtocolError_Error (ProtocolError msg) = ''Protocol error: '' @ msg"
| "ProtocolError_Error _ = []"

fun ProtocolError_Message :: "read_error \<Rightarrow> bytes" where
  "ProtocolError_Message (ProtocolError msg) = msg"
| "ProtocolError_Message _ = []"

fun IsProtocolError :: "read_error \<Rightarrow> bool" where
  "IsProtocolError (ProtocolError _) = True"
| "IsProtocolError _ = False"

text \<open>\<^verbatim>\<open>bufio.Reader.ReadSlice\<close> with a newline as its delimiter.\<close>

datatype slice = Slice bytes bytes | BufferFull | SliceEnd bytes read_error

definition ReadSlice :: "read_error \<Rightarrow> bytes \<Rightarrow> slice" where
  "ReadSlice fin s =
     (let pre = takeWhile (\<lambda>c. c \<noteq> LF) s; n = length pre in
      if n < readerBufSize \<and> n < length s then Slice (take (Suc n) s) (drop (Suc n) s)
      else if readerBufSize \<le> length s then BufferFull
      else SliceEnd s fin)"

definition unexpectedEOF :: "read_error \<Rightarrow> read_error" where
  "unexpectedEOF e = (if e = EOF then ErrUnexpectedEOF else e)"

definition readLine :: "read_error \<Rightarrow> bytes \<Rightarrow> read_error + bytes \<times> bytes" where
  "readLine fin s =
     (case ReadSlice fin s of
        BufferFull \<Rightarrow> Inl (ProtocolError ''too big inline request'')
      | SliceEnd line e \<Rightarrow>
          (if e = EOF \<and> 0 < length line then Inl ErrUnexpectedEOF else Inl e)
      | Slice line rest \<Rightarrow>
          (if length line < 2 \<or> line ! (length line - 2) \<noteq> CR
           then Inl (ProtocolError ''unbalanced newline'')
           else
             (let l = take (length line - 2) line in
              if length l = 0 then Inl (ProtocolError ''empty line'') else Inr (l, rest))))"

definition hex_digit :: "nat \<Rightarrow> char" where
  "hex_digit d = (if d < 10 then char_of (48 + d) else char_of (87 + d))"

definition printableByte :: "char \<Rightarrow> bytes" where
  "printableByte b =
     (if 32 \<le> byte_val b \<and> byte_val b < 127 then [b]
      else [CHR 0x5C, CHR ''x'', hex_digit (byte_val b div 16), hex_digit (byte_val b mod 16)])"

definition expected_got :: "char \<Rightarrow> char \<Rightarrow> bytes" where
  "expected_got want got =
     ''expected '' @ [CHR 0x27, want, CHR 0x27] @ '', got '' @
     [CHR 0x27] @ printableByte got @ [CHR 0x27]"

definition ReadFull :: "read_error \<Rightarrow> nat \<Rightarrow> bytes \<Rightarrow> read_error + bytes \<times> bytes" where
  "ReadFull fin n s =
     (if n \<le> length s then Inr (take n s, drop n s)
      else if 0 < length s \<and> fin = EOF then Inl ErrUnexpectedEOF
      else Inl fin)"

definition readBulkString :: "read_error \<Rightarrow> bytes \<Rightarrow> read_error + bytes \<times> bytes" where
  "readBulkString fin s =
     (case readLine fin s of
        Inl e \<Rightarrow> Inl (unexpectedEOF e)
      | Inr (line, s1) \<Rightarrow>
          (if hd line \<noteq> CHR ''$'' then Inl (ProtocolError (expected_got (CHR ''$'') (hd line)))
           else
             (case ParseInt (tl line) of
                Inl _ \<Rightarrow> Inl (ProtocolError ''invalid bulk length'')
              | Inr n \<Rightarrow>
                  (if n < 0 \<or> n > MaxBulkLength
                   then Inl (ProtocolError ''invalid bulk length'')
                   else
                     (case ReadFull fin (nat n + 2) s1 of
                        Inl e \<Rightarrow> Inl (unexpectedEOF e)
                      | Inr (buf, s2) \<Rightarrow>
                          (if buf ! nat n \<noteq> CR \<or> buf ! (nat n + 1) \<noteq> LF
                           then Inl (ProtocolError ''bulk string not terminated by CRLF'')
                           else Inr (take (nat n) buf, s2)))))))"

fun readArgs :: "read_error \<Rightarrow> nat \<Rightarrow> bytes \<Rightarrow> read_error + bytes list \<times> bytes" where
  "readArgs fin 0 s = Inr ([], s)"
| "readArgs fin (Suc n) s =
     (case readBulkString fin s of
        Inl e \<Rightarrow> Inl e
      | Inr (a, s1) \<Rightarrow>
          (case readArgs fin n s1 of Inl e \<Rightarrow> Inl e | Inr (as, s2) \<Rightarrow> Inr (a # as, s2)))"

definition ReadCommand :: "read_error \<Rightarrow> bytes \<Rightarrow> read_error + bytes list \<times> bytes" where
  "ReadCommand fin s =
     (case readLine fin s of
        Inl e \<Rightarrow> Inl e
      | Inr (line, s1) \<Rightarrow>
          (if hd line \<noteq> CHR ''*'' then Inl (ProtocolError (expected_got (CHR ''*'') (hd line)))
           else
             (case ParseInt (tl line) of
                Inl _ \<Rightarrow> Inl (ProtocolError ''invalid multibulk length'')
              | Inr n \<Rightarrow>
                  (if n < 0 then Inl (ProtocolError ''invalid multibulk length'')
                   else if n > MaxArrayLength
                   then Inl (ProtocolError ''invalid multibulk length'')
                   else if n = 0 then Inr ([], s1)
                   else readArgs fin (nat n) s1))))"

text \<open>The commands the parser accepts: what fits the protocol limits.\<close>

definition within_limits :: "bytes list \<Rightarrow> bool" where
  "within_limits args \<longleftrightarrow>
     int (length args) \<le> MaxArrayLength \<and> (\<forall>a \<in> set args. int (length a) \<le> MaxBulkLength)"

section \<open>Lemmas\<close>

subsection \<open>Header lines\<close>

lemma takeWhile_line:
  "LF \<notin> set l \<Longrightarrow> takeWhile (\<lambda>c. c \<noteq> LF) (l @ LF # rest) = l"
  by (induction l) auto

lemma readLine_crlf:
  assumes "no_newline l" and "l \<noteq> []" and "length l + 2 \<le> readerBufSize"
  shows "readLine fin (l @ crlf @ rest) = Inr (l, rest)"
proof -
  have "takeWhile (\<lambda>c. c \<noteq> LF) ((l @ [CR]) @ LF # rest) = l @ [CR]"
    using assms(1) by (intro takeWhile_line) (auto simp: no_newline_def CR_def LF_def)
  with assms show ?thesis
    by (simp add: readLine_def ReadSlice_def crlf_def Let_def nth_append)
qed

lemma readLine_torn:
  assumes "LF \<notin> set p" and "length p < readerBufSize"
  shows "readLine fin p = Inl (if p = [] then fin else unexpectedEOF fin)"
proof -
  have t: "takeWhile (\<lambda>c. c \<noteq> LF) p = p"
    using assms(1) by (metis (mono_tags, lifting) takeWhile_eq_all_conv)
  show ?thesis
    unfolding readLine_def ReadSlice_def Let_def t
    using assms(2) by (simp add: unexpectedEOF_def)
qed

lemma readLine_Inr:
  assumes "readLine fin s = Inr (l, rest)"
  shows "l \<noteq> []" and "\<exists>t. s = l @ t @ rest \<and> length t = 2"
proof -
  let ?n = "length (takeWhile (\<lambda>c. c \<noteq> LF) s)"
  have c: "?n < readerBufSize \<and> ?n < length s"
    using assms by (rule_tac ccontr)
      (auto simp: readLine_def ReadSlice_def Let_def split: if_splits)
  then have len: "length (take (Suc ?n) s) = Suc ?n"
    by simp
  from assms c have "1 \<le> ?n" and "l = take (Suc ?n - 2) (take (Suc ?n) s)"
    and rest: "rest = drop (Suc ?n) s" and "0 < length l"
    unfolding readLine_def ReadSlice_def Let_def
    by (auto simp: len simp del: length_take split: if_splits)
  then have l: "l = take (?n - 1) s" and n: "?n < length s" "1 \<le> ?n"
    using c by (auto simp: min_def)
  from \<open>0 < length l\<close> show "l \<noteq> []" by simp
  have "drop (Suc ?n) s = drop 2 (drop (?n - 1) s)"
    using n(2) by (simp only: drop_drop) (rule arg_cong [where f = "\<lambda>k. drop k s"], simp)
  then have "s = take (?n - 1) s @ take 2 (drop (?n - 1) s) @ drop (Suc ?n) s"
    by (simp only: append_take_drop_id)
  then show "\<exists>t. s = l @ t @ rest \<and> length t = 2"
    unfolding l rest using n by (intro exI [of _ "take 2 (drop (?n - 1) s)"]) simp
qed

lemma readLine_EOF: "readLine fin s = Inl EOF \<longleftrightarrow> s = [] \<and> fin = EOF"
  by (auto simp: readLine_def ReadSlice_def Let_def readerBufSize_def split: if_splits)

subsection \<open>Reading back what the encoder wrote\<close>

lemma count_line_header:
  assumes "in64 n" and "typ \<noteq> CR" and "typ \<noteq> LF"
  shows "readLine fin (count_line typ n @ rest) = Inr (typ # formatInt n, rest)"
proof -
  have "length (typ # formatInt n) + 2 \<le> readerBufSize"
    using length_formatInt_le_20 [OF assms(1)] by (simp add: readerBufSize_def)
  with assms show ?thesis
    using readLine_crlf [of "typ # formatInt n" fin rest] by (simp add: count_line_def)
qed

lemma count_line_torn:
  assumes "in64 n" and "typ \<noteq> LF" and "strict_prefix p (count_line typ n)"
  shows "readLine fin p = Inl (if p = [] then fin else unexpectedEOF fin)"
proof (rule readLine_torn)
  have "count_line typ n = (typ # formatInt n @ [CR]) @ [LF]"
    by (simp add: count_line_def crlf_def)
  with assms(3) have "prefix p (typ # formatInt n @ [CR])"
    by (metis prefix_snoc strict_prefix_def)
  then have "set p \<subseteq> set (typ # formatInt n @ [CR])"
    by (rule set_mono_prefix)
  then show "LF \<notin> set p"
    using assms(2) formatInt_no_crlf(2) [of n] by (auto simp: CR_def LF_def)
  have "length p < length (count_line typ n)"
    using assms(3) by (rule prefix_length_less)
  then show "length p < readerBufSize"
    using length_formatInt_le_20 [OF assms(1)]
    by (simp add: count_line_def crlf_def readerBufSize_def)
qed

lemma bulk_in64: "int (length a) \<le> MaxBulkLength \<Longrightarrow> in64 (int (length a))"
  by (simp add: in64_def minInt64_def maxInt64_def MaxBulkLength_def)

lemma readBulkString_enc:
  assumes "int (length a) \<le> MaxBulkLength"
  shows "readBulkString fin (enc_bulk a @ rest) = Inr (a, rest)"
  using assms bulk_in64 [OF assms]
  by (simp add: readBulkString_def enc_bulk_def count_line_header ReadFull_def
      crlf_def nth_append CR_def LF_def)

lemma readBulkString_torn:
  assumes "int (length a) \<le> MaxBulkLength" and "strict_prefix p (enc_bulk a)"
  shows "readBulkString EOF p = Inl ErrUnexpectedEOF"
proof -
  let ?h = "count_line (CHR ''$'') (int (length a))"
  have i: "in64 (int (length a))"
    using assms(1) by (rule bulk_in64)
  from assms(2) have "prefix p (?h @ a @ crlf)"
    by (simp add: enc_bulk_def strict_prefix_def)
  then show ?thesis
  proof (cases rule: prefix_append_cases)
    case 1
    then show ?thesis
      using count_line_torn [OF i, of "CHR ''$''" p EOF]
      by (simp add: readBulkString_def unexpectedEOF_def LF_def)
  next
    case (2 q)
    then have "length q < length a + 2"
      using length_strict_prefix [OF assms(2)] by (simp add: enc_bulk_def crlf_def)
    with 2 assms(1) i show ?thesis
      by (simp add: readBulkString_def count_line_header CR_def LF_def ReadFull_def
          unexpectedEOF_def)
  qed
qed

lemma readArgs_enc:
  assumes "\<forall>a \<in> set args. int (length a) \<le> MaxBulkLength"
  shows "readArgs fin (length args) (concat (map enc_bulk args) @ rest) = Inr (args, rest)"
  using assms by (induction args) (auto simp: readBulkString_enc)

lemma readArgs_torn:
  assumes "\<forall>a \<in> set args. int (length a) \<le> MaxBulkLength"
    and "strict_prefix p (concat (map enc_bulk args))"
  shows "readArgs EOF (length args) p = Inl ErrUnexpectedEOF"
  using assms
proof (induction args arbitrary: p)
  case Nil
  then show ?case by simp
next
  case (Cons a args)
  from Cons.prems(2) have "prefix p (enc_bulk a @ concat (map enc_bulk args))"
    by (simp add: strict_prefix_def)
  then show ?case
  proof (cases rule: prefix_append_cases)
    case 1
    with Cons.prems(1) have "readBulkString EOF p = Inl ErrUnexpectedEOF"
      by (intro readBulkString_torn [of a]) auto
    then show ?thesis by simp
  next
    case (2 q)
    with Cons.prems(2) have "strict_prefix q (concat (map enc_bulk args))"
      by (auto simp: strict_prefix_def)
    with 2 Cons show ?thesis by (simp add: readBulkString_enc)
  qed
qed

lemma args_in64: "int (length args) \<le> MaxArrayLength \<Longrightarrow> in64 (int (length args))"
  by (simp add: in64_def minInt64_def maxInt64_def MaxArrayLength_def)

lemma ReadCommand_enc:
  assumes "within_limits args"
  shows "ReadCommand fin (enc_command args @ rest) = Inr (args, rest)"
proof -
  have i: "in64 (int (length args))"
    using assms by (intro args_in64) (simp add: within_limits_def)
  show ?thesis
    using assms i
    by (cases "args = []") (simp_all add: ReadCommand_def enc_command_def count_line_header
        readArgs_enc CR_def LF_def within_limits_def del: concat.simps)
qed

lemma ReadCommand_torn:
  assumes "within_limits args" and "strict_prefix p (enc_command args)"
  shows "ReadCommand EOF p = Inl (if p = [] then EOF else ErrUnexpectedEOF)"
proof -
  let ?h = "count_line (CHR ''*'') (int (length args))"
  have i: "in64 (int (length args))"
    using assms(1) by (intro args_in64) (simp add: within_limits_def)
  from assms(2) have "prefix p (?h @ concat (map enc_bulk args))"
    by (simp add: enc_command_def strict_prefix_def)
  then show ?thesis
  proof (cases rule: prefix_append_cases)
    case 1
    then show ?thesis
      using count_line_torn [OF i, of "CHR ''*''" p EOF]
      by (simp add: ReadCommand_def unexpectedEOF_def LF_def)
  next
    case (2 q)
    with assms(2) have s: "strict_prefix q (concat (map enc_bulk args))"
      by (auto simp: strict_prefix_def enc_command_def)
    then have "args \<noteq> []" by auto
    moreover have "p \<noteq> []"
      using 2 by (simp add: count_line_def)
    ultimately show ?thesis
      using 2 assms(1) i readArgs_torn [OF _ s]
      by (simp add: ReadCommand_def count_line_header CR_def LF_def within_limits_def)
  qed
qed

subsection \<open>What an accepted command satisfies\<close>

lemma readBulkString_Inr:
  assumes "readBulkString fin s = Inr (a, rest)"
  shows "int (length a) \<le> MaxBulkLength" and "suffix rest s" and "length rest < length s"
proof -
  from assms obtain line s1 n buf where l: "readLine fin s = Inr (line, s1)"
    and n: "0 \<le> n" "n \<le> MaxBulkLength" and f: "ReadFull fin (nat n + 2) s1 = Inr (buf, rest)"
    and b: "a = take (nat n) buf"
    by (auto simp: readBulkString_def not_less split: sum.splits prod.splits if_splits)
  from f b have len: "nat n + 2 \<le> length s1"
    and a: "a = take (nat n) s1" "rest = drop (nat n + 2) s1"
    by (auto simp: ReadFull_def min_def split: if_splits)
  from n a show "int (length a) \<le> MaxBulkLength" by simp
  obtain t where t: "s = line @ t @ s1"
    using readLine_Inr(2) [OF l] by blast
  then show "suffix rest s"
    using a suffix_drop [of "nat n + 2" s1] by (auto simp: suffix_append)
  show "length rest < length s"
    using t a len readLine_Inr(1) [OF l] by simp
qed

lemma readArgs_Inr:
  assumes "readArgs fin n s = Inr (as, rest)"
  shows "length as = n \<and> (\<forall>a \<in> set as. int (length a) \<le> MaxBulkLength) \<and> suffix rest s"
  using assms
proof (induction n arbitrary: s as)
  case 0
  then show ?case by simp
next
  case (Suc n)
  from Suc.prems obtain a s1 bs where
    b: "readBulkString fin s = Inr (a, s1)" and r: "readArgs fin n s1 = Inr (bs, rest)"
    and as: "as = a # bs"
    by (auto split: sum.splits prod.splits)
  from r have "length bs = n \<and> (\<forall>a \<in> set bs. int (length a) \<le> MaxBulkLength) \<and> suffix rest s1"
    by (rule Suc.IH)
  moreover note readBulkString_Inr [OF b]
  ultimately show ?case
    using suffix_order.trans [of rest s1 s] by (simp add: as)
qed

lemma ReadCommand_Inr:
  assumes "ReadCommand fin s = Inr (args, rest)"
  shows "within_limits args" and "suffix rest s" and "length rest < length s"
proof -
  from assms obtain line s1 where l: "readLine fin s = Inr (line, s1)"
    and c: "(args = [] \<and> rest = s1) \<or>
       (\<exists>n. 0 < n \<and> n \<le> MaxArrayLength \<and> readArgs fin (nat n) s1 = Inr (args, rest))"
    by (auto simp: ReadCommand_def not_less split: sum.splits prod.splits if_splits)
      (metis le_less)
  have m: "(0 :: int) \<le> MaxArrayLength"
    by (simp add: MaxArrayLength_def)
  from c readArgs_Inr [of fin _ s1 args rest]
  have lim: "within_limits args \<and> suffix rest s1"
    using m by (auto simp: within_limits_def)
  then show "within_limits args" by simp
  obtain t where t: "s = line @ t @ s1"
    using readLine_Inr(2) [OF l] by blast
  with lim show "suffix rest s"
    by (auto simp: suffix_append)
  have "length line \<noteq> 0"
    using readLine_Inr(1) [OF l] by simp
  moreover have "length rest \<le> length s1"
    using lim by (simp add: suffix_length_le)
  ultimately show "length rest < length s"
    unfolding t length_append by linarith
qed

lemma unexpectedEOF_not_EOF [simp]: "unexpectedEOF e \<noteq> EOF"
  by (simp add: unexpectedEOF_def)

lemma readBulkString_not_EOF: "readBulkString fin s \<noteq> Inl EOF"
  unfolding readBulkString_def by (simp split: sum.split prod.split)

lemma readArgs_not_EOF: "readArgs fin n s \<noteq> Inl EOF"
proof (induction n arbitrary: s)
  case (Suc n)
  then show ?case
    using readBulkString_not_EOF [of fin s] by (auto split: sum.split prod.split)
qed simp

lemma ReadCommand_EOF: "ReadCommand EOF s = Inl EOF \<Longrightarrow> s = []"
  by (auto simp: ReadCommand_def readArgs_not_EOF readLine_EOF split: sum.splits prod.splits if_splits)

subsection \<open>A length that is too large\<close>

text \<open>A bulk string that is refused, or is cut short, after any number of good ones.\<close>

lemma readArgs_fails:
  assumes "\<forall>a \<in> set pre. int (length a) \<le> MaxBulkLength" and "readBulkString fin x = Inl e"
  shows "readArgs fin (length pre + Suc m) (concat (map enc_bulk pre) @ x) = Inl e"
  using assms(1) by (induction pre) (simp_all add: assms(2) readBulkString_enc)

lemma ReadCommand_fails:
  assumes "\<forall>a \<in> set pre. int (length a) \<le> MaxBulkLength" and "int (length pre + Suc m) \<le> MaxArrayLength"
    and "readBulkString fin x = Inl e"
  shows "ReadCommand fin (count_line (CHR ''*'') (int (length pre + Suc m)) @ concat (map enc_bulk pre) @ x) = Inl e"
proof -
  define k where "k = length pre + Suc m"
  have "in64 (int k)" "k \<noteq> 0" "int k \<le> MaxArrayLength"
    using assms(2) unfolding k_def by (auto simp: in64_def minInt64_def maxInt64_def MaxArrayLength_def)
  then show ?thesis
    using readArgs_fails [OF assms(1,3), of m] unfolding k_def [symmetric]
    by (simp add: ReadCommand_def count_line_header CR_def LF_def)
qed

text \<open>
  A length beyond the end of the input is taken for a command that is cut short, whatever follows;
  one beyond the limit is refused.
\<close>

lemma readBulkString_overlong:
  assumes "0 \<le> n" and "n \<le> MaxBulkLength" and "int (length rest) < n + 2"
  shows "readBulkString EOF (count_line (CHR ''$'') n @ rest) = Inl ErrUnexpectedEOF"
proof -
  have "\<not> nat n + 2 \<le> length rest" "in64 n"
    using assms by (auto simp: in64_def minInt64_def maxInt64_def MaxBulkLength_def)
  then show ?thesis
    using assms by (simp add: readBulkString_def count_line_header CR_def LF_def ReadFull_def unexpectedEOF_def)
qed

lemma readBulkString_too_large:
  assumes "MaxBulkLength < n" and "in64 n"
  shows "readBulkString fin (count_line (CHR ''$'') n @ rest) = Inl (ProtocolError ''invalid bulk length'')"
  using assms by (simp add: readBulkString_def count_line_header CR_def LF_def)

subsection \<open>More input\<close>

lemma ReadSlice_more:
  "ReadSlice f s = Slice l r \<Longrightarrow> ReadSlice f' (s @ t) = Slice l (r @ t)"
  "ReadSlice f s = BufferFull \<Longrightarrow> ReadSlice f' (s @ t) = BufferFull"
proof -
  let ?n = "length (takeWhile (\<lambda>c. c \<noteq> LF) s)"
  show "ReadSlice f' (s @ t) = Slice l (r @ t)" if "ReadSlice f s = Slice l r"
  proof -
    have n: "?n < readerBufSize" "?n < length s" "l = take (Suc ?n) s" "r = drop (Suc ?n) s"
      using that by (auto simp: ReadSlice_def Let_def split: if_splits)
    have "takeWhile (\<lambda>c. c \<noteq> LF) (s @ t) = takeWhile (\<lambda>c. c \<noteq> LF) s"
      using nth_length_takeWhile [OF n(2)] nth_mem [OF n(2)] by (intro takeWhile_append1 [of "s ! ?n"]) auto
    with n show ?thesis
      by (simp add: ReadSlice_def Let_def)
  qed
  show "ReadSlice f' (s @ t) = BufferFull" if "ReadSlice f s = BufferFull"
  proof -
    have n: "\<not> (?n < readerBufSize \<and> ?n < length s)" "readerBufSize \<le> length s"
      using that by (auto simp: ReadSlice_def Let_def split: if_splits)
    have "?n \<le> length (takeWhile (\<lambda>c. c \<noteq> LF) (s @ t))"
      by (induction s) auto
    with n length_takeWhile_le [of "\<lambda>c. c \<noteq> LF" s] show ?thesis
      by (auto simp: ReadSlice_def Let_def)
  qed
qed

text \<open>What was decided without the end of the stream is decided whatever follows.\<close>

lemma readLine_more: "readLine f s = Inr (l, r) \<Longrightarrow> readLine f' (s @ t) = Inr (l, r @ t)"
  by (cases "ReadSlice f s") (auto simp: readLine_def Let_def ReadSlice_more split: if_splits)

lemma readLine_refused:
  assumes "readLine (IOErr m) s = Inl e" and "e \<noteq> IOErr m"
  shows "IsProtocolError e \<and> readLine f (s @ t) = Inl e"
proof (cases "ReadSlice (IOErr m) s")
  case (SliceEnd l x)
  then have "x = IOErr m"
    by (auto simp: ReadSlice_def Let_def split: if_splits)
  with SliceEnd assms show ?thesis
    by (simp add: readLine_def)
qed (use assms in \<open>auto simp: readLine_def Let_def ReadSlice_more split: if_splits\<close>)

lemma readBulkString_more:
  assumes "readBulkString f s = Inr (a, r)"
  shows "readBulkString f' (s @ t) = Inr (a, r @ t)"
proof (cases "readLine f s")
  case (Inr y)
  obtain l v where y: "y = (l, v)" by (cases y)
  have h: "hd l = CHR ''$''"
    using assms Inr y by (auto simp: readBulkString_def split: if_splits)
  obtain n where n: "ParseInt (tl l) = Inr n" "0 \<le> n" "n \<le> MaxBulkLength"
    using assms Inr y h by (auto simp: readBulkString_def split: sum.splits if_splits)
  have v: "nat n + 2 \<le> length v"
    using assms Inr y h n by (cases "nat n + 2 \<le> length v") (simp_all add: readBulkString_def ReadFull_def split: if_splits)
  show ?thesis
    using assms Inr y h n v readLine_more [OF Inr [unfolded y], of f' t]
    by (simp add: readBulkString_def ReadFull_def split: if_splits)
qed (use assms in \<open>simp add: readBulkString_def\<close>)

lemma readBulkString_refused:
  assumes "readBulkString (IOErr m) s = Inl e" and "e \<noteq> IOErr m"
  shows "IsProtocolError e \<and> readBulkString f (s @ t) = Inl e"
proof (cases "readLine (IOErr m) s")
  case (Inl x)
  then have "e = unexpectedEOF x"
    using assms by (simp add: readBulkString_def)
  then have "x \<noteq> IOErr m"
    using assms(2) by (auto simp: unexpectedEOF_def)
  from readLine_refused [OF Inl this, of f t] \<open>e = unexpectedEOF x\<close> show ?thesis
    by (cases x) (auto simp: readBulkString_def unexpectedEOF_def)
next
  case (Inr y)
  obtain l r where y: "y = (l, r)" by (cases y)
  note more = readLine_more [OF Inr [unfolded y], of f t]
  show ?thesis
  proof (cases "\<exists>n. hd l = CHR ''$'' \<and> ParseInt (tl l) = Inr n \<and> 0 \<le> n \<and> n \<le> MaxBulkLength")
    case True
    then obtain n where n: "hd l = CHR ''$''" "ParseInt (tl l) = Inr n" "0 \<le> n" "n \<le> MaxBulkLength"
      by blast
    have b: "readBulkString g u = (case ReadFull g (nat n + 2) v of
        Inl e \<Rightarrow> Inl (unexpectedEOF e)
      | Inr (buf, w) \<Rightarrow>
          if buf ! nat n \<noteq> CR \<or> buf ! (nat n + 1) \<noteq> LF
          then Inl (ProtocolError ''bulk string not terminated by CRLF'')
          else Inr (take (nat n) buf, w))" if "readLine g u = Inr (l, v)" for g u v
      using n that by (simp add: readBulkString_def)
    have full: "nat n + 2 \<le> length r"
      using assms b [of "IOErr m" s r] Inr y
      by (cases "nat n + 2 \<le> length r") (simp_all add: ReadFull_def unexpectedEOF_def)
    from assms show ?thesis
      unfolding b [OF more] b [OF Inr [unfolded y]] using full
      by (auto simp: ReadFull_def split: if_splits)
  next
    case False
    then consider "hd l \<noteq> CHR ''$''" | x where "ParseInt (tl l) = Inl x"
      | n where "ParseInt (tl l) = Inr n" "n < 0 \<or> MaxBulkLength < n"
      by (cases "ParseInt (tl l)") force+
    then show ?thesis
      using assms by cases (auto simp: readBulkString_def Inr y more)
  qed
qed

lemma readArgs_more: "readArgs f n s = Inr (as, r) \<Longrightarrow> readArgs f' n (s @ t) = Inr (as, r @ t)"
proof (induction n arbitrary: s as)
  case (Suc n)
  obtain a v as' where "readBulkString f s = Inr (a, v)" "readArgs f n v = Inr (as', r)" "as = a # as'"
    using Suc.prems by (auto split: sum.splits)
  then show ?case
    using Suc.IH readBulkString_more [of f s a v f' t] by simp
qed simp

lemma readArgs_refused:
  assumes "readArgs (IOErr m) n s = Inl e" and "e \<noteq> IOErr m"
  shows "IsProtocolError e \<and> readArgs f n (s @ t) = Inl e"
  using assms
proof (induction n arbitrary: s)
  case (Suc n)
  show ?case
  proof (cases "readBulkString (IOErr m) s")
    case (Inl x)
    with Suc.prems readBulkString_refused [OF Inl, of f t] show ?thesis
      by simp
  next
    case (Inr y)
    obtain a r where y: "y = (a, r)" by (cases y)
    with Inr Suc.prems Suc.IH [of r] readBulkString_more [OF Inr [unfolded y], of f t] show ?thesis
      by (auto split: sum.splits)
  qed
qed simp

lemma ReadCommand_more:
  assumes "ReadCommand f s = Inr (as, r)"
  shows "ReadCommand f' (s @ t) = Inr (as, r @ t)"
proof (cases "readLine f s")
  case (Inr y)
  obtain l v where y: "y = (l, v)" by (cases y)
  have h: "hd l = CHR ''*''"
    using assms Inr y by (auto simp: ReadCommand_def split: if_splits)
  obtain n where n: "ParseInt (tl l) = Inr n" "0 \<le> n" "n \<le> MaxArrayLength"
    using assms Inr y h by (auto simp: ReadCommand_def split: sum.splits if_splits)
  show ?thesis
    using assms Inr y h n readLine_more [OF Inr [unfolded y], of f' t]
    by (simp add: ReadCommand_def readArgs_more split: if_splits)
qed (use assms in \<open>simp add: ReadCommand_def\<close>)

lemma ReadCommand_refused:
  assumes "ReadCommand (IOErr m) s = Inl e" and "e \<noteq> IOErr m"
  shows "IsProtocolError e \<and> ReadCommand f (s @ t) = Inl e"
proof (cases "readLine (IOErr m) s")
  case (Inl x)
  with assms readLine_refused [OF Inl, of f t] show ?thesis
    by (simp add: ReadCommand_def)
next
  case (Inr y)
  obtain l r where y: "y = (l, r)" by (cases y)
  note more = readLine_more [OF Inr [unfolded y], of f t]
  show ?thesis
  proof (cases "\<exists>n. hd l = CHR ''*'' \<and> ParseInt (tl l) = Inr n \<and> 0 < n \<and> n \<le> MaxArrayLength")
    case True
    then obtain n where n: "hd l = CHR ''*''" "ParseInt (tl l) = Inr n" "0 < n" "n \<le> MaxArrayLength"
      by blast
    have "ReadCommand g u = readArgs g (nat n) v" if "readLine g u = Inr (l, v)" for g u v
      using n that by (simp add: ReadCommand_def)
    with assms Inr y more show ?thesis
      by (simp add: readArgs_refused)
  next
    case False
    then consider "hd l \<noteq> CHR ''*''" | x where "ParseInt (tl l) = Inl x"
      | n where "ParseInt (tl l) = Inr n" "n \<le> 0 \<or> MaxArrayLength < n"
      by (cases "ParseInt (tl l)") force+
    then show ?thesis
      using assms by cases (auto simp: ReadCommand_def Inr y more split: if_splits)
  qed
qed

subsection \<open>Error messages\<close>

lemma no_newline_printableByte [simp]: "no_newline (printableByte b)"
proof -
  have h: "hex_digit d \<noteq> CR \<and> hex_digit d \<noteq> LF" if "d < 16" for d
  proof -
    have "byte_val (hex_digit d) = (if d < 10 then 48 + d else 87 + d)"
      using that by (simp add: hex_digit_def)
    moreover have "byte_val CR = 13" "byte_val LF = 10"
      by (simp_all add: CR_def LF_def)
    ultimately show ?thesis
      by (auto split: if_splits)
  qed
  have "byte_val b < 256"
    using nat_of_char_less_256 [of b] by simp
  then have "byte_val b div 16 < 16" "byte_val b mod 16 < 16"
    by (simp_all add: less_mult_imp_div_less)
  moreover have "b \<noteq> CR \<and> b \<noteq> LF" if "32 \<le> byte_val b"
    using that by (auto simp: CR_def LF_def)
  ultimately show ?thesis
    using h by (auto simp: printableByte_def CR_def LF_def)
qed

lemma no_newline_expected_got:
  "want \<noteq> CR \<Longrightarrow> want \<noteq> LF \<Longrightarrow> no_newline (expected_got want got)"
  by (simp add: expected_got_def CR_def LF_def)

lemma readLine_message:
  "readLine fin s = Inl (ProtocolError m) \<Longrightarrow> fin \<noteq> ProtocolError m \<Longrightarrow> no_newline m"
  by (auto simp: readLine_def ReadSlice_def Let_def CR_def LF_def split: if_splits)

lemma ReadFull_message: "ReadFull fin n s = Inl (ProtocolError m) \<Longrightarrow> fin = ProtocolError m"
  by (auto simp: ReadFull_def split: if_splits)

lemma unexpectedEOF_message: "unexpectedEOF e = ProtocolError m \<longleftrightarrow> e = ProtocolError m"
  by (simp add: unexpectedEOF_def)

lemma readBulkString_message:
  "readBulkString fin s = Inl (ProtocolError m) \<Longrightarrow> fin \<noteq> ProtocolError m \<Longrightarrow> no_newline m"
  using no_newline_expected_got [of "CHR ''$''"]
  by (auto simp: readBulkString_def unexpectedEOF_message CR_def LF_def
      split: sum.splits prod.splits if_splits dest: readLine_message ReadFull_message)

lemma readArgs_message:
  "readArgs fin n s = Inl (ProtocolError m) \<Longrightarrow> fin \<noteq> ProtocolError m \<Longrightarrow> no_newline m"
  by (induction n arbitrary: s)
    (auto split: sum.splits prod.splits dest: readBulkString_message)

lemma ReadCommand_message:
  "ReadCommand fin s = Inl (ProtocolError m) \<Longrightarrow> fin \<noteq> ProtocolError m \<Longrightarrow> no_newline m"
  using no_newline_expected_got [of "CHR ''*''"]
  by (auto simp: ReadCommand_def CR_def LF_def
      split: sum.splits prod.splits if_splits dest: readLine_message readArgs_message)

section \<open>Properties\<close>

text \<open>
  C23: a command cut short anywhere is reported as a truncated command, and the end of the stream
  is reported as a clean disconnect exactly when nothing of a command has been read.
\<close>

theorem ReadCommand_truncated:
  assumes "within_limits args" and "strict_prefix p (enc_command args)"
  shows "ReadCommand EOF p = Inl (if p = [] then EOF else ErrUnexpectedEOF)"
  using assms by (rule ReadCommand_torn)

theorem ReadCommand_truncated_witness:
  "ReadCommand EOF (take 9 (enc_command [''PING''])) = Inl ErrUnexpectedEOF"
proof -
  have "enc_command [''PING''] = take 9 (enc_command [''PING'']) @ drop 9 (enc_command [''PING''])"
    by simp
  moreover have "drop 9 (enc_command [''PING'']) \<noteq> []" "take 9 (enc_command [''PING'']) \<noteq> []"
    by code_simp+
  ultimately have "strict_prefix (take 9 (enc_command [''PING''])) (enc_command [''PING''])"
    unfolding strict_prefix_def prefix_def by (metis append_self_conv)
  then show ?thesis
    using ReadCommand_truncated [of "[''PING'']" "take 9 (enc_command [''PING''])"]
      \<open>take 9 (enc_command [''PING'']) \<noteq> []\<close>
    by (simp add: within_limits_def MaxArrayLength_def MaxBulkLength_def)
qed

text \<open>
  C24: whatever bytes arrive, a command that is accepted respects the protocol's limits on the
  number and length of its arguments, what is left of the stream is a proper suffix of it (so a
  loop of reads always makes progress), and the end of file is reported only on an empty stream.
\<close>

theorem ReadCommand_accepts:
  "(case ReadCommand fin s of
      Inr (args, rest) \<Rightarrow> within_limits args \<and> suffix rest s \<and> length rest < length s
    | Inl e \<Rightarrow> e = EOF \<longrightarrow> s = [] \<and> fin = EOF)"
proof (cases "ReadCommand fin s")
  case (Inl e)
  then show ?thesis
    using readArgs_not_EOF
    by (auto simp: ReadCommand_def readLine_EOF split: sum.splits prod.splits if_splits)
next
  case (Inr x)
  then show ?thesis
    using ReadCommand_Inr by (cases x) auto
qed

theorem ReadCommand_accepts_witness:
  "ReadCommand EOF (enc_command [''PING''] @ ''*'') = Inr ([''PING''], ''*'') \<and>
   within_limits [''PING''] \<and> suffix ''*'' (enc_command [''PING''] @ ''*'')"
proof -
  have "ReadCommand EOF (enc_command [''PING''] @ ''*'') = Inr ([''PING''], ''*'')"
    by (rule ReadCommand_enc) (simp add: within_limits_def MaxArrayLength_def MaxBulkLength_def)
  then show ?thesis
    using ReadCommand_accepts [where fin = EOF and s = "enc_command [''PING''] @ ''*''"] by simp
qed

text \<open>
  A protocol error's text, although it can quote a byte from the wire, never contains a line
  break, so it can be sent back as an error line.
\<close>

theorem ReadCommand_error_printable:
  assumes "ReadCommand fin s = Inl (ProtocolError m)" and "fin \<noteq> ProtocolError m"
  shows "no_newline (''ERR '' @ ProtocolError_Error (ProtocolError m))"
  using ReadCommand_message [OF assms] by (simp add: CR_def LF_def)

theorem ReadCommand_error_printable_witness:
  "ReadCommand EOF [CHR 0x07, CR, LF] = Inl (ProtocolError (expected_got (CHR ''*'') (CHR 0x07))) \<and>
   no_newline (''ERR '' @ ProtocolError_Error (ProtocolError (expected_got (CHR ''*'') (CHR 0x07))))"
proof -
  have e: "ReadCommand EOF [CHR 0x07, CR, LF] = Inl (ProtocolError (expected_got (CHR ''*'') (CHR 0x07)))"
    by code_simp
  then show ?thesis
    using ReadCommand_error_printable [OF e] by blast
qed

text \<open>
  A length with a leading plus sign is accepted, although the parser's comment lists it
  among the garbage that is rejected.
\<close>

theorem ReadCommand_plus_sign:
  "ReadCommand EOF (''*+1'' @ crlf @ ''$+4'' @ crlf @ ''PING'' @ crlf) = Inr ([''PING''], [])"
  by code_simp

end
