(* ===== verification/Aof.thy ===== *)
theory Aof
  imports Resp_Reader
begin

text \<open>
  The append-only file of \<^verbatim>\<open>internal/aof/aof.go\<close>: the log as its buffered writer over the
  open file, every method of \<^verbatim>\<open>Log\<close>, and the rewrite that replaces the file.

  The file is a device of theory \<open>GoLib\<close>, so a full disk and a failing fsync are values of
  the model.  An error is the text it prints.  The methods run under the log's mutex and are
  atomic; \<open>FinishRewrite\<close> writes its snapshot before it takes the mutex, so it is two steps,
  \<open>rewrite_snapshot\<close> and \<open>rewrite_install\<close>, between which the log can be appended to.
\<close>

section \<open>Definitions\<close>

subsection \<open>Policies\<close>

definition PolicyAlways :: bytes where "PolicyAlways = ''always''"

definition PolicyEverysec :: bytes where "PolicyEverysec = ''everysec''"

definition PolicyNo :: bytes where "PolicyNo = ''no''"

definition ParsePolicy :: "bytes \<Rightarrow> bytes option" where
  "ParsePolicy s = (if s \<in> {PolicyAlways, PolicyEverysec, PolicyNo} then Some s else None)"

definition SyncInterval :: duration where "SyncInterval = Second"

subsection \<open>The log\<close>

record Log =
  bw :: bufw
  log_policy :: bytes
  path :: bytes
  rewriting :: bool
  rewriteTail :: bytes
  log_err :: "bytes option"

definition aofBufSize :: nat where "aofBufSize = 64 * 1024"

text \<open>\<open>file\<close> is the outcome of \<^verbatim>\<open>os.OpenFile\<close>: the text of its error, or the file.\<close>

definition Open :: "bytes + dev \<Rightarrow> bytes \<Rightarrow> bytes \<Rightarrow> bytes + Log" where
  "Open file p pol =
     (case file of
        Inl e \<Rightarrow> Inl (''open aof: '' @ e)
      | Inr f \<Rightarrow>
          Inr \<lparr>bw = NewWriterSize aofBufSize f, log_policy = pol, path = p, rewriting = False,
            rewriteTail = [], log_err = None\<rparr>)"

definition log_fail :: "bytes \<Rightarrow> Log \<Rightarrow> bytes option \<times> Log" where
  "log_fail e l =
     (let l' = (if log_err l = None then l\<lparr>log_err := Some e\<rparr> else l) in (log_err l', l'))"

definition io_error :: "bufw \<Rightarrow> bytes" where
  "io_error b = emsg (bw_dev b)"

fun writeBulks :: "('w \<Rightarrow> bytes \<Rightarrow> bool \<times> 'w) \<Rightarrow> bytes list \<Rightarrow> 'w \<Rightarrow> wres \<times> 'w" where
  "writeBulks wr [] w = (WOk, w)"
| "writeBulks wr (a # as) w = w_then (WriteBulkString wr a w) (writeBulks wr as)"

definition writeCommand :: "('w \<Rightarrow> bytes \<Rightarrow> bool \<times> 'w) \<Rightarrow> bytes list \<Rightarrow> 'w \<Rightarrow> wres \<times> 'w" where
  "writeCommand wr args w = w_then (WriteArrayHeader wr (length args) w) (writeBulks wr args)"

definition log_Append :: "bytes list \<Rightarrow> Log \<Rightarrow> bytes option \<times> Log" where
  "log_Append args l =
     (if log_err l \<noteq> None then (log_err l, l)
      else
        (case writeCommand bufio_write args (bw l) of
           (WOk, b) \<Rightarrow>
             (let l1 = l\<lparr>bw := b\<rparr> in
              if rewriting l1 then
                (case writeCommand buffer_write args (rewriteTail l1) of
                   (WOk, t) \<Rightarrow> (None, l1\<lparr>rewriteTail := t\<rparr>)
                 | (_, t) \<Rightarrow> log_fail (io_error b) (l1\<lparr>rewriteTail := t\<rparr>))
              else (None, l1))
         | (_, b) \<Rightarrow> log_fail (io_error b) (l\<lparr>bw := b\<rparr>)))"

text \<open>The journal's \<^verbatim>\<open>Append\<close> as the store calls it: the store drops the error.\<close>

definition journal_append :: "bytes list \<Rightarrow> Log \<Rightarrow> Log" where
  "journal_append args l = snd (log_Append args l)"

subsection \<open>Flushing and syncing\<close>

definition syncLocked :: "bool \<Rightarrow> Log \<Rightarrow> bytes option \<times> Log" where
  "syncLocked fsync l =
     (if log_err l \<noteq> None then (log_err l, l)
      else
        (case bufio_flush (bw l) of
           (False, b) \<Rightarrow> log_fail (io_error b) (l\<lparr>bw := b\<rparr>)
         | (True, b) \<Rightarrow>
             (if fsync then
                (case dev_sync (bw_dev b) of
                   (True, d) \<Rightarrow> (None, l\<lparr>bw := b\<lparr>bw_dev := d\<rparr>\<rparr>)
                 | (False, d) \<Rightarrow> log_fail (emsg d) (l\<lparr>bw := b\<lparr>bw_dev := d\<rparr>\<rparr>))
              else (None, l\<lparr>bw := b\<rparr>))))"

definition Sync :: "Log \<Rightarrow> bytes option \<times> Log" where
  "Sync l = syncLocked (log_policy l \<noteq> PolicyNo) l"

definition Flush :: "Log \<Rightarrow> bytes option \<times> Log" where
  "Flush l = syncLocked False l"

definition SyncIfAlways :: "Log \<Rightarrow> bytes option \<times> Log" where
  "SyncIfAlways l = (if log_policy l \<noteq> PolicyAlways then (None, l) else Sync l)"

definition Err :: "Log \<Rightarrow> bytes option" where
  "Err l = log_err l"

text \<open>\<open>closeErr\<close> is the outcome of closing the file.\<close>

definition Close :: "bytes option \<Rightarrow> Log \<Rightarrow> bytes option \<times> Log" where
  "Close closeErr l =
     (case syncLocked True l of
        (syncErr, l') \<Rightarrow> (if syncErr \<noteq> None then syncErr else closeErr, l'))"

datatype sync_event = SyncTick | SyncDone

fun RunSyncLoop :: "sync_event list \<Rightarrow> Log \<Rightarrow> Log" where
  "RunSyncLoop [] l = l"
| "RunSyncLoop (SyncDone # _) l = snd (Sync l)"
| "RunSyncLoop (SyncTick # evs) l =
     RunSyncLoop evs (snd (syncLocked (log_policy l = PolicyEverysec) l))"

definition sync_interval :: "duration \<Rightarrow> duration" where
  "sync_interval d = (if d \<le> 0 then SyncInterval else d)"

subsection \<open>Rewriting\<close>

definition BeginRewrite :: "Log \<Rightarrow> bytes option \<times> Log" where
  "BeginRewrite l =
     (if log_err l \<noteq> None then (log_err l, l)
      else if rewriting l then (Some ''AOF rewrite already in progress'', l)
      else (None, l\<lparr>rewriting := True, rewriteTail := []\<rparr>))"

definition endRewrite :: "Log \<Rightarrow> Log" where
  "endRewrite l = l\<lparr>rewriting := False, rewriteTail := []\<rparr>"

definition abortRewrite :: "Log \<Rightarrow> Log" where
  "abortRewrite l = endRewrite l"

text \<open>
  What the file system answers to a rewrite: to creating the temporary file, closing it,
  renaming it over the log and opening it again.
\<close>

record rewrite_env =
  created :: "bytes + dev"
  closed :: "bytes option"
  renamed :: "bytes option"
  reopened :: "bytes option"

fun writeCommands :: "bytes list list \<Rightarrow> bufw \<Rightarrow> wres \<times> bufw" where
  "writeCommands [] b = (WOk, b)"
| "writeCommands (args # rest) b = w_then (writeCommand bufio_write args b) (writeCommands rest)"

text \<open>The part before the mutex: the temporary file with the snapshot in it.\<close>

definition rewrite_snapshot :: "rewrite_env \<Rightarrow> bytes list list \<Rightarrow> bytes + dev" where
  "rewrite_snapshot E snapshot =
     (case created E of
        Inl e \<Rightarrow> Inl (''create rewrite AOF: '' @ e)
      | Inr tmp \<Rightarrow>
          (case writeCommands snapshot (NewWriterSize aofBufSize tmp) of
             (WOk, b) \<Rightarrow>
               (case bufio_flush b of
                  (True, b') \<Rightarrow> Inr (bw_dev b')
                | (False, b') \<Rightarrow> Inl (''flush rewrite snapshot: '' @ io_error b'))
           | (_, b) \<Rightarrow> Inl (''write rewrite snapshot: '' @ io_error b)))"

text \<open>
  The part under the mutex.  The third component is the file the log's path names from then
  on, when it has changed.
\<close>

definition rewrite_install ::
  "rewrite_env \<Rightarrow> dev \<Rightarrow> Log \<Rightarrow> bytes option \<times> Log \<times> dev option" where
  "rewrite_install E tmp l =
     (if \<not> rewriting l then (Some ''AOF rewrite is not in progress'', l, None)
      else if log_err l \<noteq> None then (log_err l, endRewrite l, None)
      else
        (case dev_write tmp (rewriteTail l) of
           (_, False, d) \<Rightarrow> (Some (''write rewrite tail: '' @ emsg d), endRewrite l, None)
         | (_, True, d) \<Rightarrow>
             (case dev_sync d of
                (False, d') \<Rightarrow> (Some (''sync rewrite AOF: '' @ emsg d'), endRewrite l, None)
              | (True, d') \<Rightarrow>
                  (case closed E of
                     Some e \<Rightarrow> (Some (''close rewrite AOF: '' @ e), endRewrite l, None)
                   | None \<Rightarrow>
                       (case renamed E of
                          Some e \<Rightarrow> (Some (''install rewrite AOF: '' @ e), endRewrite l, None)
                        | None \<Rightarrow>
                            (case reopened E of
                               Some e \<Rightarrow>
                                 (case log_fail (''reopen rewritten AOF: '' @ e) (endRewrite l) of
                                    (r, l') \<Rightarrow> (r, l', Some d'))
                             | None \<Rightarrow>
                                 (None, endRewrite (l\<lparr>bw := NewWriterSize aofBufSize d'\<rparr>),
                                  Some d')))))))"

definition FinishRewrite ::
  "rewrite_env \<Rightarrow> bytes list list \<Rightarrow> Log \<Rightarrow> bytes option \<times> Log \<times> dev option" where
  "FinishRewrite E snapshot l =
     (case rewrite_snapshot E snapshot of
        Inl e \<Rightarrow> (Some e, abortRewrite l, None)
      | Inr tmp \<Rightarrow> rewrite_install E tmp l)"

section \<open>The journal interface\<close>

text \<open>
  What the store assumes of its journal: a record handed to a journal that has not failed is
  added to it, encoded, or the journal fails; and a failed journal stays as it is.
\<close>

locale journal_contract =
  fixes append1 :: "bytes list \<Rightarrow> 'j \<Rightarrow> 'j"
    and failed :: "'j \<Rightarrow> bool"
    and contents :: "'j \<Rightarrow> bytes"
  assumes append_failed: "failed j \<Longrightarrow> append1 r j = j"
    and append_ok: "\<not> failed (append1 r j) \<Longrightarrow> contents (append1 r j) = contents j @ enc_command r"
    and append_part: "\<exists>p. prefix p (enc_command r) \<and> contents (append1 r j) = contents j @ p"
begin

lemma fold_failed: "failed j \<Longrightarrow> fold append1 rs j = j"
  by (induction rs) (simp_all add: append_failed)

lemma fold_not_failed: "\<not> failed (fold append1 rs j) \<Longrightarrow> \<not> failed j"
  using fold_failed by fastforce

lemma fold_append:
  "\<not> failed (fold append1 rs j) \<Longrightarrow>
     contents (fold append1 rs j) = contents j @ concat (map enc_command rs)"
proof (induction rs arbitrary: j)
  case (Cons r rs)
  then have "\<not> failed (append1 r j)"
    using fold_not_failed by simp
  with Cons show ?case
    by (simp add: append_ok)
qed simp

text \<open>Failing half way leaves a prefix of what was to be written.\<close>

lemma fold_append_prefix:
  "\<exists>p. prefix p (concat (map enc_command rs)) \<and> contents (fold append1 rs j) = contents j @ p"
proof (induction rs arbitrary: j)
  case (Cons r rs)
  show ?case
  proof (cases "failed (append1 r j)")
    case True
    then show ?thesis
      using append_part [of r j] by (auto simp: fold_failed prefix_prefix)
  next
    case False
    obtain p where "prefix p (concat (map enc_command rs))"
      "contents (fold append1 rs (append1 r j)) = contents (append1 r j) @ p"
      using Cons.IH by blast
    with append_ok [OF False] show ?thesis
      by (intro exI [of _ "enc_command r @ p"]) simp
  qed
qed simp

end

section \<open>What is in the log\<close>

abbreviation contents :: "Log \<Rightarrow> bytes" where
  "contents l \<equiv> bufio_content (bw l)"

abbreviation failed :: "Log \<Rightarrow> bool" where
  "failed l \<equiv> log_err l \<noteq> None"

text \<open>The bytes an fsync has put on the disk, and the files a crash can leave behind.\<close>

definition on_disk :: "dev \<Rightarrow> bytes" where
  "on_disk d = take (durable d) (written d)"

definition crash_file :: "dev \<Rightarrow> bytes \<Rightarrow> bool" where
  "crash_file d p \<longleftrightarrow> prefix (on_disk d) p \<and> prefix p (written d)"

text \<open>The operations of a log, with what the file system answers.\<close>

datatype log_op =
    LAppend "bytes list"
  | LSync
  | LFlush
  | LSyncIfAlways
  | LTick
  | LBeginRewrite
  | LAbortRewrite
  | LInstall rewrite_env dev
  | LClose "bytes option"

fun run_log :: "log_op \<Rightarrow> Log \<Rightarrow> Log" where
  "run_log (LAppend args) l = journal_append args l"
| "run_log LSync l = snd (Sync l)"
| "run_log LFlush l = snd (Flush l)"
| "run_log LSyncIfAlways l = snd (SyncIfAlways l)"
| "run_log LTick l = snd (syncLocked (log_policy l = PolicyEverysec) l)"
| "run_log LBeginRewrite l = snd (BeginRewrite l)"
| "run_log LAbortRewrite l = abortRewrite l"
| "run_log (LInstall E tmp) l = fst (snd (rewrite_install E tmp l))"
| "run_log (LClose ce) l = snd (Close ce l)"

text \<open>
  A buffered writer that respects its size, and the writes that keep it so.
\<close>

definition buf_ok :: "bufw \<Rightarrow> bool" where
  "buf_ok b \<longleftrightarrow> length (bw_buf b) \<le> bw_size b"

definition tame :: "(bufw \<Rightarrow> wres \<times> bufw) \<Rightarrow> bool" where
  "tame f \<longleftrightarrow>
     (\<forall>b r b'. f b = (r, b') \<longrightarrow> buf_ok b \<longrightarrow> bw_size b' = bw_size b \<and> buf_ok b')"

text \<open>A log on an empty, unlimited disk.\<close>

definition fresh_dev :: dev where
  "fresh_dev = \<lparr>written = [], durable = 0, quota = None, syncs = None, emsg = ''EIO''\<rparr>"

definition fresh_log :: "bytes \<Rightarrow> Log" where
  "fresh_log pol = \<lparr>bw = NewWriterSize aofBufSize fresh_dev, log_policy = pol, path = ''aof'',
     rewriting = False, rewriteTail = [], log_err = None\<rparr>"

definition calm :: rewrite_env where
  "calm = \<lparr>created = Inr fresh_dev, closed = None, renamed = None, reopened = None\<rparr>"

section \<open>Lemmas\<close>

subsection \<open>Encoding a command\<close>

context io_writer
begin

lemma emits_return: "emits (\<lambda>w. (WOk, w)) []"
  by (simp add: emits_def)

lemma emits_bulks: "emits (writeBulks wr args) (concat (map enc_bulk args))"
proof (induction args)
  case Nil
  then show ?case
    using emits_return by (simp add: emits_def)
next
  case (Cons a as)
  have "writeBulks wr (a # as) = (\<lambda>w. w_then (WriteBulkString wr a w) (writeBulks wr as))"
    by (rule ext) simp
  with emits_then [OF emits_bulk Cons.IH] show ?case
    by simp
qed

lemma emits_command: "emits (writeCommand wr args) (enc_command args)"
proof -
  have "writeCommand wr args = (\<lambda>w. w_then (WriteArrayHeader wr (length args) w) (writeBulks wr args))"
    by (rule ext) (simp add: writeCommand_def)
  with emits_then [OF emits_array_header emits_bulks] show ?thesis
    by (simp add: enc_command_def)
qed

end

lemma writeBulks_buffer: "writeBulks buffer_write args b = (WOk, b @ concat (map enc_bulk args))"
  by (induction args arbitrary: b) (simp_all add: w_then_def)

lemma writeCommand_buffer [simp]: "writeCommand buffer_write args b = (WOk, b @ enc_command args)"
  by (simp add: writeCommand_def w_then_def writeBulks_buffer enc_command_def)

lemma writeCommands_emits:
  "bufio_w.emits (writeCommands cs) (concat (map enc_command cs))"
proof (induction cs)
  case Nil
  then show ?case
    using bufio_w.emits_return by (simp add: bufio_w.emits_def)
next
  case (Cons c cs)
  have "writeCommands (c # cs) = (\<lambda>b. w_then (writeCommand bufio_write c b) (writeCommands cs))"
    by (rule ext) simp
  with bufio_w.emits_then [OF bufio_w.emits_command Cons.IH] show ?case
    by simp
qed

subsection \<open>The log is a journal\<close>

lemma log_fail_first [simp]: "log_err l = None \<Longrightarrow> log_fail e l = (Some e, l\<lparr>log_err := Some e\<rparr>)"
  by (simp add: log_fail_def)

lemma log_Append_cases:
  assumes "log_Append args l = (r, l')"
  shows "log_err l' = r" and "log_policy l' = log_policy l" and "rewriting l' = rewriting l"
    and "failed l \<Longrightarrow> l' = l"
    and "r = None \<Longrightarrow> contents l' = contents l @ enc_command args"
    and "r = None \<Longrightarrow> rewriteTail l' =
      (if rewriting l then rewriteTail l @ enc_command args else rewriteTail l)"
    and "\<exists>p. prefix p (enc_command args) \<and> contents l' = contents l @ p"
proof -
  obtain wr b where w: "writeCommand bufio_write args (bw l) = (wr, b)"
    by (cases "writeCommand bufio_write args (bw l)")
  note em = bufio_w.emits_command [of args, unfolded bufio_w.emits_def]
  have wp: "wr \<noteq> WPanic"
    using em w by (metis fst_conv)
  have ok: "wr = WOk \<Longrightarrow> bufio_content b = contents l @ enc_command args"
    using em w by blast
  have part: "\<exists>p. prefix p (enc_command args) \<and> bufio_content b = contents l @ p"
    using em w wp ok by (cases wr) auto
  show "log_err l' = r" "log_policy l' = log_policy l" "rewriting l' = rewriting l"
    "failed l \<Longrightarrow> l' = l"
    "r = None \<Longrightarrow> contents l' = contents l @ enc_command args"
    "r = None \<Longrightarrow> rewriteTail l' =
      (if rewriting l then rewriteTail l @ enc_command args else rewriteTail l)"
    "\<exists>p. prefix p (enc_command args) \<and> contents l' = contents l @ p"
    using assms w wp ok part
    by (auto simp: log_Append_def Let_def split: if_splits wres.splits)
qed

interpretation aof: journal_contract journal_append failed contents
proof unfold_locales
  fix r j
  obtain e l where a: "log_Append r j = (e, l)"
    by (cases "log_Append r j")
  note c = log_Append_cases [OF a]
  show "failed j \<Longrightarrow> journal_append r j = j"
    using c(4) a by (simp add: journal_append_def)
  show "\<not> failed (journal_append r j) \<Longrightarrow> contents (journal_append r j) = contents j @ enc_command r"
    using c(1,5) a by (simp add: journal_append_def)
  show "\<exists>p. prefix p (enc_command r) \<and> contents (journal_append r j) = contents j @ p"
    using c(7) a by (simp add: journal_append_def)
qed

subsection \<open>Durability\<close>

lemma bufio_flush_durable [simp]: "durable (bw_dev (snd (bufio_flush b))) = durable (bw_dev b)"
  by (auto simp: bufio_flush_def dev_write_cases(4) split: prod.split bool.split)

lemma bufio_write_durable: "durable (bw_dev (snd (bufio_write b p))) = durable (bw_dev b)"
proof (induction b p rule: bufio_write.induct)
  case (1 b p)
  let ?b = "b\<lparr>bw_buf := bw_buf b @ take (bw_size b - length (bw_buf b)) p\<rparr>"
  obtain f b1 where fl: "bufio_flush ?b = (f, b1)"
    by (cases "bufio_flush ?b")
  then have "durable (bw_dev b1) = durable (bw_dev b)"
    using bufio_flush_durable [of ?b] by simp
  then show ?case
    using 1 fl by (subst bufio_write.simps)
      (auto simp: Let_def dev_write_cases(4) split: prod.splits bool.splits)
qed

lemma dev_sync_cases:
  assumes "dev_sync d = (ok, d')"
  shows "written d' = written d" and "emsg d' = emsg d"
    and "ok \<Longrightarrow> durable d' = length (written d)" and "\<not> ok \<Longrightarrow> d' = d"
  using assms by (auto simp: dev_sync_def split: option.splits nat.splits)

lemma syncLocked_cases:
  assumes "syncLocked fsync l = (r, l')"
  shows "log_err l' = r" and "contents l' = contents l" and "log_policy l' = log_policy l"
    and "rewriting l' = rewriting l" and "rewriteTail l' = rewriteTail l"
    and "failed l \<Longrightarrow> l' = l"
    and "r = None \<Longrightarrow> bw_buf (bw l') = []"
    and "r = None \<Longrightarrow> fsync \<Longrightarrow> durable (bw_dev (bw l')) = length (written (bw_dev (bw l')))"
proof -
  obtain ok b where f: "bufio_flush (bw l) = (ok, b)"
    by (cases "bufio_flush (bw l)")
  obtain ok' d where d: "dev_sync (bw_dev b) = (ok', d)"
    by (cases "dev_sync (bw_dev b)")
  have c: "bufio_content b = contents l" "ok \<Longrightarrow> bw_buf b = []"
    using bufio_flush_content [of "bw l"] bufio_flush_ok(1) [of "bw l" b] f by auto
  note s = dev_sync_cases [OF d]
  show "log_err l' = r" "contents l' = contents l" "log_policy l' = log_policy l"
    "rewriting l' = rewriting l" "rewriteTail l' = rewriteTail l" "failed l \<Longrightarrow> l' = l"
    "r = None \<Longrightarrow> bw_buf (bw l') = []"
    "r = None \<Longrightarrow> fsync \<Longrightarrow> durable (bw_dev (bw l')) = length (written (bw_dev (bw l')))"
    using assms f d c s
    by (auto simp: syncLocked_def bufio_content_def split: if_splits bool.splits)
qed

lemma synced_on_disk:
  assumes "syncLocked True l = (None, l')"
  shows "on_disk (bw_dev (bw l')) = contents l"
  using syncLocked_cases [OF assms] by (simp add: on_disk_def bufio_content_def)

subsection \<open>Room in the buffer, and a disk that does not fill up\<close>

lemma bufio_flush_size:
  "bufio_flush b = (ok, b') \<Longrightarrow> bw_size b' = bw_size b \<and> length (bw_buf b') \<le> length (bw_buf b)"
  by (auto simp: bufio_flush_def split: if_splits prod.splits bool.splits)

lemma bufio_write_size:
  "bufio_write b p = (ok, b') \<Longrightarrow> buf_ok b \<Longrightarrow> bw_size b' = bw_size b \<and> buf_ok b'"
proof (induction b p arbitrary: ok b' rule: bufio_write.induct)
  case (1 b p)
  let ?n = "bw_size b - length (bw_buf b)"
  let ?b = "b\<lparr>bw_buf := bw_buf b @ take ?n p\<rparr>"
  obtain f b1 where fl: "bufio_flush ?b = (f, b1)"
    by (cases "bufio_flush ?b")
  have b1: "bw_size b1 = bw_size b" "buf_ok b1"
    using bufio_flush_size [OF fl] 1(3) by (auto simp: buf_ok_def)
  have e: "f \<Longrightarrow> b1\<lparr>bw_buf := []\<rparr> = b1"
    using bufio_flush_ok(1) [of ?b b1] fl by simp
  consider (err) "bw_err b" | (fits) "\<not> bw_err b" "length p \<le> ?n"
    | (direct) "\<not> bw_err b" "\<not> length p \<le> ?n" "bw_buf b = []"
    | (fill) "\<not> bw_err b" "\<not> length p \<le> ?n" "bw_buf b \<noteq> []"
    by blast
  then show ?case
  proof cases
    case fill
    show ?thesis
    proof (cases f)
      case True
      have "bufio_write b p = bufio_write b1 (drop ?n p)"
        using fill fl True e by (simp add: bufio_write.simps [of b p] Let_def)
      then show ?thesis
        using 1(1) [OF fill refl fl [symmetric], of ok b'] 1(2) b1 e True by simp
    next
      case False
      then have "b' = b1"
        using fill fl 1(2) by (simp add: bufio_write.simps [of b p] Let_def)
      with b1 show ?thesis by simp
    qed
  next
    case direct
    then have "bw_size b' = bw_size b" "bw_buf b' = []"
      using 1(2) by (auto simp: bufio_write.simps [of b p] split: prod.splits)
    then show ?thesis
      by (simp add: buf_ok_def)
  next
    case fits
    then have "b' = b\<lparr>bw_buf := bw_buf b @ p\<rparr>"
      using 1(2) by (simp add: bufio_write.simps [of b p])
    then show ?thesis
      using fits 1(3) by (simp add: buf_ok_def)
  next
    case err
    then show ?thesis
      using 1(2,3) by (simp add: bufio_write.simps [of b p])
  qed
qed

lemma put_size: "io_put bufio_write p b = (r, b') \<Longrightarrow> buf_ok b \<Longrightarrow> bw_size b' = bw_size b \<and> buf_ok b'"
  by (auto simp: io_put_def dest: bufio_write_size split: prod.splits)

lemma tame_put: "tame (io_put bufio_write p)"
  using put_size by (simp add: tame_def)

lemma tame_then:
  assumes "tame f" and "tame g"
  shows "tame (\<lambda>b. w_then (f b) g)"
  unfolding tame_def
proof (intro allI impI conjI)
  fix b r b' assume w: "w_then (f b) g = (r, b')" and b: "buf_ok b"
  obtain r1 b1 where f: "f b = (r1, b1)"
    by (cases "f b")
  then have "bw_size b1 = bw_size b" "buf_ok b1"
    using assms(1) b by (auto simp: tame_def)
  then have "bw_size b' = bw_size b \<and> buf_ok b'"
    using w f assms(2) unfolding tame_def
    by (cases r1) (auto simp: w_then_def)
  then show "bw_size b' = bw_size b" "buf_ok b'"
    by simp_all
qed

lemma tame_bulk: "tame (WriteBulkString bufio_write p)"
  using tame_then [OF tame_put tame_then [OF tame_put tame_put]]
  by (simp add: WriteBulkString_def [abs_def] writeCountLine_def)

lemma tame_bulks: "tame (writeBulks bufio_write args)"
proof (induction args)
  case Nil
  then show ?case
    by (simp add: tame_def)
next
  case (Cons a as)
  have "writeBulks bufio_write (a # as) =
      (\<lambda>w. w_then (WriteBulkString bufio_write a w) (writeBulks bufio_write as))"
    by (rule ext) simp
  with tame_then [OF tame_bulk Cons.IH] show ?case
    by simp
qed

lemma tame_command: "tame (writeCommand bufio_write args)"
  using tame_then [OF tame_put tame_bulks]
  by (simp add: writeCommand_def [abs_def] WriteArrayHeader_def writeCountLine_def)

lemma log_Append_healthy:
  assumes "healthy (bw l)" and "log_err l = None"
  shows "\<exists>l'. log_Append args l = (None, l') \<and> healthy (bw l')"
proof -
  obtain b where "writeCommand bufio_write args (bw l) = (WOk, b)" "healthy b"
    using bufio_w.emits_good [OF bufio_w.emits_command assms(1)] by blast
  with assms(2) show ?thesis
    by (simp add: log_Append_def Let_def)
qed

subsection \<open>Rewriting\<close>

lemma rewrite_snapshot_written:
  assumes "created E = Inr tmp" and "rewrite_snapshot E snapshot = Inr d"
  shows "written d = written tmp @ concat (map enc_command snapshot)"
proof -
  obtain b b' where b: "writeCommands snapshot (NewWriterSize aofBufSize tmp) = (WOk, b)"
    and f: "bufio_flush b = (True, b')" "d = bw_dev b'"
    using assms by (auto simp: rewrite_snapshot_def split: prod.splits wres.splits bool.splits)
  have "bufio_content b = written tmp @ concat (map enc_command snapshot)"
    using bufio_w.emits_ok [OF writeCommands_emits b]
    by (simp add: bufio_content_def NewWriterSize_def)
  then show ?thesis
    using bufio_flush_content [of b] bufio_flush_ok(1) [OF f(1)] f
    by (simp add: bufio_content_def)
qed

lemma endRewrite_simps [simp]:
  "bw (endRewrite l) = bw l" "log_err (endRewrite l) = log_err l" "\<not> rewriting (endRewrite l)"
  "rewriteTail (endRewrite l) = []" "log_policy (endRewrite l) = log_policy l"
  by (simp_all add: endRewrite_def)

lemma rewrite_install_cases:
  assumes "rewrite_install E tmp l = (r, l', f)"
  shows "log_policy l' = log_policy l \<and>
    (if r = None then
       (\<exists>d. f = Some d \<and> bw l' = NewWriterSize aofBufSize d \<and>
          written d = written tmp @ rewriteTail l \<and> on_disk d = written d \<and>
          log_err l = None \<and> log_err l' = None \<and> \<not> rewriting l' \<and> rewriteTail l' = [])
     else
       bw l' = bw l \<and> \<not> rewriting l' \<and>
       (case f of
          None \<Rightarrow> log_err l' = log_err l
        | Some d \<Rightarrow> log_err l = None \<and> log_err l' = r \<and>
            written d = written tmp @ rewriteTail l \<and> on_disk d = written d))"
proof -
  obtain n ok d1 where w: "dev_write tmp (rewriteTail l) = (n, ok, d1)"
    by (cases "dev_write tmp (rewriteTail l)")
  obtain ok' d2 where s: "dev_sync d1 = (ok', d2)"
    by (cases "dev_sync d1")
  have d2: "ok \<Longrightarrow> written d2 = written tmp @ rewriteTail l"
    "ok' \<Longrightarrow> durable d2 = length (written d2)"
    using dev_write_cases(1,2) [OF w] dev_sync_cases [OF s] by auto
  note u = assms [unfolded rewrite_install_def w prod.case]
  consider (idle) "\<not> rewriting l" | (err) "rewriting l" "log_err l \<noteq> None"
    | (short) "rewriting l" "log_err l = None" "\<not> ok"
    | (sync) "rewriting l" "log_err l = None" "ok" "\<not> ok'"
    | (close) e where "rewriting l" "log_err l = None" "ok" "ok'" "closed E = Some e"
    | (rename) e where "rewriting l" "log_err l = None" "ok" "ok'" "closed E = None" "renamed E = Some e"
    | (reopen) e where "rewriting l" "log_err l = None" "ok" "ok'" "closed E = None" "renamed E = None"
        "reopened E = Some e"
    | (success) "rewriting l" "log_err l = None" "ok" "ok'" "closed E = None" "renamed E = None"
        "reopened E = None"
    by (cases "closed E"; cases "renamed E"; cases "reopened E"; blast)
  then show ?thesis
    using u s d2 by cases (auto simp: on_disk_def)
qed

lemma rewriteTail_fold:
  assumes "rewriting l" and "\<not> failed (fold journal_append rs l)"
  shows "rewriting (fold journal_append rs l) \<and>
    rewriteTail (fold journal_append rs l) = rewriteTail l @ concat (map enc_command rs)"
  using assms
proof (induction rs arbitrary: l)
  case (Cons r rs)
  obtain e l1 where a: "log_Append r l = (e, l1)"
    by (cases "log_Append r l")
  then have j: "journal_append r l = l1"
    by (simp add: journal_append_def)
  with Cons.prems have "\<not> failed l1"
    using aof.fold_not_failed [of rs l1] by simp
  then have "rewriting l1" "rewriteTail l1 = rewriteTail l @ enc_command r"
    using log_Append_cases [OF a] Cons.prems(1) by auto
  with Cons.IH [of l1] Cons.prems(2) j show ?case
    by simp
qed simp

subsection \<open>A failed log\<close>

lemma run_log_failed:
  assumes "failed l"
  shows "log_err (run_log op l) = log_err l \<and> bw (run_log op l) = bw l"
proof (cases op)
  case (LInstall E tmp)
  obtain r l' f where r: "rewrite_install E tmp l = (r, l', f)"
    by (cases "rewrite_install E tmp l")
  show ?thesis
    using rewrite_install_cases [OF r] assms LInstall r by (auto split: if_splits option.splits)
qed (use assms in \<open>auto simp: journal_append_def log_Append_def Sync_def Flush_def SyncIfAlways_def
      syncLocked_def BeginRewrite_def abortRewrite_def Close_def\<close>)

section \<open>Properties\<close>

text \<open>
  C32: appending to the log either reports success, and then exactly the command's encoding has
  been added to the log (and to the tail of a rewrite in progress), or latches the error it
  reports, and then at most a prefix of the encoding has been added.
\<close>

theorem log_Append_spec:
  "case log_Append args l of
     (None, l') \<Rightarrow>
       contents l' = contents l @ enc_command args \<and> log_err l' = None \<and>
       rewriteTail l' = rewriteTail l @ (if rewriting l then enc_command args else [])
   | (Some e, l') \<Rightarrow>
       log_err l' = Some e \<and>
       (\<exists>p. prefix p (enc_command args) \<and> contents l' = contents l @ p)"
proof -
  obtain r l' where a: "log_Append args l = (r, l')"
    by (cases "log_Append args l")
  show ?thesis
    using log_Append_cases [OF a] by (cases r) (simp_all add: a)
qed

text \<open>
  C33: a successful \<^verbatim>\<open>Sync\<close> under the policies always and everysec puts everything in the log on
  the disk: whatever a crash of the machine then leaves behind is the complete log.
\<close>

theorem Sync_durable:
  assumes "log_policy l \<noteq> PolicyNo" and "Sync l = (None, l')" and "crash_file (bw_dev (bw l')) p"
  shows "p = contents l"
proof -
  have s: "syncLocked True l = (None, l')"
    using assms(1,2) by (simp add: Sync_def)
  have "written (bw_dev (bw l')) = contents l"
    using syncLocked_cases [OF s] by (simp add: bufio_content_def)
  with synced_on_disk [OF s] assms(3) show ?thesis
    by (auto simp: crash_file_def intro: prefix_order.antisym)
qed

theorem Sync_durable_witness:
  "\<exists>l'. Sync (journal_append [''DEL'', ''k''] (fresh_log PolicyAlways)) = (None, l') \<and>
     crash_file (bw_dev (bw l')) (enc_command [''DEL'', ''k'']) \<and>
     contents (journal_append [''DEL'', ''k''] (fresh_log PolicyAlways)) = enc_command [''DEL'', ''k'']"
proof -
  let ?l = "journal_append [''DEL'', ''k''] (fresh_log PolicyAlways)"
  have r: "fst (Sync ?l) = None" and p: "log_policy ?l \<noteq> PolicyNo"
    and c: "on_disk (bw_dev (bw (snd (Sync ?l)))) = enc_command [''DEL'', ''k'']"
      "written (bw_dev (bw (snd (Sync ?l)))) = enc_command [''DEL'', ''k'']"
    by code_simp+
  have s: "Sync ?l = (None, snd (Sync ?l))"
    using r by (metis prod.collapse)
  have "crash_file (bw_dev (bw (snd (Sync ?l)))) (enc_command [''DEL'', ''k''])"
    by (simp add: crash_file_def c)
  from Sync_durable [OF p s this] this s show ?thesis
    by metis
qed

text \<open>
  C34: once the log has failed it stays as it is: no operation clears the error, writes another
  byte or replaces the file, in any order.
\<close>

theorem failed_log_frozen:
  assumes "log_err l = Some e"
  shows "log_err (fold run_log ops l) = Some e \<and> bw (fold run_log ops l) = bw l"
  using assms
proof (induction ops arbitrary: l)
  case (Cons op ops)
  then show ?case
    using run_log_failed [of l op] by simp
qed simp

theorem failed_log_frozen_witness:
  "log_err (fold run_log [LAppend [''DEL'', ''k''], LSync, LBeginRewrite]
     ((fresh_log PolicyNo)\<lparr>log_err := Some ''EIO''\<rparr>)) = Some ''EIO''"
  using failed_log_frozen [of "(fresh_log PolicyNo)\<lparr>log_err := Some ''EIO''\<rparr>" "''EIO''"
      "[LAppend [''DEL'', ''k''], LSync, LBeginRewrite]"]
  by simp

text \<open>
  C9: a rewrite that succeeds installs a file that is, byte for byte and already on the disk, the
  snapshot followed by every record appended since it began, and the log goes on after it; one
  that fails leaves the log's file and buffer alone, and latches an error only if the path had
  already been given to the new file, which then is complete too.
\<close>

theorem FinishRewrite_spec:
  assumes "created E = Inr tmp" and "written tmp = []" and "rewriting l0"
    and "rewriteTail l0 = []" and "\<not> failed (fold journal_append rs l0)"
    and "FinishRewrite E snapshot (fold journal_append rs l0) = (r, l', f)"
  shows "case f of
      Some d \<Rightarrow>
        written d = concat (map enc_command (snapshot @ rs)) \<and> on_disk d = written d \<and>
        (if r = None then bw l' = NewWriterSize aofBufSize d \<and> log_err l' = None else log_err l' = r)
    | None \<Rightarrow> r \<noteq> None \<and> bw l' = bw (fold journal_append rs l0) \<and> log_err l' = None"
proof -
  let ?l = "fold journal_append rs l0"
  have t: "rewriteTail ?l = concat (map enc_command rs)" "log_err ?l = None"
    using rewriteTail_fold [OF assms(3,5)] assms(4,5) by auto
  show ?thesis
  proof (cases "rewrite_snapshot E snapshot")
    case (Inl e)
    then have "r = Some e" "l' = endRewrite ?l" "f = None"
      using assms(6) by (simp_all add: FinishRewrite_def abortRewrite_def)
    then show ?thesis
      using t by simp
  next
    case (Inr d0)
    then have i: "rewrite_install E d0 ?l = (r, l', f)"
      using assms(6) by (simp add: FinishRewrite_def)
    have "written d0 = concat (map enc_command snapshot)"
      using rewrite_snapshot_written [OF assms(1) Inr] assms(2) by simp
    then show ?thesis
      using rewrite_install_cases [OF i] t by (auto split: if_splits option.splits)
  qed
qed

theorem FinishRewrite_spec_witness:
  "\<exists>d. snd (snd (FinishRewrite calm [[''SET'', ''k'', ''v'']]
       (fold journal_append [[''DEL'', ''j'']] (snd (BeginRewrite (fresh_log PolicyNo)))))) = Some d \<and>
     written d = concat (map enc_command ([[''SET'', ''k'', ''v'']] @ [[''DEL'', ''j'']]))"
proof -
  let ?l0 = "snd (BeginRewrite (fresh_log PolicyNo))"
  let ?r = "FinishRewrite calm [[''SET'', ''k'', ''v'']] (fold journal_append [[''DEL'', ''j'']] ?l0)"
  have h: "rewriting ?l0" "rewriteTail ?l0 = []" "created calm = Inr fresh_dev" "written fresh_dev = []"
    by (simp_all add: BeginRewrite_def fresh_log_def calm_def fresh_dev_def)
  have "healthy (bw ?l0)" "log_err ?l0 = None"
    by (simp_all add: BeginRewrite_def fresh_log_def healthy_def NewWriterSize_def fresh_dev_def)
  then have nf: "\<not> failed (fold journal_append [[''DEL'', ''j'']] ?l0)"
    using log_Append_healthy [of ?l0 "[''DEL'', ''j'']"] log_Append_cases(1)
    by (auto simp: journal_append_def)
  obtain r l f where r: "?r = (r, l, f)"
    by (metis prod_cases3)
  have "snd (snd ?r) \<noteq> None"
    by code_simp
  then show ?thesis
    using FinishRewrite_spec [OF h(3,4,1,2) nf r] unfolding r by auto
qed

text \<open>
  \<^verbatim>\<open>Append\<close> is not buffer only: when a record does not fit in what is left of the buffer, the
  call itself writes to the file.
\<close>

theorem Append_writes_through:
  assumes "log_Append args l = (None, l')" and "length (bw_buf (bw l)) \<le> bw_size (bw l)"
    and "bw_size (bw l) < length (bw_buf (bw l)) + length (enc_command args)"
  shows "length (written (bw_dev (bw l))) < length (written (bw_dev (bw l')))"
proof -
  obtain w b where b: "writeCommand bufio_write args (bw l) = (w, b)"
    by (cases "writeCommand bufio_write args (bw l)")
  then have "bw l' = b"
    using assms(1) by (auto simp: log_Append_def Let_def split: if_splits wres.splits)
  then have "length (bw_buf (bw l')) \<le> bw_size (bw l)"
    using tame_command [of args] b assms(2) unfolding tame_def buf_ok_def by metis
  moreover have "length (contents l') = length (contents l) + length (enc_command args)"
    using log_Append_cases(5) [OF assms(1)] by simp
  ultimately show ?thesis
    using assms(3) by (simp add: bufio_content_def)
qed

theorem Append_writes_through_witness:
  "\<exists>l'. log_Append [replicate 65536 (CHR ''a'')] (fresh_log PolicyNo) = (None, l') \<and>
     0 < length (written (bw_dev (bw l')))"
proof -
  let ?args = "[replicate 65536 (CHR ''a'')]"
  have l: "bw_buf (bw (fresh_log PolicyNo)) = []" "bw_size (bw (fresh_log PolicyNo)) = 65536"
    "written (bw_dev (bw (fresh_log PolicyNo))) = []" "log_err (fresh_log PolicyNo) = None"
    "healthy (bw (fresh_log PolicyNo))"
    by (simp_all add: fresh_log_def NewWriterSize_def aofBufSize_def fresh_dev_def healthy_def)
  obtain l' where a: "log_Append ?args (fresh_log PolicyNo) = (None, l')"
    using log_Append_healthy [OF l(5,4)] by blast
  have "65536 < length (enc_command ?args)"
    by (simp add: enc_command_def enc_bulk_def count_line_def crlf_def)
  with Append_writes_through [OF a] l a show ?thesis
    by simp
qed

end
