(* ===== verification/Path_Match.thy ===== *)
theory Path_Match
  imports Prelude
begin

text \<open>
  \<^verbatim>\<open>path.Match\<close> of Go's standard library, which \<^verbatim>\<open>CONFIG GET\<close> matches its pattern with, and
  the decoding of UTF-8 it relies on.  \<open>None\<close> is the error for a malformed pattern.
\<close>

section \<open>Definitions\<close>

definition RuneError :: nat where "RuneError = 65533"

definition cont :: "char \<Rightarrow> bool" where
  "cont c \<longleftrightarrow> 128 \<le> byte_val c \<and> byte_val c \<le> 191"

text \<open>The range of the second byte of a sequence, and the length of the sequence, by its first.\<close>

definition lead :: "nat \<Rightarrow> (nat \<times> nat \<times> nat) option" where
  "lead b =
     (if 194 \<le> b \<and> b \<le> 223 then Some (2, 128, 191)
      else if b = 224 then Some (3, 160, 191)
      else if b = 237 then Some (3, 128, 159)
      else if 225 \<le> b \<and> b \<le> 239 then Some (3, 128, 191)
      else if b = 240 then Some (4, 144, 191)
      else if 241 \<le> b \<and> b \<le> 243 then Some (4, 128, 191)
      else if b = 244 then Some (4, 128, 143)
      else None)"

definition DecodeRune :: "bytes \<Rightarrow> nat \<times> nat" where
  "DecodeRune s =
     (case s of
        [] \<Rightarrow> (RuneError, 0)
      | c # cs \<Rightarrow>
          (let b = byte_val c in
           if b < 128 then (b, 1)
           else
             (case lead b of
                None \<Rightarrow> (RuneError, 1)
              | Some (n, lo, hi) \<Rightarrow>
                  (if length cs < n - 1 \<or> \<not> (lo \<le> byte_val (cs ! 0) \<and> byte_val (cs ! 0) \<le> hi) \<or>
                      list_ex (\<lambda>d. \<not> cont d) (take (n - 2) (drop 1 cs))
                   then (RuneError, 1)
                   else
                     (foldl (\<lambda>r d. r * 64 + byte_val d mod 64) (b mod 2 ^ (7 - n)) (take (n - 1) cs),
                      n)))))"

definition getEsc :: "bytes \<Rightarrow> (nat \<times> bytes) option" where
  "getEsc chunk =
     (if chunk = [] \<or> hd chunk = CHR ''-'' \<or> hd chunk = CHR '']'' then None
      else
        (let c = (if hd chunk = CHR 0x5C then tl chunk else chunk) in
         if c = [] then None
         else
           (case DecodeRune c of
              (r, n) \<Rightarrow>
                (if r = RuneError \<and> n = 1 then None
                 else if drop n c = [] then None
                 else Some (r, drop n c)))))"

lemma DecodeRune_size: "s \<noteq> [] \<Longrightarrow> 0 < snd (DecodeRune s)"
  by (auto simp: DecodeRune_def Let_def lead_def split: list.split)

lemma getEsc_shorter: "getEsc chunk = Some (r, c) \<Longrightarrow> length c < length chunk"
  using DecodeRune_size [of chunk] DecodeRune_size [of "tl chunk"]
  by (cases chunk) (auto simp: getEsc_def Let_def split: if_splits prod.splits)

text \<open>The ranges of a character class, after the negation sign: what is left of the chunk.\<close>

function class_loop :: "nat \<Rightarrow> bytes \<Rightarrow> nat \<Rightarrow> bool \<Rightarrow> (bytes \<times> bool) option" where
  "class_loop r chunk nrange m =
     (if chunk \<noteq> [] \<and> hd chunk = CHR '']'' \<and> 0 < nrange then Some (tl chunk, m)
      else
        (case getEsc chunk of
           None \<Rightarrow> None
         | Some (lo, c1) \<Rightarrow>
             (if hd c1 = CHR ''-'' then
                (case getEsc (tl c1) of
                   None \<Rightarrow> None
                 | Some (hi, c2) \<Rightarrow> class_loop r c2 (nrange + 1) (m \<or> (lo \<le> r \<and> r \<le> hi)))
              else class_loop r c1 (nrange + 1) (m \<or> (lo \<le> r \<and> r \<le> lo)))))"
  by pat_completeness auto
termination
  by (relation "measure (\<lambda>(r, chunk, nrange, m). length chunk)")
    (auto dest!: getEsc_shorter)

declare class_loop.simps [simp del]

lemma class_loop_shorter: "class_loop r chunk nrange m = Some (c, m') \<Longrightarrow> length c < length chunk"
proof (induction r chunk nrange m arbitrary: c m' rule: class_loop.induct)
  case (1 r chunk nrange m)
  show ?case
  proof (cases "chunk \<noteq> [] \<and> hd chunk = CHR '']'' \<and> 0 < nrange")
    case True
    with 1(3) have "c = tl chunk"
      by (simp add: class_loop.simps [of r chunk])
    with True show ?thesis
      by (cases chunk) simp_all
  next
    case False
    with 1(3) obtain lo c1 where g: "getEsc chunk = Some (lo, c1)"
      by (auto simp: class_loop.simps [of r chunk] split: option.splits)
    show ?thesis
    proof (cases "hd c1 = CHR ''-''")
      case True
      with 1(3) False g obtain hi c2 where h: "getEsc (tl c1) = Some (hi, c2)"
        by (auto simp: class_loop.simps [of r chunk] split: option.splits if_splits)
      with 1(3) False g True have "class_loop r c2 (nrange + 1) (m \<or> (lo \<le> r \<and> r \<le> hi)) = Some (c, m')"
        by (simp add: class_loop.simps [of r chunk])
      from 1(1) [OF False g refl True h refl this] getEsc_shorter [OF g] getEsc_shorter [OF h]
      show ?thesis by simp
    next
      case nodash: False
      with 1(3) False g have "class_loop r c1 (nrange + 1) (m \<or> (lo \<le> r \<and> r \<le> lo)) = Some (c, m')"
        by (simp add: class_loop.simps [of r chunk])
      from 1(2) [OF False g refl nodash this] getEsc_shorter [OF g] show ?thesis by simp
    qed
  qed
qed

text \<open>
  \<open>matchChunk chunk s failed\<close>: whether the chunk matches a prefix of \<open>s\<close>, and the rest of \<open>s\<close>.
  Once the match has failed the rest of the chunk is only checked for well-formedness.
\<close>

function matchChunk :: "bytes \<Rightarrow> bytes \<Rightarrow> bool \<Rightarrow> (bytes \<times> bool) option" where
  "matchChunk chunk s failed0 =
     (if chunk = [] then Some (if failed0 then ([], False) else (s, True))
      else
        (let failed = (failed0 \<or> s = []) in
         if hd chunk = CHR ''['' then
           (let (r, s1) = (if failed then (0, s) else (fst (DecodeRune s), drop (snd (DecodeRune s)) s));
                c1 = tl chunk;
                negated = (c1 \<noteq> [] \<and> hd c1 = CHR ''^'') in
            case class_loop r (if negated then tl c1 else c1) 0 False of
              None \<Rightarrow> None
            | Some (c2, m) \<Rightarrow> matchChunk c2 s1 (failed \<or> m = negated))
         else if hd chunk = CHR ''?'' then
           (if failed then matchChunk (tl chunk) s True
            else matchChunk (tl chunk) (drop (snd (DecodeRune s)) s) (hd s = CHR ''/''))
         else
           (let c1 = (if hd chunk = CHR 0x5C then tl chunk else chunk) in
            if c1 = [] then None
            else if failed then matchChunk (tl c1) s True
            else matchChunk (tl c1) (tl s) (hd c1 \<noteq> hd s))))"
  by pat_completeness auto
termination
proof (relation "measure (\<lambda>(chunk, s, f). length chunk)", goal_cases)
  case (2 chunk s f failed x r s1 c1 negated a c2 m)
  then have "length c2 < length (if negated then tl c1 else c1)"
    using class_loop_shorter by blast
  with 2 show ?case
    by (cases chunk) (auto split: if_splits)
qed (auto split: if_splits)

declare matchChunk.simps [simp del]

fun scan_body :: "bool \<Rightarrow> bytes \<Rightarrow> bytes \<times> bytes" where
  "scan_body inrange [] = ([], [])"
| "scan_body inrange (c # s) =
     (if c = CHR 0x5C then
        (case s of
           [] \<Rightarrow> ([c], [])
         | d # s' \<Rightarrow> (case scan_body inrange s' of (chunk, rest) \<Rightarrow> (c # d # chunk, rest)))
      else if c = CHR ''*'' \<and> \<not> inrange then ([], c # s)
      else
        (case scan_body (if c = CHR ''['' then True else if c = CHR '']'' then False else inrange) s of
           (chunk, rest) \<Rightarrow> (c # chunk, rest)))"

definition scanChunk :: "bytes \<Rightarrow> bool \<times> bytes \<times> bytes" where
  "scanChunk pattern =
     (let p = dropWhile (\<lambda>c. c = CHR ''*'') pattern in
      (pattern \<noteq> [] \<and> hd pattern = CHR ''*'', scan_body False p))"

text \<open>After a mismatch: is the remainder of the pattern well formed?\<close>

lemma scan_body_append: "scan_body b s = (chunk, rest) \<Longrightarrow> chunk @ rest = s"
proof (induction s arbitrary: b chunk rest rule: length_induct)
  case (1 s)
  show ?case
  proof (cases s)
    case (Cons c s')
    have ih: "scan_body b' s'' = (x, y) \<Longrightarrow> length s'' \<le> length s' \<Longrightarrow> x @ y = s''" for b' s'' x y
      using 1(1) Cons by (simp add: le_imp_less_Suc)
    from 1(2) show ?thesis
      unfolding Cons scan_body.simps(2)
      by (auto simp del: scan_body.simps split: if_splits list.splits prod.splits dest!: ih)
  qed (use 1 in simp)
qed

lemma scan_body_nonempty: "c \<noteq> CHR ''*'' \<Longrightarrow> fst (scan_body False (c # s)) \<noteq> []"
  unfolding scan_body.simps(2) by (auto simp del: scan_body.simps split: list.splits prod.splits)

lemma scanChunk_shorter:
  assumes "scanChunk pattern = (star, chunk, rest)" and "pattern \<noteq> []"
  shows "length rest < length pattern"
proof -
  let ?p = "dropWhile (\<lambda>c. c = CHR ''*'') pattern"
  have b: "scan_body False ?p = (chunk, rest)"
    using assms(1) by (simp add: scanChunk_def Let_def)
  have len: "length chunk + length rest = length ?p"
    using arg_cong [OF scan_body_append [OF b], of length] by simp
  have l: "length ?p \<le> length pattern"
    by (rule length_dropWhile_le)
  show ?thesis
  proof (cases "hd pattern = CHR ''*''")
    case True
    with assms(2) have "length ?p < length pattern"
      by (cases pattern) (simp_all add: le_imp_less_Suc length_dropWhile_le)
    with len show ?thesis
      by linarith
  next
    case False
    with assms(2) have p: "?p = pattern"
      by (cases pattern) auto
    with False assms(2) b scan_body_nonempty [of "hd pattern" "tl pattern"] have "chunk \<noteq> []"
      by simp
    then have "length chunk \<noteq> 0"
      by simp
    with len l show ?thesis
      by linarith
  qed
qed

function check_rest :: "bytes \<Rightarrow> bool option" where
  "check_rest pattern =
     (if pattern = [] then Some False
      else
        (case scanChunk pattern of
           (star, chunk, rest) \<Rightarrow>
             (case matchChunk chunk [] False of None \<Rightarrow> None | Some _ \<Rightarrow> check_rest rest)))"
  by pat_completeness auto
termination
  by (relation "measure length") (auto dest: scanChunk_shorter [OF sym])

declare check_rest.simps [simp del]

text \<open>
  With a star before the chunk: try it after skipping one more byte each time, never a slash.
  \<open>Some None\<close> is that no position matches.
\<close>

fun skip_match :: "bool \<Rightarrow> bytes \<Rightarrow> bytes \<Rightarrow> bytes option option" where
  "skip_match last_chunk chunk [] = Some None"
| "skip_match last_chunk chunk (c # name) =
     (if c = CHR ''/'' then Some None
      else
        (case matchChunk chunk name False of
           None \<Rightarrow> None
         | Some (t, True) \<Rightarrow>
             (if last_chunk \<and> 0 < length t then skip_match last_chunk chunk name else Some (Some t))
         | Some (t, False) \<Rightarrow> skip_match last_chunk chunk name))"

function Match :: "bytes \<Rightarrow> bytes \<Rightarrow> bool option" where
  "Match pattern name =
     (if pattern = [] then Some (name = [])
      else
        (case scanChunk pattern of
           (star, chunk, rest) \<Rightarrow>
             (if star \<and> chunk = [] then Some (CHR ''/'' \<notin> set name)
              else
                (case matchChunk chunk name False of
                   None \<Rightarrow> None
                 | Some (t, ok) \<Rightarrow>
                     (if ok \<and> (t = [] \<or> rest \<noteq> []) then Match rest t
                      else if star then
                        (case skip_match (rest = []) chunk name of
                           None \<Rightarrow> None
                         | Some (Some t') \<Rightarrow> Match rest t'
                         | Some None \<Rightarrow> check_rest rest)
                      else check_rest rest)))))"
  by pat_completeness auto
termination
  by (relation "measure (\<lambda>(pattern, name). length pattern)") (auto dest: scanChunk_shorter [OF sym])

declare Match.simps [simp del]

definition literal :: "bytes \<Rightarrow> bool" where
  "literal p \<longleftrightarrow> (\<forall>c \<in> set p. c \<notin> {CHR ''*'', CHR ''?'', CHR ''['', CHR 0x5C})"

section \<open>Lemmas\<close>

lemma scan_literal: "literal p \<Longrightarrow> scan_body False p = (p, [])"
  by (induction p) (auto simp: literal_def)

lemma matchChunk_literal:
  "literal p \<Longrightarrow> matchChunk p s failed =
     Some (if failed \<or> \<not> prefix p s then ([], False) else (drop (length p) s, True))"
proof (induction p arbitrary: s failed)
  case Nil
  then show ?case by (simp add: matchChunk.simps)
next
  case (Cons c p)
  then have c: "c \<noteq> CHR ''*''" "c \<noteq> CHR ''?''" "c \<noteq> CHR ''[''" "c \<noteq> CHR 0x5C" "literal p"
    by (auto simp: literal_def)
  show ?case
    using c Cons.IH by (subst matchChunk.simps) (cases s, auto simp: Let_def)
qed

text \<open>A pattern without special characters matches itself and nothing else.\<close>

lemma Match_literal:
  assumes "literal p"
  shows "Match p name = Some (p = name)"
proof (cases "p = []")
  case True
  then show ?thesis by (auto simp: Match.simps)
next
  case False
  then have "hd p \<noteq> CHR ''*''"
    using assms by (cases p) (auto simp: literal_def)
  then have "dropWhile (\<lambda>c. c = CHR ''*'') p = p"
    using False by (cases p) simp_all
  with \<open>hd p \<noteq> CHR ''*''\<close> have sc: "scanChunk p = (False, p, [])"
    by (simp add: scanChunk_def scan_literal [OF assms])
  show ?thesis
    using False by (subst Match.simps)
      (auto simp: sc matchChunk_literal [OF assms] Match.simps [of "[]"] check_rest.simps prefix_def)
qed

lemma Match_star: "Match ''*'' name = Some (CHR ''/'' \<notin> set name)"
  by (subst Match.simps) (simp add: scanChunk_def)

end
