(* ===== verification/Commands.thy ===== *)
theory Commands
  imports Keyspace Aof Path_Match
begin

text \<open>
  The command table, the handlers and \<^verbatim>\<open>dispatch\<close> of \<^verbatim>\<open>internal/server/commands.go\<close>, with the
  server's state of \<^verbatim>\<open>internal/server/server.go\<close>.

  A handler takes the reply writer (\<open>wr\<close>, with state \<open>w\<close>) as the methods of \<^verbatim>\<open>resp.Writer\<close>
  do, and returns how its writes ended, the new server and the new writer.  What a command
  takes from outside is the record \<open>env\<close>: its readings of the clock, in order; the order in
  which the eviction loops meet the keys; and the Unicode tables.  An argument the arity does
  not promise is a panic, as indexing beyond a slice is.

  The server's pointer to the log and the store's journal are the same object
  (\<^verbatim>\<open>AttachAOF\<close>), so the log is kept once, in the store.
\<close>

section \<open>State\<close>

record Config =
  AppendOnly :: bool
  AppendFsync :: bytes
  AppendFilename :: bytes
  Dir :: bytes

record server =
  keyspace_of :: "Log store"
  config :: Config
  connections :: int
  command_calls :: "64 word"
  rewriteWG :: nat

abbreviation aof_of :: "server \<Rightarrow> Log option" where
  "aof_of s \<equiv> journal (keyspace_of s)"

record env =
  clk :: "nat \<Rightarrow> time"
  evict_order :: "nat \<Rightarrow> nat \<Rightarrow> key list"
  unicode_of :: unicode

type_synonym 'w outcome = "wres \<times> server \<times> 'w"
type_synonym 'w writer = "'w \<Rightarrow> bytes \<Rightarrow> bool \<times> 'w"
type_synonym 'w handler = "env \<Rightarrow> 'w writer \<Rightarrow> bytes list \<Rightarrow> server \<Rightarrow> 'w \<Rightarrow> 'w outcome"

record 'w command =
  minArgs :: int
  maxArgs :: int
  writes :: bool
  fn :: "'w handler"

definition server_New :: server where
  "server_New =
     \<lparr>keyspace_of = New,
      config = \<lparr>AppendOnly = False, AppendFsync = [], AppendFilename = [], Dir = []\<rparr>,
      connections = 0, command_calls = 0, rewriteWG = 0\<rparr>"

definition reply :: "server \<Rightarrow> wres \<times> 'w \<Rightarrow> 'w outcome" where
  "reply s r = (case r of (res, w) \<Rightarrow> (res, s, w))"

definition with_store :: "Log store \<Rightarrow> server \<Rightarrow> server" where
  "with_store st s = s\<lparr>keyspace_of := st\<rparr>"

section \<open>Error texts\<close>

definition quoted :: "bytes \<Rightarrow> bytes" where
  "quoted s = [CHR 0x27] @ s @ [CHR 0x27]"

definition safeName :: "bytes \<Rightarrow> bytes" where
  "safeName name =
     (let truncated = (length name > 128);
          n = (if truncated then take 128 name else name);
          b = map (\<lambda>c. if 32 \<le> byte_val c \<and> byte_val c < 127 \<and> c \<noteq> CHR 0x27 then c else CHR ''.'') n
      in if truncated then b @ ''...'' else b)"

definition wrongArity :: "unicode \<Rightarrow> 'w writer \<Rightarrow> bytes \<Rightarrow> 'w \<Rightarrow> wres \<times> 'w" where
  "wrongArity U wr name w =
     WriteError wr (''ERR wrong number of arguments for '' @ quoted (ToLower U (safeName name)) @
       '' command'') w"

definition errSyntax :: bytes where "errSyntax = ''ERR syntax error''"

definition errNotInteger :: bytes where
  "errNotInteger = ''ERR value is not an integer or out of range''"

section \<open>Handlers\<close>

subsection \<open>Connection\<close>

definition ping :: "'w handler" where
  "ping E wr args s w =
     reply s (if length args = 1 then WriteBulkString wr (args ! 0) w
              else WriteSimpleString wr ''PONG'' w)"

definition echo :: "'w handler" where
  "echo E wr args s w =
     (if args = [] then (WPanic, s, w) else reply s (WriteBulkString wr (args ! 0) w))"

subsection \<open>Keyspace\<close>

record expiryOption =
  expiry_unit :: duration
  absolute :: bool

definition expiryOptions :: "bytes \<Rightarrow> expiryOption option" where
  "expiryOptions = map_of
     [(''EX'', \<lparr>expiry_unit = Second, absolute = False\<rparr>),
      (''PX'', \<lparr>expiry_unit = Millisecond, absolute = False\<rparr>),
      (''EXAT'', \<lparr>expiry_unit = Second, absolute = True\<rparr>),
      (''PXAT'', \<lparr>expiry_unit = Millisecond, absolute = True\<rparr>)]"

definition parseTTL :: "bytes \<Rightarrow> duration \<Rightarrow> duration option" where
  "parseTTL arg u =
     (case ParseInt arg of
        Inl _ \<Rightarrow> None
      | Inr n \<Rightarrow>
          (if n > go_div maxInt64 u \<or> n < go_div minInt64 u then None else Some (wrap64 (n * u))))"

definition epochPlus :: "duration \<Rightarrow> time" where
  "epochPlus d = time_add unixEpoch d"

definition set_cmd :: "'w handler" where
  "set_cmd E wr args s w =
     (if length args < 2 then (WPanic, s, w)
      else
        (let key = args ! 0; v = args ! 1; st = keyspace_of s in
         if length args = 2 then
           reply (with_store (Set journal_append key v st) s) (WriteSimpleString wr ''OK'' w)
         else if length args = 4 then
           (case expiryOptions (ToUpper (unicode_of E) (args ! 2)) of
              None \<Rightarrow> reply s (WriteError wr errSyntax w)
            | Some opt \<Rightarrow>
                (case parseTTL (args ! 3) (expiry_unit opt) of
                   None \<Rightarrow> reply s (WriteError wr errNotInteger w)
                 | Some n \<Rightarrow>
                     (if n \<le> 0 then
                        reply s (WriteError wr (''ERR invalid expire time in '' @ quoted ''set'' @ '' command'') w)
                      else
                        (let st' =
                           (if absolute opt
                            then SetWithDeadline journal_append (clk E 0) (clk E 1) key v (epochPlus n) st
                            else SetWithTTL journal_append (clk E 0) key v n st)
                         in reply (with_store st' s) (WriteSimpleString wr ''OK'' w)))))
         else reply s (WriteError wr errSyntax w)))"

definition write_value :: "'w writer \<Rightarrow> bytes option \<Rightarrow> 'w \<Rightarrow> wres \<times> 'w" where
  "write_value wr v w =
     (case v of None \<Rightarrow> WriteNullBulkString wr w | Some x \<Rightarrow> WriteBulkString wr x w)"

definition get :: "'w handler" where
  "get E wr args s w =
     (if args = [] then (WPanic, s, w)
      else
        (case Get (clk E 0) (clk E 1) (args ! 0) (keyspace_of s) of
           (v, st) \<Rightarrow> reply (with_store st s) (write_value wr v w)))"

text \<open>The loop of \<^verbatim>\<open>MGET\<close>; the \<open>i\<close>-th key takes the readings \<open>2 * i\<close> and \<open>2 * i + 1\<close>.\<close>

fun mget_loop :: "env \<Rightarrow> 'w writer \<Rightarrow> nat \<Rightarrow> bytes list \<Rightarrow> server \<Rightarrow> 'w \<Rightarrow> 'w outcome" where
  "mget_loop E wr i [] s w = (WOk, s, w)"
| "mget_loop E wr i (key # args) s w =
     (case Get (clk E (2 * i)) (clk E (2 * i + 1)) key (keyspace_of s) of
        (v, st) \<Rightarrow>
          (case write_value wr v w of
             (WOk, w') \<Rightarrow> mget_loop E wr (i + 1) args (with_store st s) w'
           | (r, w') \<Rightarrow> (r, with_store st s, w')))"

definition mget :: "'w handler" where
  "mget E wr args s w =
     (case WriteArrayHeader wr (length args) w of
        (WOk, w') \<Rightarrow> mget_loop E wr 0 args s w'
      | (r, w') \<Rightarrow> (r, s, w'))"

fun arg_pairs :: "bytes list \<Rightarrow> Pair list" where
  "arg_pairs (k # v # args) = \<lparr>Key = k, Value = v\<rparr> # arg_pairs args"
| "arg_pairs _ = []"

definition mset :: "'w handler" where
  "mset E wr args s w =
     (if length args mod 2 \<noteq> 0 then reply s (wrongArity (unicode_of E) wr ''MSET'' w)
      else
        reply (with_store (MSet journal_append (arg_pairs args) (keyspace_of s)) s)
          (WriteSimpleString wr ''OK'' w))"

definition increment :: "env \<Rightarrow> 'w writer \<Rightarrow> bytes \<Rightarrow> int \<Rightarrow> server \<Rightarrow> 'w \<Rightarrow> 'w outcome" where
  "increment E wr key delta s w =
     (case Increment journal_append (clk E 0) key delta (keyspace_of s) of
        (Inl _, st) \<Rightarrow> reply (with_store st s) (WriteError wr errNotInteger w)
      | (Inr n, st) \<Rightarrow> reply (with_store st s) (WriteInteger wr n w))"

definition incr :: "'w handler" where
  "incr E wr args s w = (if args = [] then (WPanic, s, w) else increment E wr (args ! 0) 1 s w)"

definition decr :: "'w handler" where
  "decr E wr args s w = (if args = [] then (WPanic, s, w) else increment E wr (args ! 0) (- 1) s w)"

definition append_cmd :: "'w handler" where
  "append_cmd E wr args s w =
     (if length args < 2 then (WPanic, s, w)
      else
        (case Append journal_append (clk E 0) (args ! 0) (args ! 1) (keyspace_of s) of
           (n, st) \<Rightarrow> reply (with_store st s) (WriteInteger wr (int n) w)))"

definition strlen :: "'w handler" where
  "strlen E wr args s w =
     (if args = [] then (WPanic, s, w)
      else
        (case Get (clk E 0) (clk E 1) (args ! 0) (keyspace_of s) of
           (None, st) \<Rightarrow> reply (with_store st s) (WriteInteger wr 0 w)
         | (Some v, st) \<Rightarrow> reply (with_store st s) (WriteInteger wr (int (length v)) w)))"

definition keys_of :: "bytes list \<Rightarrow> key list" where
  "keys_of args = map (\<lambda>a. a) args"

definition del :: "'w handler" where
  "del E wr args s w =
     (case Del journal_append (clk E 0) (keys_of args) (keyspace_of s) of
        (n, st) \<Rightarrow> reply (with_store st s) (WriteInteger wr (int n) w))"

definition exists :: "'w handler" where
  "exists E wr args s w =
     reply s (WriteInteger wr (int (Exists (clk E 0) (keys_of args) (keyspace_of s))) w)"

definition dbsize :: "'w handler" where
  "dbsize E wr args s w = reply s (WriteInteger wr (int (DBSize (clk E 0) (keyspace_of s))) w)"

subsection \<open>Introspection\<close>

definition field :: "bytes \<Rightarrow> bytes \<Rightarrow> bytes" where
  "field name v = name @ '':'' @ v @ crlf"

definition itoa :: "int \<Rightarrow> bytes" where
  "itoa n = formatInt n"

definition utoa :: "64 word \<Rightarrow> bytes" where
  "utoa n = formatUint (unat n)"

text \<open>The sections of \<^verbatim>\<open>INFO\<close>, in the order they are written.\<close>

definition info_sections :: "env \<Rightarrow> server \<Rightarrow> (bytes \<times> bytes) list" where
  "info_sections E s =
     (let st = keyspace_of s; c = stats st in
      [(''memory'', ''# Memory'' @ crlf @ field ''used_memory'' (itoa (Used st)) @
          field ''maxmemory'' (itoa (MaxMemory st)) @ field ''maxmemory_policy'' (Policy st)),
       (''stats'', ''# Stats'' @ crlf @ field ''keyspace_hits'' (utoa (KeyspaceHits c)) @
          field ''keyspace_misses'' (utoa (KeyspaceMisses c)) @
          field ''evicted_keys'' (utoa (EvictedKeys c)) @ field ''expired_keys'' (utoa (ExpiredKeys c))),
       (''clients'', ''# Clients'' @ crlf @ field ''connected_clients'' (itoa (connections s))),
       (''stats'', field ''total_commands_processed'' (utoa (command_calls s))),
       (''persistence'', ''# Persistence'' @ crlf @
          field ''aof_enabled'' (if aof_of s \<noteq> None then ''1'' else ''0'')),
       (''keyspace'', ''# Keyspace'' @ crlf @ ''db0:keys='' @ itoa (int (DBSize (clk E 0) st)) @ crlf)])"

definition info :: "'w handler" where
  "info E wr args s w =
     (let section = (if length args = 1 then ToLower (unicode_of E) (args ! 0) else ''all'');
          out = concat (map snd (filter (\<lambda>(name, body). section = ''all'' \<or> section = name)
                  (info_sections E s)))
      in reply s (WriteBulkString wr out w))"

definition settings_of :: "server \<Rightarrow> (bytes \<times> bytes) list" where
  "settings_of s =
     [(''maxmemory'', formatInt (MaxMemory (keyspace_of s))),
      (''maxmemory-policy'', Policy (keyspace_of s)),
      (''appendonly'', if AppendOnly (config s) then ''yes'' else ''no''),
      (''appendfsync'', AppendFsync (config s)),
      (''appendfilename'', AppendFilename (config s)),
      (''dir'', Dir (config s))]"

text \<open>The settings whose names match, or \<open>None\<close> at the first one for which the pattern is bad.\<close>

fun matching :: "bytes \<Rightarrow> (bytes \<times> bytes) list \<Rightarrow> (bytes \<times> bytes) list option" where
  "matching pattern [] = Some []"
| "matching pattern ((name, v) # rest) =
     (case Match pattern name of
        None \<Rightarrow> None
      | Some ok \<Rightarrow>
          (case matching pattern rest of
             None \<Rightarrow> None
           | Some ms \<Rightarrow> Some (if ok then (name, v) # ms else ms)))"

fun write_settings :: "'w writer \<Rightarrow> (bytes \<times> bytes) list \<Rightarrow> 'w \<Rightarrow> wres \<times> 'w" where
  "write_settings wr [] w = (WOk, w)"
| "write_settings wr ((name, v) # rest) w =
     w_then (WriteBulkString wr name w)
       (\<lambda>w. w_then (WriteBulkString wr v w) (write_settings wr rest))"

text \<open>
  \<^verbatim>\<open>strings.EqualFold\<close> against \<^verbatim>\<open>GET\<close>: no letter of it has a case variant beyond ASCII.
\<close>

definition is_GET :: "bytes \<Rightarrow> bool" where
  "is_GET s \<longleftrightarrow> map upper s = ''GET''"

definition configGet :: "'w handler" where
  "configGet E wr args s w =
     (if args = [] then (WPanic, s, w)
      else if \<not> is_GET (args ! 0) then reply s (WriteError wr ''ERR unsupported CONFIG subcommand'' w)
      else if length args \<noteq> 2 then reply s (wrongArity (unicode_of E) wr ''CONFIG'' w)
      else
        (case matching (args ! 1) (settings_of s) of
           None \<Rightarrow> reply s (WriteError wr ''ERR invalid CONFIG pattern'' w)
         | Some ms \<Rightarrow>
             reply s (w_then (WriteArrayHeader wr (length ms * 2) w) (write_settings wr ms))))"

text \<open>
  \<^verbatim>\<open>BGREWRITEAOF\<close> begins the rewrite and leaves the rest to a goroutine, which is counted in
  \<open>rewriteWG\<close> and whose body is \<open>rewrite_goroutine\<close>.
\<close>

definition bgrewriteaof :: "'w handler" where
  "bgrewriteaof E wr args s w =
     (case aof_of s of
        None \<Rightarrow> reply s (WriteError wr ''ERR BGREWRITEAOF called without appendonly enabled'' w)
      | Some l \<Rightarrow>
          (case BeginRewrite l of
             (Some e, l') \<Rightarrow>
               reply (with_store ((keyspace_of s)\<lparr>journal := Some l'\<rparr>) s) (WriteError wr (''ERR '' @ e) w)
           | (None, l') \<Rightarrow>
               reply ((with_store ((keyspace_of s)\<lparr>journal := Some l'\<rparr>) s)\<lparr>rewriteWG := rewriteWG s + 1\<rparr>)
                 (WriteSimpleString wr ''Background append only file rewriting started'' w)))"

definition rewrite_goroutine ::
  "rewrite_env \<Rightarrow> (nat \<Rightarrow> key list) \<Rightarrow> time \<Rightarrow> server \<Rightarrow> server \<times> dev option" where
  "rewrite_goroutine F pref now s =
     (case aof_of s of
        None \<Rightarrow> (s, None)
      | Some l \<Rightarrow>
          (case FinishRewrite F (AOFSnapshot pref now (keyspace_of s)) l of
             (r, l', f) \<Rightarrow>
               ((with_store ((keyspace_of s)\<lparr>journal := Some l'\<rparr>) s)\<lparr>rewriteWG := rewriteWG s - 1\<rparr>, f)))"

subsection \<open>Deadlines\<close>

definition flag_reply :: "'w writer \<Rightarrow> bool \<Rightarrow> 'w \<Rightarrow> wres \<times> 'w" where
  "flag_reply wr b w = (if b then WriteInteger wr 1 w else WriteInteger wr 0 w)"

definition expireAtIn :: "duration \<Rightarrow> 'w handler" where
  "expireAtIn u E wr args s w =
     (if length args < 2 then (WPanic, s, w)
      else
        (case parseTTL (args ! 1) u of
           None \<Rightarrow> reply s (WriteError wr errNotInteger w)
         | Some n \<Rightarrow>
             (case ExpireAt journal_append (clk E 0) (args ! 0) (epochPlus n) (keyspace_of s) of
                (b, st) \<Rightarrow> reply (with_store st s) (flag_reply wr b w))))"

definition expireIn :: "duration \<Rightarrow> 'w handler" where
  "expireIn u E wr args s w =
     (if length args < 2 then (WPanic, s, w)
      else
        (case parseTTL (args ! 1) u of
           None \<Rightarrow> reply s (WriteError wr errNotInteger w)
         | Some t \<Rightarrow>
             (case Expire journal_append (clk E 0) (clk E 1) (args ! 0) t (keyspace_of s) of
                (b, st) \<Rightarrow> reply (with_store st s) (flag_reply wr b w))))"

definition expire :: "'w handler" where "expire = expireIn Second"

definition pexpire :: "'w handler" where "pexpire = expireIn Millisecond"

definition expireat :: "'w handler" where "expireat = expireAtIn Second"

definition pexpireat :: "'w handler" where "pexpireat = expireAtIn Millisecond"

definition ttl_units :: "duration \<Rightarrow> duration \<Rightarrow> int" where
  "ttl_units d u =
     (let n = go_div (wrap64 (d + go_div u 2)) u in if n < 1 then 1 else n)"

definition ttlIn :: "duration \<Rightarrow> 'w handler" where
  "ttlIn u E wr args s w =
     (if args = [] then (WPanic, s, w)
      else
        (case TTL (clk E 0) (args ! 0) (keyspace_of s) of
           (d, KeyMissing) \<Rightarrow> reply s (WriteInteger wr (- 2) w)
         | (d, KeyPersistent) \<Rightarrow> reply s (WriteInteger wr (- 1) w)
         | (d, KeyVolatile) \<Rightarrow> reply s (WriteInteger wr (ttl_units d u) w)))"

definition ttl :: "'w handler" where "ttl = ttlIn Second"

definition pttl :: "'w handler" where "pttl = ttlIn Millisecond"

section \<open>Dispatch\<close>

definition commands :: "bytes \<Rightarrow> 'w command option" where
  "commands = map_of
     [(''PING'', \<lparr>minArgs = 0, maxArgs = 1, writes = False, fn = ping\<rparr>),
      (''ECHO'', \<lparr>minArgs = 1, maxArgs = 1, writes = False, fn = echo\<rparr>),
      (''SET'', \<lparr>minArgs = 2, maxArgs = 4, writes = True, fn = set_cmd\<rparr>),
      (''MSET'', \<lparr>minArgs = 2, maxArgs = - 1, writes = True, fn = mset\<rparr>),
      (''GET'', \<lparr>minArgs = 1, maxArgs = 1, writes = False, fn = get\<rparr>),
      (''MGET'', \<lparr>minArgs = 1, maxArgs = - 1, writes = False, fn = mget\<rparr>),
      (''INCR'', \<lparr>minArgs = 1, maxArgs = 1, writes = True, fn = incr\<rparr>),
      (''DECR'', \<lparr>minArgs = 1, maxArgs = 1, writes = True, fn = decr\<rparr>),
      (''APPEND'', \<lparr>minArgs = 2, maxArgs = 2, writes = True, fn = append_cmd\<rparr>),
      (''STRLEN'', \<lparr>minArgs = 1, maxArgs = 1, writes = False, fn = strlen\<rparr>),
      (''DEL'', \<lparr>minArgs = 1, maxArgs = - 1, writes = True, fn = del\<rparr>),
      (''EXISTS'', \<lparr>minArgs = 1, maxArgs = - 1, writes = False, fn = exists\<rparr>),
      (''EXPIRE'', \<lparr>minArgs = 2, maxArgs = 2, writes = True, fn = expire\<rparr>),
      (''PEXPIRE'', \<lparr>minArgs = 2, maxArgs = 2, writes = True, fn = pexpire\<rparr>),
      (''EXPIREAT'', \<lparr>minArgs = 2, maxArgs = 2, writes = True, fn = expireat\<rparr>),
      (''PEXPIREAT'', \<lparr>minArgs = 2, maxArgs = 2, writes = True, fn = pexpireat\<rparr>),
      (''TTL'', \<lparr>minArgs = 1, maxArgs = 1, writes = False, fn = ttl\<rparr>),
      (''PTTL'', \<lparr>minArgs = 1, maxArgs = 1, writes = False, fn = pttl\<rparr>),
      (''DBSIZE'', \<lparr>minArgs = 0, maxArgs = 0, writes = False, fn = dbsize\<rparr>),
      (''INFO'', \<lparr>minArgs = 0, maxArgs = 1, writes = False, fn = info\<rparr>),
      (''CONFIG'', \<lparr>minArgs = 2, maxArgs = - 1, writes = False, fn = configGet\<rparr>),
      (''BGREWRITEAOF'', \<lparr>minArgs = 0, maxArgs = 0, writes = False, fn = bgrewriteaof\<rparr>)]"

definition arity_ok :: "'w command \<Rightarrow> bytes list \<Rightarrow> bool" where
  "arity_ok cmd args \<longleftrightarrow>
     \<not> (int (length args) < minArgs cmd \<or> (maxArgs cmd \<ge> 0 \<and> int (length args) > maxArgs cmd))"

definition aof_failed :: "server \<Rightarrow> bool" where
  "aof_failed s \<longleftrightarrow> (case aof_of s of None \<Rightarrow> False | Some l \<Rightarrow> Err l \<noteq> None)"

text \<open>The memory check before a write: whether it may go on, and the store after evictions.\<close>

definition make_room :: "env \<Rightarrow> server \<Rightarrow> bool \<times> server" where
  "make_room E s =
     (case EnforceMemoryLimit journal_append (evict_order E) (keyspace_of s) of
        ((_, ok), st) \<Rightarrow> (ok, with_store st s))"

definition sync_reply :: "server \<Rightarrow> server" where
  "sync_reply s =
     (case aof_of s of
        None \<Rightarrow> s
      | Some l \<Rightarrow> with_store ((keyspace_of s)\<lparr>journal := Some (snd (SyncIfAlways l))\<rparr>) s)"

definition dispatch :: "'w handler" where
  "dispatch E wr args s0 w =
     (let s = s0\<lparr>command_calls := command_calls s0 + 1\<rparr> in
      if args = [] then (WPanic, s, w)
      else
        (let name = ToUpper (unicode_of E) (args ! 0); rest = tl args in
         case commands name of
           None \<Rightarrow> reply s (WriteError wr (''ERR unknown command '' @ quoted (safeName name)) w)
         | Some cmd \<Rightarrow>
             (if \<not> arity_ok cmd rest then reply s (wrongArity (unicode_of E) wr name w)
              else if writes cmd \<and> aof_failed s
              then reply s (WriteError wr ''MISCONF Errors writing to the AOF file'' w)
              else
                (case (if writes cmd then make_room E s else (True, s)) of
                   (False, s1) \<Rightarrow>
                     reply s1 (WriteError wr
                       (''OOM command not allowed when used memory > '' @ quoted ''maxmemory'' @ ''.'') w)
                 | (True, s1) \<Rightarrow>
                     (case fn cmd E wr rest s1 w of
                        (WOk, s2, w2) \<Rightarrow> (WOk, if writes cmd then sync_reply s2 else s2, w2)
                      | r \<Rightarrow> r)))))"

end
