(* ===== verification/Command_Props.thy ===== *)
theory Command_Props
  imports Commands
begin

text \<open>
  What \<^verbatim>\<open>dispatch\<close> answers.  The handlers are first freed of the writer they answer on: on any
  \<^verbatim>\<open>io.Writer\<close> they do what they do on an in-memory buffer, as far as the writer takes the
  bytes (\<open>mirrors\<close>).  Everything after that is about the in-memory run \<open>answer\<close>.
\<close>

section \<open>Replies\<close>

datatype rvalue =
    RSimple bytes
  | RError bytes
  | RInt int
  | RBulk bytes
  | RNull
  | RArray "rvalue list"

fun enc_reply :: "rvalue \<Rightarrow> bytes" where
  "enc_reply (RSimple s) = enc_simple s"
| "enc_reply (RError s) = enc_error s"
| "enc_reply (RInt n) = enc_int n"
| "enc_reply (RBulk p) = enc_bulk p"
| "enc_reply RNull = enc_null"
| "enc_reply (RArray vs) =
     count_line (CHR ''*'') (int (length vs)) @ concat (map enc_reply vs)"

text \<open>The replies that can be told apart on the wire: no line break in an unframed line.\<close>

fun wf_reply :: "rvalue \<Rightarrow> bool" where
  "wf_reply (RSimple s) = no_newline s"
| "wf_reply (RError s) = no_newline s"
| "wf_reply (RArray vs) = list_all wf_reply vs"
| "wf_reply _ = True"

text \<open>The run of a command on an empty in-memory buffer.\<close>

definition answer :: "env \<Rightarrow> bytes list \<Rightarrow> server \<Rightarrow> wres \<times> server \<times> bytes" where
  "answer E args s = dispatch E buffer_write args s []"

section \<open>Independence of the writer\<close>

lemma map_of_rel:
  "list_all2 (rel_prod (=) R) xs ys \<Longrightarrow> rel_option R (map_of xs k) (map_of ys k)"
  by (induction rule: list_all2_induct) auto

context io_writer
begin

text \<open>
  \<open>f\<close> runs on this writer as \<open>g\<close> does in memory: the same server and the same bytes when it
  succeeds, a part of the bytes when the writer fails, which a good one does not, and a panic
  exactly when \<open>g\<close> panics.
\<close>

definition runs_as :: "('w \<Rightarrow> 'w outcome) \<Rightarrow> wres \<Rightarrow> server \<Rightarrow> bytes \<Rightarrow> bool" where
  "runs_as f r s q \<longleftrightarrow>
     (\<forall>w s' w'. f w = (WOk, s', w') \<longrightarrow> r = WOk \<and> s' = s \<and> content w' = content w @ q) \<and>
     (\<forall>w s' w'. f w = (WErr, s', w') \<longrightarrow> (\<exists>p. prefix p q \<and> content w' = content w @ p)) \<and>
     (\<forall>w s' w'. f w = (WPanic, s', w') \<longrightarrow> r = WPanic \<and> s' = s \<and> content w' = content w @ q) \<and>
     (\<forall>w. good w \<longrightarrow> fst (f w) = r \<and> good (snd (snd (f w))))"

definition mirrors :: "('w \<Rightarrow> 'w outcome) \<Rightarrow> (bytes \<Rightarrow> bytes outcome) \<Rightarrow> bool" where
  "mirrors f g \<longleftrightarrow> (\<exists>r s q. (\<forall>b. g b = (r, s, b @ q)) \<and> r \<noteq> WErr \<and> runs_as f r s q)"

lemma runs_as_ok: "runs_as f r s q \<Longrightarrow> f w = (WOk, s', w') \<Longrightarrow> r = WOk \<and> s' = s \<and> content w' = content w @ q"
  by (simp add: runs_as_def)

lemma runs_as_err: "runs_as f r s q \<Longrightarrow> f w = (WErr, s', w') \<Longrightarrow> \<exists>p. prefix p q \<and> content w' = content w @ p"
  by (simp add: runs_as_def)

lemma runs_as_panic:
  "runs_as f r s q \<Longrightarrow> f w = (WPanic, s', w') \<Longrightarrow> r = WPanic \<and> s' = s \<and> content w' = content w @ q"
  by (simp add: runs_as_def)

lemma runs_as_good: "runs_as f r s q \<Longrightarrow> good w \<Longrightarrow> fst (f w) = r \<and> good (snd (snd (f w)))"
  by (simp add: runs_as_def)

lemma mirrorsI: "(\<And>b. g b = (r, s, b @ q)) \<Longrightarrow> r \<noteq> WErr \<Longrightarrow> runs_as f r s q \<Longrightarrow> mirrors f g"
  unfolding mirrors_def by blast

text \<open>A reply that one of the writer's methods makes.\<close>

lemma mirrors_reply:
  assumes e: "emits f q" and g: "\<And>b. g b = (WOk, b @ q)"
  shows "mirrors (\<lambda>w. reply s (f w)) (\<lambda>b. reply s (g b))"
proof (rule mirrorsI)
  show "reply s (g b) = (WOk, s, b @ q)" for b
    by (simp add: reply_def g)
  show "runs_as (\<lambda>w. reply s (f w)) WOk s q"
    using e by (auto simp: runs_as_def reply_def emits_def split: prod.splits) (metis fst_conv)+
qed simp

lemma mirrors_panic: "mirrors (\<lambda>w. (WPanic, s, w)) (\<lambda>b. (WPanic, s, b))"
  by (rule mirrorsI [of _ WPanic s "[]"]) (auto simp: runs_as_def)

lemma mirrors_error:
  "mirrors (\<lambda>w. reply s (WriteError wr m w)) (\<lambda>b. reply s (WriteError buffer_write m b))"
proof (cases "no_newline m")
  case True
  then show ?thesis
    by (simp add: mirrors_reply [OF emits_error])
next
  case False
  then show ?thesis
    using mirrors_panic [of s] by (simp add: WriteError_def no_newline_list_ex reply_def)
qed

lemma mirrors_simple:
  "no_newline m \<Longrightarrow>
     mirrors (\<lambda>w. reply s (WriteSimpleString wr m w)) (\<lambda>b. reply s (WriteSimpleString buffer_write m b))"
  by (simp add: mirrors_reply [OF emits_simple])

lemma mirrors_int:
  "mirrors (\<lambda>w. reply s (WriteInteger wr n w)) (\<lambda>b. reply s (WriteInteger buffer_write n b))"
  by (simp add: mirrors_reply [OF emits_int])

lemma mirrors_bulk:
  "mirrors (\<lambda>w. reply s (WriteBulkString wr p w)) (\<lambda>b. reply s (WriteBulkString buffer_write p b))"
  by (simp add: mirrors_reply [OF emits_bulk])

lemma emits_value: "emits (write_value wr v) (case v of None \<Rightarrow> enc_null | Some x \<Rightarrow> enc_bulk x)"
  by (cases v) (simp_all add: write_value_def [abs_def] emits_null emits_bulk)

lemma mirrors_value:
  "mirrors (\<lambda>w. reply s (write_value wr v w)) (\<lambda>b. reply s (write_value buffer_write v b))"
  by (rule mirrors_reply [OF emits_value]) (simp add: write_value_def split: option.split)

text \<open>The case distinctions a handler makes before it answers.\<close>

lemma mirrors_if:
  assumes "c \<Longrightarrow> mirrors f g" and "\<not> c \<Longrightarrow> mirrors f' g'"
  shows "mirrors (\<lambda>w. if c then f w else f' w) (\<lambda>b. if c then g b else g' b)"
  using assms by (cases c) simp_all

lemma mirrors_option:
  assumes "x = None \<Longrightarrow> mirrors f g" and "\<And>y. x = Some y \<Longrightarrow> mirrors (f' y) (g' y)"
  shows "mirrors (\<lambda>w. case x of None \<Rightarrow> f w | Some y \<Rightarrow> f' y w) (\<lambda>b. case x of None \<Rightarrow> g b | Some y \<Rightarrow> g' y b)"
  using assms by (cases x) simp_all

lemma mirrors_sum:
  assumes "\<And>y. x = Inl y \<Longrightarrow> mirrors (f y) (g y)" and "\<And>y. x = Inr y \<Longrightarrow> mirrors (f' y) (g' y)"
  shows "mirrors (\<lambda>w. case x of Inl y \<Rightarrow> f y w | Inr y \<Rightarrow> f' y w) (\<lambda>b. case x of Inl y \<Rightarrow> g y b | Inr y \<Rightarrow> g' y b)"
  using assms by (cases x) simp_all

lemma mirrors_prod:
  assumes "\<And>y z. x = (y, z) \<Longrightarrow> mirrors (f y z) (g y z)"
  shows "mirrors (\<lambda>w. case x of (y, z) \<Rightarrow> f y z w) (\<lambda>b. case x of (y, z) \<Rightarrow> g y z b)"
  using assms by (cases x) simp_all

lemma mirrors_ttl:
  assumes "mirrors f g" and "mirrors f' g'" and "mirrors f'' g''"
  shows "mirrors (\<lambda>w. case x of KeyMissing \<Rightarrow> f w | KeyPersistent \<Rightarrow> f' w | KeyVolatile \<Rightarrow> f'' w)
    (\<lambda>b. case x of KeyMissing \<Rightarrow> g b | KeyPersistent \<Rightarrow> g' b | KeyVolatile \<Rightarrow> g'' b)"
  using assms by (cases x) simp_all

lemma mirrors_bool:
  assumes "x \<Longrightarrow> mirrors f g" and "\<not> x \<Longrightarrow> mirrors f' g'"
  shows "mirrors (\<lambda>w. case x of True \<Rightarrow> f w | False \<Rightarrow> f' w) (\<lambda>b. case x of True \<Rightarrow> g b | False \<Rightarrow> g' b)"
  using assms by (cases x) simp_all

lemmas mirrors_splits =
  mirrors_if mirrors_option mirrors_sum mirrors_prod mirrors_ttl mirrors_bool

text \<open>What is done to the server after a handler that succeeded.\<close>

lemma mirrors_post:
  assumes "mirrors f g"
  shows "mirrors (\<lambda>w. case f w of (WOk, s, w') \<Rightarrow> (WOk, h s, w') | r \<Rightarrow> r)
    (\<lambda>b. case g b of (WOk, s, b') \<Rightarrow> (WOk, h s, b') | r \<Rightarrow> r)"
proof -
  obtain r s q where m: "\<forall>b. g b = (r, s, b @ q)" "r \<noteq> WErr" "runs_as f r s q"
    using assms unfolding mirrors_def by blast
  let ?f = "\<lambda>w. case f w of (WOk, s, w') \<Rightarrow> (WOk, h s, w') | r \<Rightarrow> r"
  have "fst (?f w) = r \<and> good (snd (snd (?f w)))" if "good w" for w
    using runs_as_good [OF m(3) that] by (auto split: prod.splits wres.splits)
  then have "runs_as ?f r (if r = WOk then h s else s) q"
    unfolding runs_as_def
    using runs_as_ok [OF m(3)] runs_as_err [OF m(3)] runs_as_panic [OF m(3)]
    by (simp split: prod.splits wres.splits) blast
  then show ?thesis
    by (intro mirrorsI [OF _ m(2)]) (use m(1,2) in \<open>cases r, auto\<close>)
qed

text \<open>Sequential composition: a first reply, then a continuation on the server it left.\<close>

lemma runs_as_seq:
  assumes e: "emits f q" and m: "runs_as f' r s1 q1"
  shows "runs_as (\<lambda>w. case f w of (WOk, w') \<Rightarrow> f' w' | (x, w') \<Rightarrow> (x, s, w')) r s1 (q @ q1)"
    (is "runs_as ?f _ _ _")
proof -
  have f: "\<exists>x u. f w = (x, u) \<and> x \<noteq> WPanic \<and> (x = WOk \<longrightarrow> content u = content w @ q)" for w
    using e by (metis emits_def prod.collapse)
  have ok: "?f w = (WOk, s', w') \<Longrightarrow> r = WOk \<and> s' = s1 \<and> content w' = content w @ q @ q1" for w s' w'
    using f [of w] runs_as_ok [OF m] by (auto split: wres.splits)
  have panic: "?f w = (WPanic, s', w') \<Longrightarrow> r = WPanic \<and> s' = s1 \<and> content w' = content w @ q @ q1" for w s' w'
    using f [of w] runs_as_panic [OF m] by (auto split: wres.splits)
  have err: "\<exists>p. prefix p (q @ q1) \<and> content w' = content w @ p" if a: "?f w = (WErr, s', w')" for w s' w'
  proof (cases "fst (f w)")
    case WOk
    then obtain u where u: "f w = (WOk, u)" by (cases "f w") auto
    with a obtain p where "prefix p q1" "content w' = content u @ p"
      using runs_as_err [OF m, of u s' w'] by auto
    then show ?thesis
      using emits_ok [OF e u] by (intro exI [of _ "q @ p"]) simp
  next
    case WErr
    with a have "f w = (WErr, w')" by (cases "f w") auto
    from e this obtain p where "prefix p q" "content w' = content w @ p"
      by (rule emits_errE)
    then show ?thesis
      by (intro exI [of _ p]) (simp add: prefix_prefix)
  qed (use f [of w] in auto)
  have "fst (?f w) = r \<and> good (snd (snd (?f w)))" if "good w" for w
    using emits_good [OF e that] runs_as_good [OF m] by auto
  then show ?thesis
    unfolding runs_as_def using ok panic err by blast
qed

lemma mirrors_seq:
  assumes e: "emits f q" and g: "\<And>b. g b = (WOk, b @ q)" and m: "mirrors f' g'"
  shows "mirrors
    (\<lambda>w. case f w of (WOk, w') \<Rightarrow> f' w' | (r, w') \<Rightarrow> (r, s, w'))
    (\<lambda>b. case g b of (WOk, b') \<Rightarrow> g' b' | (r, b') \<Rightarrow> (r, s, b'))"
proof -
  obtain r s1 q1 where m1: "\<forall>b. g' b = (r, s1, b @ q1)" "r \<noteq> WErr" "runs_as f' r s1 q1"
    using m unfolding mirrors_def by blast
  show ?thesis
    by (rule mirrorsI [OF _ m1(2) runs_as_seq [OF e m1(3)]]) (simp add: g m1(1))
qed

lemma mirrors_arity:
  "mirrors (\<lambda>w. reply s (wrongArity U wr name w)) (\<lambda>b. reply s (wrongArity U buffer_write name b))"
  unfolding wrongArity_def by (rule mirrors_error)

lemma mirrors_flag:
  "mirrors (\<lambda>w. reply s (flag_reply wr c w)) (\<lambda>b. reply s (flag_reply buffer_write c b))"
  unfolding flag_reply_def if_distrib [of "reply s"] by (rule mirrors_if) (rule mirrors_int)+

lemmas mirrors_intros =
  mirrors_splits mirrors_error mirrors_simple mirrors_int mirrors_bulk mirrors_value mirrors_panic
  mirrors_arity mirrors_flag

lemma mirrors_ping: "mirrors (ping E wr args s) (ping E buffer_write args s)"
  unfolding ping_def [abs_def] if_distrib [of "reply s"] by (intro mirrors_intros) (simp add: CR_def LF_def)

lemma mirrors_echo: "mirrors (echo E wr args s) (echo E buffer_write args s)"
  unfolding echo_def [abs_def] by (intro mirrors_intros)

lemma mirrors_set: "mirrors (set_cmd E wr args s) (set_cmd E buffer_write args s)"
  unfolding set_cmd_def [abs_def] Let_def by (intro mirrors_intros) (simp_all add: CR_def LF_def)

lemma mirrors_get: "mirrors (get E wr args s) (get E buffer_write args s)"
  unfolding get_def [abs_def] by (intro mirrors_intros)

lemma mirrors_mset: "mirrors (mset E wr args s) (mset E buffer_write args s)"
  unfolding mset_def [abs_def] by (intro mirrors_intros) (simp add: CR_def LF_def)

lemma mirrors_increment:
  "mirrors (increment E wr key d s) (increment E buffer_write key d s)"
  unfolding increment_def [abs_def] by (intro mirrors_intros)

lemma mirrors_incr: "mirrors (incr E wr args s) (incr E buffer_write args s)"
  unfolding incr_def [abs_def] by (intro mirrors_intros mirrors_increment)

lemma mirrors_decr: "mirrors (decr E wr args s) (decr E buffer_write args s)"
  unfolding decr_def [abs_def] by (intro mirrors_intros mirrors_increment)

lemma mirrors_append: "mirrors (append_cmd E wr args s) (append_cmd E buffer_write args s)"
  unfolding append_cmd_def [abs_def] by (intro mirrors_intros)

lemma mirrors_strlen: "mirrors (strlen E wr args s) (strlen E buffer_write args s)"
  unfolding strlen_def [abs_def] by (intro mirrors_intros)

lemma mirrors_del: "mirrors (del E wr args s) (del E buffer_write args s)"
  unfolding del_def [abs_def] by (intro mirrors_intros)

lemma mirrors_exists: "mirrors (exists E wr args s) (exists E buffer_write args s)"
  unfolding exists_def [abs_def] by (intro mirrors_intros)

lemma mirrors_dbsize: "mirrors (dbsize E wr args s) (dbsize E buffer_write args s)"
  unfolding dbsize_def [abs_def] by (intro mirrors_intros)

lemma mirrors_info: "mirrors (info E wr args s) (info E buffer_write args s)"
  unfolding info_def [abs_def] Let_def by (intro mirrors_intros)

lemma mirrors_bgrewriteaof:
  "mirrors (bgrewriteaof E wr args s) (bgrewriteaof E buffer_write args s)"
  unfolding bgrewriteaof_def [abs_def] by (intro mirrors_intros) (simp add: CR_def LF_def)

lemma mirrors_expireIn: "mirrors (expireIn u E wr args s) (expireIn u E buffer_write args s)"
  unfolding expireIn_def [abs_def] by (intro mirrors_intros)

lemma mirrors_expireAtIn: "mirrors (expireAtIn u E wr args s) (expireAtIn u E buffer_write args s)"
  unfolding expireAtIn_def [abs_def] by (intro mirrors_intros)

lemma mirrors_ttlIn: "mirrors (ttlIn u E wr args s) (ttlIn u E buffer_write args s)"
  unfolding ttlIn_def [abs_def] by (intro mirrors_intros)

text \<open>The two handlers that answer with an array.\<close>

lemma mirrors_mget_loop:
  "mirrors (mget_loop E wr i args s) (mget_loop E buffer_write i args s)"
proof (induction args arbitrary: i s)
  case Nil
  then show ?case
    by (intro mirrorsI [of _ WOk s "[]"]) (auto simp: runs_as_def)
next
  case (Cons k args)
  have "write_value buffer_write v b = (WOk, b @ (case v of None \<Rightarrow> enc_null | Some x \<Rightarrow> enc_bulk x))" for v b
    by (simp add: write_value_def split: option.split)
  note seq = mirrors_seq [OF emits_value this Cons.IH]
  show ?case
    unfolding mget_loop.simps by (intro mirrors_prod seq)
qed

lemma mirrors_mget: "mirrors (mget E wr args s) (mget E buffer_write args s)"
  using mirrors_seq [OF emits_array_header buffer_methods(5) mirrors_mget_loop]
  by (simp add: mget_def [abs_def])

lemma emits_settings:
  "emits (write_settings wr ms) (concat (map (\<lambda>(n, v). enc_bulk n @ enc_bulk v) ms))"
proof (induction ms)
  case Nil
  show ?case by (simp add: emits_def)
next
  case (Cons m ms)
  obtain n v where m: "m = (n, v)" by (cases m)
  show ?case
    using emits_then [OF emits_bulk [of n] emits_then [OF emits_bulk [of v] Cons.IH]]
    by (simp add: m)
qed

lemma mirrors_configGet: "mirrors (configGet E wr args s) (configGet E buffer_write args s)"
  unfolding configGet_def [abs_def]
proof (intro mirrors_intros)
  fix ms :: "(bytes \<times> bytes) list"
  have b: "write_settings buffer_write ms b = (WOk, b @ concat (map (\<lambda>(n, v). enc_bulk n @ enc_bulk v) ms))" for b
    by (induction ms arbitrary: b) (auto simp: w_then_def)
  show "mirrors (\<lambda>w. reply s (w_then (WriteArrayHeader wr (length ms * 2) w) (write_settings wr ms)))
     (\<lambda>w. reply s (w_then (WriteArrayHeader buffer_write (length ms * 2) w) (write_settings buffer_write ms)))"
    by (rule mirrors_reply [OF emits_then [OF emits_array_header emits_settings]])
      (simp add: w_then_def b)
qed

lemmas mirrors_handlers =
  mirrors_ping mirrors_echo mirrors_set mirrors_get mirrors_mget mirrors_mset mirrors_incr
  mirrors_decr mirrors_append mirrors_strlen mirrors_del mirrors_exists mirrors_dbsize
  mirrors_info mirrors_configGet mirrors_bgrewriteaof mirrors_expireIn mirrors_expireAtIn
  mirrors_ttlIn

definition same_command :: "'w command \<Rightarrow> bytes command \<Rightarrow> bool" where
  "same_command c d \<longleftrightarrow>
     minArgs c = minArgs d \<and> maxArgs c = maxArgs d \<and> writes c = writes d \<and>
     (\<forall>E args s. mirrors (fn c E wr args s) (fn d E buffer_write args s))"

lemma same_commands: "rel_option same_command (commands name) (commands name)"
  unfolding commands_def
  by (rule map_of_rel)
    (simp add: same_command_def mirrors_handlers expire_def pexpire_def expireat_def pexpireat_def
      ttl_def pttl_def)

lemma mirrors_dispatch: "mirrors (dispatch E wr args s) (dispatch E buffer_write args s)"
proof -
  let ?s = "s\<lparr>command_calls := command_calls s + 1\<rparr>"
  let ?name = "ToUpper (unicode_of E) (args ! 0)"
  consider "args = []"
    | "args \<noteq> []" "(commands ?name :: 'w command option) = None" "(commands ?name :: bytes command option) = None"
    | c d where "args \<noteq> []" "commands ?name = Some c" "commands ?name = Some d" "same_command c d"
    using same_commands [of ?name] by (cases rule: option.rel_cases) auto
  then show ?thesis
  proof cases
    case 2
    then show ?thesis
      unfolding dispatch_def [abs_def] Let_def
      by (simp only: if_False option.case) (rule mirrors_error)
  next
    case (3 c d)
    then have same: "minArgs c = minArgs d" "maxArgs c = maxArgs d" "writes c = writes d"
      and m: "\<And>E args s. mirrors (fn c E wr args s) (fn d E buffer_write args s)"
      by (simp_all add: same_command_def)
    have "arity_ok c = arity_ok d"
      by (simp add: arity_ok_def fun_eq_iff same)
    with 3 same show ?thesis
      unfolding dispatch_def [abs_def] Let_def
      by (simp only: if_False option.case) (intro mirrors_intros mirrors_post m)
  qed (simp add: dispatch_def [abs_def] Let_def mirrors_panic)
qed

end

section \<open>Replies in memory\<close>

text \<open>One well-formed reply, whatever the buffer holds already.\<close>

definition replies :: "(bytes \<Rightarrow> bytes outcome) \<Rightarrow> bool" where
  "replies g \<longleftrightarrow> (\<exists>s v. wf_reply v \<and> (\<forall>b. g b = (WOk, s, b @ enc_reply v)))"

lemma repliesI: "(\<And>b. g b = (WOk, s, b @ enc_reply v)) \<Longrightarrow> wf_reply v \<Longrightarrow> replies g"
  unfolding replies_def by blast

lemma replies_if:
  "(c \<Longrightarrow> replies g) \<Longrightarrow> (\<not> c \<Longrightarrow> replies g') \<Longrightarrow> replies (\<lambda>b. if c then g b else g' b)"
  by (cases c) simp_all

lemma replies_option:
  "(x = None \<Longrightarrow> replies g) \<Longrightarrow> (\<And>y. x = Some y \<Longrightarrow> replies (h y)) \<Longrightarrow>
     replies (\<lambda>b. case x of None \<Rightarrow> g b | Some y \<Rightarrow> h y b)"
  by (cases x) simp_all

lemma replies_sum:
  "(\<And>y. z = Inl y \<Longrightarrow> replies (k y)) \<Longrightarrow> (\<And>y. z = Inr y \<Longrightarrow> replies (k' y)) \<Longrightarrow>
     replies (\<lambda>b. case z of Inl y \<Rightarrow> k y b | Inr y \<Rightarrow> k' y b)"
  by (cases z) simp_all

lemma replies_prod:
  "(\<And>y y'. p = (y, y') \<Longrightarrow> replies (l y y')) \<Longrightarrow> replies (\<lambda>b. case p of (y, y') \<Rightarrow> l y y' b)"
  by (cases p) simp_all

lemma replies_ttl:
  "replies g \<Longrightarrow> replies g' \<Longrightarrow> replies g'' \<Longrightarrow>
     replies (\<lambda>b. case q of KeyMissing \<Rightarrow> g b | KeyPersistent \<Rightarrow> g' b | KeyVolatile \<Rightarrow> g'' b)"
  by (cases q) simp_all

lemma replies_bool:
  "(c \<Longrightarrow> replies g) \<Longrightarrow> (\<not> c \<Longrightarrow> replies g') \<Longrightarrow>
     replies (\<lambda>b. case c of True \<Rightarrow> g b | False \<Rightarrow> g' b)"
  by (cases c) simp_all

lemmas replies_splits = replies_if replies_option replies_sum replies_prod replies_ttl replies_bool

lemma replies_post: "replies g \<Longrightarrow> replies (\<lambda>b. case g b of (WOk, s, b') \<Rightarrow> (WOk, h s, b') | r \<Rightarrow> r)"
  unfolding replies_def by force

lemma replies_error: "no_newline m \<Longrightarrow> replies (\<lambda>b. reply s (WriteError buffer_write m b))"
  by (rule repliesI [of _ s "RError m"]) (simp_all add: reply_def)

lemma replies_simple: "no_newline m \<Longrightarrow> replies (\<lambda>b. reply s (WriteSimpleString buffer_write m b))"
  by (rule repliesI [of _ s "RSimple m"]) (simp_all add: reply_def)

lemma replies_int: "replies (\<lambda>b. reply s (WriteInteger buffer_write n b))"
  by (rule repliesI [of _ s "RInt n"]) (simp_all add: reply_def)

lemma replies_bulk: "replies (\<lambda>b. reply s (WriteBulkString buffer_write p b))"
  by (rule repliesI [of _ s "RBulk p"]) (simp_all add: reply_def)

definition value_reply :: "bytes option \<Rightarrow> rvalue" where
  "value_reply v = (case v of None \<Rightarrow> RNull | Some x \<Rightarrow> RBulk x)"

lemma write_value_buffer [simp]: "write_value buffer_write v b = (WOk, b @ enc_reply (value_reply v))"
  by (simp add: write_value_def value_reply_def split: option.split)

lemma wf_value_reply [simp]: "wf_reply (value_reply v)"
  by (simp add: value_reply_def split: option.split)

lemma replies_value: "replies (\<lambda>b. reply s (write_value buffer_write v b))"
  by (rule repliesI [of _ s "value_reply v"]) (simp_all add: reply_def)

lemma replies_flag: "replies (\<lambda>b. reply s (flag_reply buffer_write c b))"
  unfolding flag_reply_def if_distrib [of "reply s"] by (rule replies_if) (rule replies_int)+

subsection \<open>Error texts\<close>

lemma safeName_safe: "c \<in> set (safeName name) \<Longrightarrow> 32 \<le> byte_val c \<and> byte_val c < 127 \<and> c \<noteq> CHR 0x27"
  by (auto simp: safeName_def Let_def split: if_splits)

lemma safeName_no_newline [simp]: "no_newline (safeName name)"
  using safeName_safe [of _ name] by (force simp: no_newline_def CR_def LF_def)

lemma length_safeName: "length (safeName name) \<le> 131"
  by (simp add: safeName_def Let_def)

lemma no_newline_lower:
  assumes "no_newline s"
  shows "no_newline (map lower s)"
proof -
  have "lower c \<noteq> CR \<and> lower c \<noteq> LF" if "c \<noteq> CR" "c \<noteq> LF" for c
  proof (cases "65 \<le> byte_val c \<and> byte_val c \<le> 90")
    case True
    then have "byte_val (lower c) = byte_val c + 32"
      by (simp add: lower_def)
    then show ?thesis
      using True by (auto simp: CR_def LF_def)
  qed (use that in \<open>auto simp: lower_def\<close>)
  with assms show ?thesis
    by (auto simp: no_newline_def)
qed

lemma ToLower_safeName: "no_newline (ToLower U (safeName name))"
proof -
  have "isASCII (safeName name)"
    using safeName_safe [of _ name] by (force simp: isASCII_def)
  then show ?thesis
    by (simp add: ToLower_def no_newline_lower)
qed

lemma no_newline_quoted [simp]: "no_newline (quoted s) \<longleftrightarrow> no_newline s"
  by (simp add: quoted_def CR_def LF_def)

lemma replies_arity: "replies (\<lambda>b. reply s (wrongArity U buffer_write name b))"
  unfolding wrongArity_def
  by (rule replies_error) (simp add: ToLower_safeName, simp add: CR_def LF_def)

lemma newline_free_texts [simp]:
  "no_newline errSyntax" "no_newline errNotInteger" "no_newline ''OK''" "no_newline ''PONG''"
  "no_newline (''ERR invalid expire time in '' @ quoted ''set'' @ '' command'')"
  "no_newline ''ERR unsupported CONFIG subcommand''" "no_newline ''ERR invalid CONFIG pattern''"
  "no_newline ''ERR BGREWRITEAOF called without appendonly enabled''"
  "no_newline ''Background append only file rewriting started''"
  "no_newline ''MISCONF Errors writing to the AOF file''"
  "no_newline (''OOM command not allowed when used memory > '' @ quoted ''maxmemory'' @ ''.'')"
  "no_newline (''ERR unknown command '' @ quoted (safeName name))"
  by (simp_all add: errSyntax_def errNotInteger_def CR_def LF_def)

subsection \<open>The handlers\<close>

lemmas replies_intros =
  replies_splits replies_error replies_simple replies_int replies_bulk replies_value replies_flag
  replies_arity newline_free_texts

lemma replies_ping: "replies (ping E buffer_write args s)"
  unfolding ping_def [abs_def] if_distrib [of "reply s"] by (intro replies_intros)

lemma replies_echo: "args \<noteq> [] \<Longrightarrow> replies (echo E buffer_write args s)"
  unfolding echo_def [abs_def] by (simp only: if_False) (intro replies_intros)

lemma replies_set: "2 \<le> length args \<Longrightarrow> replies (set_cmd E buffer_write args s)"
  unfolding set_cmd_def [abs_def] Let_def
  by (simp only: if_False linorder_not_less [symmetric]) (intro replies_intros)

lemma replies_get: "args \<noteq> [] \<Longrightarrow> replies (get E buffer_write args s)"
  unfolding get_def [abs_def] by (simp only: if_False) (intro replies_intros)

lemma replies_mset: "replies (mset E buffer_write args s)"
  unfolding mset_def [abs_def] by (intro replies_intros)

lemma replies_increment: "replies (increment E buffer_write key d s)"
  unfolding increment_def [abs_def] by (intro replies_intros)

lemma replies_incr: "args \<noteq> [] \<Longrightarrow> replies (incr E buffer_write args s)"
  unfolding incr_def [abs_def] by (simp only: if_False) (rule replies_increment)

lemma replies_decr: "args \<noteq> [] \<Longrightarrow> replies (decr E buffer_write args s)"
  unfolding decr_def [abs_def] by (simp only: if_False) (rule replies_increment)

lemma replies_append: "2 \<le> length args \<Longrightarrow> replies (append_cmd E buffer_write args s)"
  unfolding append_cmd_def [abs_def]
  by (simp only: if_False linorder_not_less [symmetric]) (intro replies_intros)

lemma replies_strlen: "args \<noteq> [] \<Longrightarrow> replies (strlen E buffer_write args s)"
  unfolding strlen_def [abs_def] by (simp only: if_False) (intro replies_intros)

lemma replies_del: "replies (del E buffer_write args s)"
  unfolding del_def [abs_def] by (intro replies_intros)

lemma replies_exists: "replies (exists E buffer_write args s)"
  unfolding exists_def [abs_def] by (intro replies_intros)

lemma replies_dbsize: "replies (dbsize E buffer_write args s)"
  unfolding dbsize_def [abs_def] by (intro replies_intros)

lemma replies_info: "replies (info E buffer_write args s)"
  unfolding info_def [abs_def] Let_def by (intro replies_intros)

lemma replies_expireIn: "2 \<le> length args \<Longrightarrow> replies (expireIn u E buffer_write args s)"
  unfolding expireIn_def [abs_def]
  by (simp only: if_False linorder_not_less [symmetric]) (intro replies_intros)

lemma replies_expireAtIn: "2 \<le> length args \<Longrightarrow> replies (expireAtIn u E buffer_write args s)"
  unfolding expireAtIn_def [abs_def]
  by (simp only: if_False linorder_not_less [symmetric]) (intro replies_intros)

lemma replies_ttlIn: "args \<noteq> [] \<Longrightarrow> replies (ttlIn u E buffer_write args s)"
  unfolding ttlIn_def [abs_def] by (simp only: if_False) (intro replies_intros)

text \<open>An error of the log is quoted in one reply, so its text matters.\<close>

definition log_text_ok :: "server \<Rightarrow> bool" where
  "log_text_ok s \<longleftrightarrow> (\<forall>l e. aof_of s = Some l \<longrightarrow> log_err l = Some e \<longrightarrow> no_newline e)"

lemma replies_bgrewriteaof:
  assumes "log_text_ok s"
  shows "replies (bgrewriteaof E buffer_write args s)"
  unfolding bgrewriteaof_def [abs_def]
proof (intro replies_intros)
  fix l p l' e
  assume "aof_of s = Some l" "BeginRewrite l = (p, l')" "p = Some e"
  then have "no_newline e"
    using assms by (auto simp: log_text_ok_def BeginRewrite_def CR_def LF_def split: if_splits)
  then show "no_newline (''ERR '' @ e)"
    by (simp add: CR_def LF_def)
qed

text \<open>Replies with an array.\<close>

lemma mget_loop_buffer:
  "\<exists>s' vs. length vs = length args \<and> list_all wf_reply vs \<and>
     (\<forall>b. mget_loop E buffer_write i args s b = (WOk, s', b @ concat (map enc_reply vs)))"
proof (induction args arbitrary: i s)
  case (Cons k args)
  obtain v st where g: "Get (clk E (2 * i)) (clk E (2 * i + 1)) k (keyspace_of s) = (v, st)"
    by (cases "Get (clk E (2 * i)) (clk E (2 * i + 1)) k (keyspace_of s)")
  obtain s' vs where "length vs = length args" "list_all wf_reply vs"
    "\<forall>b. mget_loop E buffer_write (i + 1) args (with_store st s) b = (WOk, s', b @ concat (map enc_reply vs))"
    using Cons.IH by blast
  then show ?case
    using g by (intro exI [of _ s'] exI [of _ "value_reply v # vs"]) simp
qed simp

lemma replies_mget: "replies (mget E buffer_write args s)"
proof -
  obtain s' vs where v: "length vs = length args" "list_all wf_reply vs"
    "\<forall>b. mget_loop E buffer_write 0 args s b = (WOk, s', b @ concat (map enc_reply vs))"
    using mget_loop_buffer by blast
  show ?thesis
    by (rule repliesI [of _ s' "RArray vs"]) (use v in \<open>simp_all add: mget_def\<close>)
qed

lemma write_settings_buffer:
  "write_settings buffer_write ms b =
     (WOk, b @ concat (map enc_reply (concat (map (\<lambda>(n, v). [RBulk n, RBulk v]) ms))))"
  by (induction ms arbitrary: b) (auto simp: w_then_def)

lemma replies_configGet:
  assumes "args \<noteq> []"
  shows "replies (configGet E buffer_write args s)"
  unfolding configGet_def [abs_def] if_not_P [OF assms]
proof (intro replies_intros)
  fix ms :: "(bytes \<times> bytes) list"
  let ?vs = "concat (map (\<lambda>(n, v). [RBulk n, RBulk v]) ms)"
  have l: "length ?vs = length ms * 2" by (induction ms) auto
  show "replies (\<lambda>b. reply s (w_then (WriteArrayHeader buffer_write (length ms * 2) b)
      (write_settings buffer_write ms)))"
    by (rule repliesI [of _ s "RArray ?vs"])
      (simp add: w_then_def write_settings_buffer reply_def l, auto simp: list_all_iff)
qed

lemmas replies_handlers =
  replies_ping replies_echo replies_set replies_get replies_mget replies_mset replies_incr
  replies_decr replies_append replies_strlen replies_del replies_exists replies_dbsize
  replies_info replies_configGet replies_bgrewriteaof replies_expireIn replies_expireAtIn
  replies_ttlIn

lemma replies_commands:
  assumes "commands name = Some cmd" and "arity_ok cmd args" and "writes cmd \<or> log_text_ok s"
  shows "replies (fn cmd E buffer_write args s)"
  using assms unfolding commands_def map_of.simps
  by (auto simp: arity_ok_def replies_handlers expire_def pexpire_def expireat_def pexpireat_def
      ttl_def pttl_def split: if_splits intro!: replies_configGet)

subsection \<open>Dispatch\<close>

text \<open>The steps of \<^verbatim>\<open>dispatch\<close> before the handler runs.\<close>

definition counted :: "server \<Rightarrow> server" where
  "counted s = s\<lparr>command_calls := command_calls s + 1\<rparr>"

definition admit :: "env \<Rightarrow> 'w command \<Rightarrow> server \<Rightarrow> bool \<times> server" where
  "admit E cmd s = (if writes cmd then make_room E (counted s) else (True, counted s))"

definition settle :: "'w command \<Rightarrow> server \<Rightarrow> server" where
  "settle cmd s = (if writes cmd then sync_reply s else s)"

lemma dispatch_unknown:
  "args \<noteq> [] \<Longrightarrow> commands (ToUpper (unicode_of E) (args ! 0)) = (None :: 'w command option) \<Longrightarrow>
   dispatch E wr args s (w :: 'w) =
     reply (counted s) (WriteError wr
       (''ERR unknown command '' @ quoted (safeName (ToUpper (unicode_of E) (args ! 0)))) w)"
  by (simp add: dispatch_def counted_def Let_def)

lemma dispatch_known:
  assumes "args \<noteq> []" and "commands (ToUpper (unicode_of E) (args ! 0)) = Some cmd"
  shows "dispatch E wr args s w =
    (if \<not> arity_ok cmd (tl args) then
       reply (counted s) (wrongArity (unicode_of E) wr (ToUpper (unicode_of E) (args ! 0)) w)
     else if writes cmd \<and> aof_failed s then
       reply (counted s) (WriteError wr ''MISCONF Errors writing to the AOF file'' w)
     else
       (case admit E cmd s of
          (False, s1) \<Rightarrow>
            reply s1 (WriteError wr
              (''OOM command not allowed when used memory > '' @ quoted ''maxmemory'' @ ''.'') w)
        | (True, s1) \<Rightarrow>
            (case fn cmd E wr (tl args) s1 w of
               (WOk, s2, w2) \<Rightarrow> (WOk, settle cmd s2, w2)
             | r \<Rightarrow> r)))"
proof -
  have "aof_failed (s\<lparr>command_calls := n\<rparr>) = aof_failed s" for n
    by (simp add: aof_failed_def)
  with assms show ?thesis
    unfolding dispatch_def Let_def admit_def settle_def counted_def by simp
qed

lemma counted_frame [simp]: "keyspace_of (counted s) = keyspace_of s"
  by (simp add: counted_def)

lemma replies_dispatch:
  assumes "args \<noteq> []" and "log_text_ok s"
  shows "replies (dispatch E buffer_write args s)"
proof (cases "commands (ToUpper (unicode_of E) (args ! 0)) :: bytes command option")
  case None
  show ?thesis
    unfolding dispatch_unknown [OF assms(1) None, abs_def] by (intro replies_intros)
next
  case (Some cmd)
  have "writes cmd \<or> log_text_ok s1" if "admit E cmd s = (True, s1)" for s1
    using that assms(2) by (auto simp: admit_def log_text_ok_def)
  then have k: "admit E cmd s = (x, s1) \<Longrightarrow> x \<Longrightarrow> arity_ok cmd (tl args) \<Longrightarrow>
      replies (fn cmd E buffer_write (tl args) s1)" for x s1
    using replies_commands [OF Some] by simp
  show ?thesis
    unfolding dispatch_known [OF assms(1) Some, abs_def]
    by (intro replies_intros replies_post k) simp_all
qed

section \<open>Properties\<close>

text \<open>
  C20: a command gets exactly one reply.  For every argument list the parser can deliver,
  \<^verbatim>\<open>dispatch\<close> on a connection never panics; when it returns no error the connection has
  received the encoding of one well-formed reply, and the server is the one the same command
  leaves when it answers into memory; when the connection fails it has received a prefix of
  that reply.
\<close>

theorem dispatch_replies:
  assumes "args \<noteq> []" and "log_text_ok s"
  shows "\<exists>v s1. wf_reply v \<and> answer E args s = (WOk, s1, enc_reply v) \<and>
    (case dispatch E bufio_write args s w of
       (WOk, s', w') \<Rightarrow> s' = s1 \<and> bufio_content w' = bufio_content w @ enc_reply v
     | (WErr, s', w') \<Rightarrow> (\<exists>p. prefix p (enc_reply v) \<and> bufio_content w' = bufio_content w @ p)
     | (WPanic, s', w') \<Rightarrow> False)"
proof -
  obtain v s1 where v: "wf_reply v" "\<forall>b. dispatch E buffer_write args s b = (WOk, s1, b @ enc_reply v)"
    using replies_dispatch [OF assms, of E] unfolding replies_def by blast
  obtain r s2 q where "\<forall>b. dispatch E buffer_write args s b = (r, s2, b @ q)"
    "bufio_w.runs_as (dispatch E bufio_write args s) r s2 q"
    using bufio_w.mirrors_dispatch [of E args s] unfolding bufio_w.mirrors_def by blast
  with v have m: "bufio_w.runs_as (dispatch E bufio_write args s) WOk s1 (enc_reply v)"
    by (metis append_Nil prod.inject)
  show ?thesis
    using v bufio_w.runs_as_ok [OF m, of w] bufio_w.runs_as_err [OF m, of w] bufio_w.runs_as_panic [OF m, of w]
    by (intro exI [of _ v] exI [of _ s1]) (auto simp: answer_def split: prod.split wres.split)
qed

theorem dispatch_replies_witness:
  "\<forall>E w. \<exists>v s1. wf_reply v \<and> answer E [[CR, LF], ''x''] server_New = (WOk, s1, enc_reply v) \<and>
     fst (dispatch E bufio_write [[CR, LF], ''x''] server_New w) \<noteq> WPanic"
proof (intro allI)
  fix E w
  have "log_text_ok server_New"
    by (simp add: log_text_ok_def server_New_def New_def)
  from dispatch_replies [OF _ this, of "[[CR, LF], ''x'']" E w]
  show "\<exists>v s1. wf_reply v \<and> answer E [[CR, LF], ''x''] server_New = (WOk, s1, enc_reply v) \<and>
     fst (dispatch E bufio_write [[CR, LF], ''x''] server_New w) \<noteq> WPanic"
    by (fastforce split: prod.splits wres.splits)
qed

end
