(* ===== verification/Command_Spec.thy ===== *)
theory Command_Spec
  imports Command_Props
begin

text \<open>
  What the commands mean.  Each command that reads or changes the keyspace has a specification:
  the reply and the new map, for a map from keys to values and deadlines, an instant and the
  arguments.  The handlers, on the sharded store, with its lazy and active expiry, are shown to
  implement them.
\<close>

section \<open>Specifications\<close>

type_synonym kspec = "unicode \<Rightarrow> time \<Rightarrow> bytes list \<Rightarrow> keymap \<Rightarrow> rvalue \<times> keymap"

text \<open>A number of units that fits a \<^verbatim>\<open>time.Duration\<close>.\<close>

definition amount :: "bytes \<Rightarrow> duration \<Rightarrow> duration option" where
  "amount arg u =
     (case ParseInt arg of Inl _ \<Rightarrow> None | Inr n \<Rightarrow> (if in64 (n * u) then Some (n * u) else None))"

text \<open>The state of a key after a deadline is put on the value \<open>v\<close> at \<open>now\<close>.\<close>

definition bound :: "time \<Rightarrow> bytes \<Rightarrow> time \<Rightarrow> binding" where
  "bound now v at = (if at \<le> now then None else Some (v, at))"

definition spec_ping :: kspec where
  "spec_ping U now args m = (case args of [] \<Rightarrow> RSimple ''PONG'' | a # _ \<Rightarrow> RBulk a, m)"

definition spec_echo :: kspec where
  "spec_echo U now args m = (RBulk (hd args), m)"

definition spec_set :: kspec where
  "spec_set U now args m =
     (case args of
        [k, v] \<Rightarrow> (RSimple ''OK'', m(k \<mapsto> (v, 0)))
      | [k, v, opt, n] \<Rightarrow>
          (case expiryOptions (ToUpper U opt) of
             None \<Rightarrow> (RError errSyntax, m)
           | Some x \<Rightarrow>
               (case amount n (expiry_unit x) of
                  None \<Rightarrow> (RError errNotInteger, m)
                | Some d \<Rightarrow>
                    (if d \<le> 0 then
                       (RError (''ERR invalid expire time in '' @ quoted ''set'' @ '' command''), m)
                     else
                       (RSimple ''OK'',
                        m(k := bound now v (time_add (if absolute x then unixEpoch else now) d))))))
      | _ \<Rightarrow> (RError errSyntax, m))"

definition spec_get :: kspec where
  "spec_get U now args m = (value_reply (map_option fst (m (hd args))), m)"

definition spec_mget :: kspec where
  "spec_mget U now args m = (RArray (map (\<lambda>k. value_reply (map_option fst (m k))) args), m)"

fun pair_up :: "bytes list \<Rightarrow> (key \<times> bytes) list" where
  "pair_up (k # v # args) = (k, v) # pair_up args"
| "pair_up _ = []"

definition spec_mset :: kspec where
  "spec_mset U now args m =
     (if odd (length args)
      then (RError (''ERR wrong number of arguments for '' @ quoted ''mset'' @ '' command''), m)
      else (RSimple ''OK'', bind_all (pair_up args) m))"

definition deadline_of :: "binding \<Rightarrow> time" where
  "deadline_of x = (case x of None \<Rightarrow> 0 | Some (_, at) \<Rightarrow> at)"

definition value_of :: "binding \<Rightarrow> bytes" where
  "value_of x = (case x of None \<Rightarrow> [] | Some (v, _) \<Rightarrow> v)"

definition spec_increment :: "int \<Rightarrow> kspec" where
  "spec_increment d U now args m =
     (let k = hd args in
      case current_int (m k) of
        Some n \<Rightarrow>
          (if in64 (n + d) then (RInt (n + d), m(k \<mapsto> (formatInt (n + d), deadline_of (m k))))
           else (RError errNotInteger, m))
      | None \<Rightarrow> (RError errNotInteger, m))"

definition spec_append :: kspec where
  "spec_append U now args m =
     (let k = args ! 0; v = value_of (m k) @ args ! 1
      in (RInt (int (length v)), m(k \<mapsto> (v, deadline_of (m k)))))"

definition spec_strlen :: kspec where
  "spec_strlen U now args m = (RInt (int (length (value_of (m (hd args))))), m)"

definition spec_del :: kspec where
  "spec_del U now args m =
     (RInt (int (card {k \<in> set args. m k \<noteq> None})), \<lambda>k. if k \<in> set args then None else m k)"

definition spec_exists :: kspec where
  "spec_exists U now args m = (RInt (int (length (filter (\<lambda>k. m k \<noteq> None) args))), m)"

definition spec_dbsize :: kspec where
  "spec_dbsize U now args m = (RInt (int (card {k. m k \<noteq> None})), m)"

text \<open>\<^verbatim>\<open>EXPIRE\<close> and its variants; \<open>absolute\<close> ones count from the Unix epoch.\<close>

definition spec_expire :: "duration \<Rightarrow> bool \<Rightarrow> kspec" where
  "spec_expire u epoch U now args m =
     (let k = args ! 0 in
      case amount (args ! 1) u of
        None \<Rightarrow> (RError errNotInteger, m)
      | Some d \<Rightarrow>
          (case m k of
             None \<Rightarrow> (RInt 0, m)
           | Some (v, _) \<Rightarrow>
               (RInt 1, m(k := bound now v (time_add (if epoch then unixEpoch else now) d)))))"

text \<open>
  A length of time in units: the nearest number of them, but at least 1.  A duration so long
  that half a unit more is out of the range of 64 bits counts as 1.
\<close>

definition nearest_units :: "int \<Rightarrow> int \<Rightarrow> int" where
  "nearest_units d u = (if d + u div 2 \<le> maxInt64 then max 1 ((d + u div 2) div u) else 1)"

definition spec_ttl :: "duration \<Rightarrow> kspec" where
  "spec_ttl u U now args m =
     (RInt (case m (hd args) of
        None \<Rightarrow> - 2
      | Some (_, at) \<Rightarrow>
          (if at = 0 then - 1 else nearest_units (min maxInt64 (int at - int now)) u)), m)"

definition specs :: "bytes \<Rightarrow> kspec option" where
  "specs = map_of
     [(''PING'', spec_ping), (''ECHO'', spec_echo), (''SET'', spec_set), (''MSET'', spec_mset),
      (''GET'', spec_get), (''MGET'', spec_mget), (''INCR'', spec_increment 1),
      (''DECR'', spec_increment (- 1)), (''APPEND'', spec_append), (''STRLEN'', spec_strlen),
      (''DEL'', spec_del), (''EXISTS'', spec_exists),
      (''EXPIRE'', spec_expire Second False), (''PEXPIRE'', spec_expire Millisecond False),
      (''EXPIREAT'', spec_expire Second True), (''PEXPIREAT'', spec_expire Millisecond True),
      (''TTL'', spec_ttl Second), (''PTTL'', spec_ttl Millisecond), (''DBSIZE'', spec_dbsize)]"

section \<open>Lemmas\<close>

lemma div_less_int:
  assumes "(0::int) < u"
  shows "m div u < n \<longleftrightarrow> m < n * u"
proof
  assume "m div u < n"
  then have "(m div u + 1) * u \<le> n * u"
    using assms by (intro mult_right_mono) simp_all
  moreover have "m < (m div u + 1) * u"
    using pos_mod_bound [OF assms, of m] div_mult_mod_eq [of m u] by (simp only: distrib_right mult_1)
  ultimately show "m < n * u" by linarith
next
  assume a: "m < n * u"
  show "m div u < n"
  proof (rule ccontr)
    assume "\<not> m div u < n"
    then have "n * u \<le> m div u * u"
      using assms by (intro mult_right_mono) simp_all
    also have "\<dots> \<le> m"
      using pos_mod_sign [OF assms, of m] div_mult_mod_eq [of m u] by linarith
    finally show False using a by simp
  qed
qed

lemma parseTTL_amount:
  assumes "u > 0"
  shows "parseTTL arg u = amount arg u"
proof (cases "ParseInt arg")
  case (Inr n)
  have "n > go_div maxInt64 u \<longleftrightarrow> n * u > maxInt64"
    using assms div_less_int [OF assms, of maxInt64 n] by (simp add: go_div_def maxInt64_def)
  moreover have "n < go_div minInt64 u \<longleftrightarrow> n * u < minInt64"
    using assms div_less_int [OF assms, of "- minInt64" "- n"]
    by (simp add: go_div_def minInt64_def) linarith
  ultimately show ?thesis
    using Inr by (auto simp: parseTTL_def amount_def in64_def not_less)
qed (simp add: parseTTL_def amount_def)

lemma with_store_frame [simp]:
  "keyspace_of (with_store st s) = st" "with_store st (with_store st' s) = with_store st s"
  by (simp_all add: with_store_def)

lemma visible_Some_live: "visible now s k = Some (v, at) \<Longrightarrow> live now (Some (v', at)) = Some (v', at)"
  by (auto simp: visible_live live_def split: option.splits if_splits)

lemma live_deadline:
  "live now (Some (v, deadline_of (visible now s k))) = Some (v, deadline_of (visible now s k))"
  by (cases "visible now s k") (auto simp: deadline_of_def live_def [of _ "Some (v, 0)"] visible_Some_live)

lemma live_bound: "0 < at \<Longrightarrow> live now (Some (v, at)) = bound now v at"
  by (simp add: live_def bound_def)

text \<open>
  \<open>meets h f args\<close>: at any instant, on any well-formed store, the handler \<open>h\<close> answers and does
  what \<open>f\<close> says.
\<close>

definition meets :: "bytes handler \<Rightarrow> kspec \<Rightarrow> bytes list \<Rightarrow> bool" where
  "meets h f args \<longleftrightarrow>
     (\<forall>E s b now. store_inv (keyspace_of s) \<longrightarrow> (\<forall>i. clk E i = now) \<longrightarrow>
        (\<exists>s'. h E buffer_write args s b =
            (WOk, s', b @ enc_reply (fst (f (unicode_of E) now args (visible now (keyspace_of s))))) \<and>
          store_inv (keyspace_of s') \<and>
          visible now (keyspace_of s') = snd (f (unicode_of E) now args (visible now (keyspace_of s)))))"

lemma meetsI:
  assumes "\<And>E s b now. store_inv (keyspace_of s) \<Longrightarrow> (\<And>i. clk E i = now) \<Longrightarrow>
    \<exists>s'. h E buffer_write args s b =
        (WOk, s', b @ enc_reply (fst (f (unicode_of E) now args (visible now (keyspace_of s))))) \<and>
      store_inv (keyspace_of s') \<and>
      visible now (keyspace_of s') = snd (f (unicode_of E) now args (visible now (keyspace_of s)))"
  shows "meets h f args"
  using assms unfolding meets_def by blast

lemma meetsD:
  assumes "meets h f args" and "store_inv (keyspace_of s)" and "\<And>i. clk E i = now"
  shows "\<exists>s'. h E buffer_write args s b =
      (WOk, s', b @ enc_reply (fst (f (unicode_of E) now args (visible now (keyspace_of s))))) \<and>
    store_inv (keyspace_of s') \<and>
    visible now (keyspace_of s') = snd (f (unicode_of E) now args (visible now (keyspace_of s)))"
  using assms unfolding meets_def by blast

lemma meets_ping: "length args \<le> 1 \<Longrightarrow> meets ping spec_ping args"
  by (rule meetsI) (auto simp: ping_def spec_ping_def reply_def CR_def LF_def split: list.split)

lemma meets_echo: "args \<noteq> [] \<Longrightarrow> meets echo spec_echo args"
  by (rule meetsI) (simp add: echo_def spec_echo_def reply_def hd_conv_nth)

lemma meets_get: "args \<noteq> [] \<Longrightarrow> meets get spec_get args"
  by (rule meetsI)
    (simp add: get_def spec_get_def reply_def hd_conv_nth case_prod_beta Get_value Get_inv Get_visible)

lemma Get_run:
  assumes "store_inv s"
  obtains st where "Get now now k s = (map_option fst (visible now s k), st)" and "store_inv st"
    and "visible now st = visible now s"
  using that [of "snd (Get now now k s)"] assms Get_value [OF assms, of now now k]
  by (simp add: Get_inv Get_visible) (metis prod.collapse)

lemma meets_strlen:
  assumes "args \<noteq> []"
  shows "meets strlen spec_strlen args"
proof (rule meetsI)
  fix E :: env and s :: server and b now
  assume inv: "store_inv (keyspace_of s)" and E: "\<And>i. clk E i = now"
  obtain st where "Get now now (args ! 0) (keyspace_of s) =
      (map_option fst (visible now (keyspace_of s) (args ! 0)), st)"
    "store_inv st" "visible now st = visible now (keyspace_of s)"
    by (rule Get_run [OF inv])
  with assms E show "\<exists>s'. strlen E buffer_write args s b =
      (WOk, s', b @ enc_reply (fst (spec_strlen (unicode_of E) now args (visible now (keyspace_of s))))) \<and>
      store_inv (keyspace_of s') \<and>
      visible now (keyspace_of s') = snd (spec_strlen (unicode_of E) now args (visible now (keyspace_of s)))"
    by (intro exI [of _ "with_store st s"])
      (auto simp: strlen_def spec_strlen_def value_of_def reply_def hd_conv_nth split: option.split)
qed

lemma meets_dbsize: "meets dbsize spec_dbsize args"
  by (rule meetsI) (simp add: dbsize_def spec_dbsize_def reply_def DBSize_card)

lemma Exists_visible: "Exists now ks s = length (filter (\<lambda>k. visible now s k \<noteq> None) ks)"
  unfolding Exists_def lookup_def [symmetric]
  by (intro arg_cong [where f = length] filter_cong) (auto simp: visible_def split: option.split)

lemma meets_exists: "meets exists spec_exists args"
  by (rule meetsI) (simp add: exists_def spec_exists_def reply_def keys_of_def Exists_visible)

lemma meets_del: "meets del spec_del args"
  by (rule meetsI)
    (simp add: del_def spec_del_def reply_def keys_of_def case_prod_beta Del_result(3) Del_inv
      Del_visible)

lemma Append_visible:
  assumes "store_inv s"
  shows "visible now (snd (Append ap now k suf s)) =
    (visible now s)(k \<mapsto> (value_of (visible now s k) @ suf, deadline_of (visible now s k)))"
  using visible_lookup [OF Append_lookup [OF assms, of ap now k suf], of now] live_deadline [of now _ s k]
  by (simp add: deadline_of_def value_of_def)

lemma meets_append: "2 \<le> length args \<Longrightarrow> meets append_cmd spec_append args"
  by (rule meetsI)
    (auto simp: append_cmd_def spec_append_def reply_def case_prod_beta Append_fst Append_inv
      Append_visible Let_def value_of_def)

lemma meets_increment:
  assumes "in64 d" and "args \<noteq> []"
    and h: "\<And>E s b. h E buffer_write args s b = increment E buffer_write (args ! 0) d s b"
  shows "meets h (spec_increment d) args"
proof (rule meetsI)
  fix E :: env and s :: server and b now
  assume inv: "store_inv (keyspace_of s)" and E: "\<And>i. clk E i = now"
  let ?k = "args ! 0" and ?s = "keyspace_of s"
  obtain r st where i: "Increment journal_append now ?k d ?s = (r, st)"
    by (cases "Increment journal_append now ?k d ?s")
  have st: "store_inv st" "visible now st = (case r of Inl _ \<Rightarrow> visible now ?s
      | Inr n \<Rightarrow> (visible now ?s)(?k \<mapsto> (formatInt n, deadline_of (visible now ?s ?k))))"
    using Increment_inv [OF inv assms(1), of journal_append now ?k]
      Increment_visible [OF inv assms(1), of now now journal_append ?k] live_deadline [of now _ ?s ?k]
    by (auto simp: i deadline_of_def split: sum.split)
  have r: "r = (case current_int (visible now ?s ?k) of
      None \<Rightarrow> Inl ErrNotInteger
    | Some n \<Rightarrow> if in64 (n + d) then Inr (n + d) else Inl ErrNotInteger)"
    using i Increment_unfold [OF inv assms(1), of journal_append now ?k] by (auto split: option.splits if_splits)
  have "h E buffer_write args s b =
      (WOk, with_store st s, b @ enc_reply (case r of Inl _ \<Rightarrow> RError errNotInteger | Inr n \<Rightarrow> RInt n))"
    by (auto simp: h increment_def E i reply_def split: sum.split)
  then show "\<exists>s'. h E buffer_write args s b =
      (WOk, s', b @ enc_reply (fst (spec_increment d (unicode_of E) now args (visible now ?s)))) \<and>
      store_inv (keyspace_of s') \<and>
      visible now (keyspace_of s') = snd (spec_increment d (unicode_of E) now args (visible now ?s))"
    using st assms(2)
    by (intro exI [of _ "with_store st s"])
      (auto simp: spec_increment_def r hd_conv_nth Let_def split: option.split)
qed

lemma mget_loop_run:
  assumes "store_inv (keyspace_of s)" and "\<And>i. clk E i = now"
  shows "\<exists>s'. mget_loop E buffer_write i args s b =
      (WOk, s', b @ concat (map (\<lambda>k. enc_reply (value_reply (map_option fst (visible now (keyspace_of s) k)))) args)) \<and>
    store_inv (keyspace_of s') \<and> visible now (keyspace_of s') = visible now (keyspace_of s)"
  using assms(1)
proof (induction args arbitrary: i s b)
  case (Cons k args)
  obtain st where g: "Get now now k (keyspace_of s) = (map_option fst (visible now (keyspace_of s) k), st)"
    "store_inv st" "visible now st = visible now (keyspace_of s)"
    by (rule Get_run [OF Cons.prems])
  then show ?case
    using Cons.IH [of "with_store st s" "i + 1"
        "b @ enc_reply (value_reply (map_option fst (visible now (keyspace_of s) k)))"] assms(2) by simp
qed simp

lemma meets_mget: "meets mget spec_mget args"
proof (rule meetsI)
  fix E :: env and s :: server and b now
  assume "store_inv (keyspace_of s)" and "\<And>i. clk E i = now"
  from mget_loop_run [OF this, of 0 args "b @ count_line (CHR ''*'') (int (length args))"]
  show "\<exists>s'. mget E buffer_write args s b =
      (WOk, s', b @ enc_reply (fst (spec_mget (unicode_of E) now args (visible now (keyspace_of s))))) \<and>
      store_inv (keyspace_of s') \<and>
      visible now (keyspace_of s') = snd (spec_mget (unicode_of E) now args (visible now (keyspace_of s)))"
    by (auto simp: mget_def spec_mget_def comp_def)
qed

lemma arg_pairs_pair_up: "map (\<lambda>p. (Key p, Value p)) (arg_pairs args) = pair_up args"
  by (induction args rule: arg_pairs.induct) auto

lemma wrongArity_MSET:
  "wrongArity U buffer_write ''MSET'' b =
     (WOk, b @ enc_error (''ERR wrong number of arguments for '' @ quoted ''mset'' @ '' command''))"
proof -
  have "ToLower U (safeName ''MSET'') = ''mset''"
    by code_simp
  then show ?thesis
    by (simp add: wrongArity_def CR_def LF_def)
qed

lemma meets_mset: "meets mset spec_mset args"
  by (rule meetsI)
    (auto simp: mset_def spec_mset_def wrongArity_MSET reply_def MSet_inv MSet_visible
      arg_pairs_pair_up CR_def LF_def odd_iff_mod_2_eq_one even_iff_mod_2_eq_zero)

lemma expiry_unit_pos: "expiryOptions name = Some x \<Longrightarrow> expiry_unit x > 0"
  by (auto simp: expiryOptions_def Second_def Millisecond_def split: if_splits)

lemma set_deadline_run:
  assumes "store_inv s" and "d > 0"
  shows "store_inv (if epoch then SetWithDeadline ap now now k v (epochPlus d) s else SetWithTTL ap now k v d s)"
    and "visible now (if epoch then SetWithDeadline ap now now k v (epochPlus d) s else SetWithTTL ap now k v d s) =
      (visible now s)(k := bound now v (time_add (if epoch then unixEpoch else now) d))"
  using assms live_bound [of "time_add unixEpoch d" now v] live_bound [of "time_add now d" now v]
  by (auto simp: inv_intros SetWithDeadline_def SetWithTTL_def set_store_def epochPlus_def
      setLocked_visible Del_visible bound_def time_add_def)

lemma meets_set:
  assumes "2 \<le> length args" and "length args \<le> 4"
  shows "meets set_cmd spec_set args"
proof -
  consider k v where "args = [k, v]" | k v x where "args = [k, v, x]" | k v x n where "args = [k, v, x, n]"
    using assms by (auto simp: numeral_2_eq_2 numeral_eq_Suc le_Suc_eq length_Suc_conv)
  then show ?thesis
  proof cases
    case 1
    then show ?thesis
      by (intro meetsI)
        (auto simp: set_cmd_def spec_set_def reply_def Set_inv Set_def set_store_def setLocked_visible
          store_inv_setLocked live_def CR_def LF_def)
  next
    case 2
    then show ?thesis
      by (intro meetsI) (simp add: set_cmd_def spec_set_def reply_def)
  next
    case (3 k v x n)
    then show ?thesis
      by (intro meetsI)
        (auto simp: set_cmd_def spec_set_def reply_def Let_def parseTTL_amount expiry_unit_pos
         CR_def LF_def set_deadline_run [where epoch = True, simplified]
         set_deadline_run [where epoch = False, simplified] split: option.split)
  qed
qed

lemma ExpireAt_run:
  assumes "store_inv s"
  obtains st where "ExpireAt ap now k at s = (visible now s k \<noteq> None, st)" and "store_inv st"
    and "visible now st = (case visible now s k of None \<Rightarrow> visible now s
      | Some (v, _) \<Rightarrow> (visible now s)(k := bound now v at))"
proof -
  have "fst (ExpireAt ap now k at s) = (visible now s k \<noteq> None)"
    using ExpireAt_cases [OF assms, where now = now and k = k and ap = ap and at = at]
    by (cases "visible now s k"; cases "at \<le> now") auto
  then show thesis
    using that [of "snd (ExpireAt ap now k at s)"] assms ExpireAt_visible [OF assms, of now now ap k at]
    by (auto simp: ExpireAt_inv bound_def live_def prod_eq_iff split: option.split)
qed

lemma meets_expire:
  assumes "u > 0"
    and h: "\<And>E s b now. (\<And>i. clk E i = now) \<Longrightarrow> h E buffer_write args s b =
      (case parseTTL (args ! 1) u of
         None \<Rightarrow> reply s (WriteError buffer_write errNotInteger b)
       | Some d \<Rightarrow>
           (case ExpireAt journal_append now (args ! 0)
              (time_add (if epoch then unixEpoch else now) d) (keyspace_of s) of
              (c, st) \<Rightarrow> reply (with_store st s) (flag_reply buffer_write c b)))"
  shows "meets h (spec_expire u epoch) args"
proof (rule meetsI)
  fix E :: env and s :: server and b now
  assume inv: "store_inv (keyspace_of s)" and E: "\<And>i. clk E i = now"
  show "\<exists>s'. h E buffer_write args s b =
      (WOk, s', b @ enc_reply (fst (spec_expire u epoch (unicode_of E) now args (visible now (keyspace_of s))))) \<and>
      store_inv (keyspace_of s') \<and>
      visible now (keyspace_of s') = snd (spec_expire u epoch (unicode_of E) now args (visible now (keyspace_of s)))"
  proof (cases "amount (args ! 1) u")
    case None
    then show ?thesis
      using inv by (simp add: h [OF E] parseTTL_amount [OF assms(1)] spec_expire_def reply_def)
  next
    case (Some d)
    let ?at = "time_add (if epoch then unixEpoch else now) d"
    obtain st where "ExpireAt journal_append now (args ! 0) ?at (keyspace_of s) =
        (visible now (keyspace_of s) (args ! 0) \<noteq> None, st)" "store_inv st"
      "visible now st = (case visible now (keyspace_of s) (args ! 0) of None \<Rightarrow> visible now (keyspace_of s)
        | Some (v, _) \<Rightarrow> (visible now (keyspace_of s))(args ! 0 := bound now v ?at))"
      by (rule ExpireAt_run [OF inv])
    with Some show ?thesis
      by (auto simp: h [OF E] parseTTL_amount [OF assms(1)] spec_expire_def reply_def
          flag_reply_def Let_def split: option.split)
  qed
qed

lemma meets_incr: "args \<noteq> [] \<Longrightarrow> meets incr (spec_increment 1) args"
  by (rule meets_increment) (simp_all add: incr_def in64_def minInt64_def maxInt64_def)

lemma meets_decr: "args \<noteq> [] \<Longrightarrow> meets decr (spec_increment (- 1)) args"
  by (rule meets_increment) (simp_all add: decr_def in64_def minInt64_def maxInt64_def)

lemma meets_expireIn: "2 \<le> length args \<Longrightarrow> u > 0 \<Longrightarrow> meets (expireIn u) (spec_expire u False) args"
  by (rule meets_expire) (auto simp: expireIn_def Expire_def split: option.split)

lemma meets_expireAtIn: "2 \<le> length args \<Longrightarrow> u > 0 \<Longrightarrow> meets (expireAtIn u) (spec_expire u True) args"
  by (rule meets_expire) (auto simp: expireAtIn_def epochPlus_def split: option.split)

lemma TTL_visible:
  "TTL now k s =
    (case visible now s k of
       None \<Rightarrow> (0, KeyMissing)
     | Some (v, at) \<Rightarrow>
         (if at = 0 then (0, KeyPersistent)
          else (min maxInt64 (int at - int now), KeyVolatile)))"
  by (auto simp: TTL_def visible_def lookup_def expired_def time_sub_def maxInt64_def minInt64_def
      Let_def split: option.splits)

lemma ttl_units_nearest:
  assumes "0 < d" and "d \<le> maxInt64" and "u = Second \<or> u = Millisecond"
  shows "ttl_units d u = nearest_units d u"
proof -
  have u: "go_div u 2 = u div 2" "0 < u" "0 \<le> u div 2" "u div 2 \<le> 500000000"
    using assms(3) by (auto simp: go_div_def Second_def Millisecond_def)
  show ?thesis
  proof (cases "d + u div 2 \<le> maxInt64")
    case True
    with assms(1) u have "wrap64 (d + u div 2) = d + u div 2"
      by (intro wrap64_id) (simp add: in64_def minInt64_def)
    with True assms(1) u show ?thesis
      by (simp add: ttl_units_def nearest_units_def Let_def go_div_def max_def)
  next
    case False
    define y where "y = d + u div 2 + 9223372036854775808"
    have "y mod 18446744073709551616 = y - 18446744073709551616"
      using False assms(2) u minus_mod_self2 [of y 18446744073709551616]
      by (simp add: y_def maxInt64_def)
    then have "wrap64 (d + u div 2) = d + u div 2 - 18446744073709551616"
      unfolding wrap64_def y_def [symmetric] by (simp add: y_def)
    then have "wrap64 (d + u div 2) < 0"
      using assms(2) u by (simp add: maxInt64_def)
    then have "go_div (wrap64 (d + u div 2)) u \<le> 0"
      using u by (simp add: go_div_def pos_imp_zdiv_nonneg_iff)
    with False u show ?thesis
      by (simp add: ttl_units_def nearest_units_def Let_def)
  qed
qed

lemma meets_ttl:
  assumes "args \<noteq> []" and "u = Second \<or> u = Millisecond"
  shows "meets (ttlIn u) (spec_ttl u) args"
proof (rule meetsI)
  fix E :: env and s :: server and b now
  assume "store_inv (keyspace_of s)" and c: "\<And>i. clk E i = now"
  have "ttl_units (min maxInt64 (int at - int now)) u = nearest_units (min maxInt64 (int at - int now)) u"
    if "visible now (keyspace_of s) (hd args) = Some (v, at)" "at \<noteq> 0" for v at
    using that by (intro ttl_units_nearest assms(2))
      (auto simp: visible_def lookup_def expired_def maxInt64_def split: option.splits if_splits)
  then show "\<exists>s'. ttlIn u E buffer_write args s b =
      (WOk, s', b @ enc_reply (fst (spec_ttl u (unicode_of E) now args (visible now (keyspace_of s))))) \<and>
      store_inv (keyspace_of s') \<and>
      visible now (keyspace_of s') = snd (spec_ttl u (unicode_of E) now args (visible now (keyspace_of s)))"
    using assms(1) \<open>store_inv (keyspace_of s)\<close> c
    by (auto simp: ttlIn_def spec_ttl_def TTL_visible reply_def hd_conv_nth split: option.split)
qed

lemmas meets_handlers =
  meets_ping meets_echo meets_get meets_strlen meets_dbsize meets_exists meets_del meets_append
  meets_incr meets_decr meets_mget meets_mset meets_set meets_ttl meets_expireIn meets_expireAtIn

lemma meets_specs:
  assumes "specs name = Some f"
  obtains cmd where "commands name = Some cmd" and "\<And>args. arity_ok cmd args \<Longrightarrow> meets (fn cmd) f args"
proof -
  have "\<exists>cmd. commands name = Some cmd \<and> (\<forall>args. arity_ok cmd args \<longrightarrow> meets (fn cmd) f args)"
    using assms unfolding specs_def commands_def map_of.simps
    by (auto simp: arity_ok_def meets_handlers expire_def pexpire_def expireat_def pexpireat_def
        ttl_def pttl_def Second_def Millisecond_def split: if_splits)
  with that show thesis by blast
qed

text \<open>What \<^verbatim>\<open>dispatch\<close> does around the handler is not visible.\<close>

lemma visible_journal [simp]: "visible t (s\<lparr>journal := j\<rparr>) = visible t s"
  by (simp add: visible_def lookup_def shard_of_def fun_eq_iff)

lemma store_inv_journal [simp]: "store_inv (s\<lparr>journal := j\<rparr>) = store_inv s"
  by (simp add: store_inv_def wf_store_def)

lemma settle_frame [simp]:
  "visible t (keyspace_of (settle cmd s)) = visible t (keyspace_of s)"
  "store_inv (keyspace_of (settle cmd s)) = store_inv (keyspace_of s)"
  by (simp_all add: settle_def sync_reply_def split: option.split)

lemma admit_inv: "store_inv (keyspace_of s) \<Longrightarrow> admit E cmd s = (ok, s1) \<Longrightarrow> store_inv (keyspace_of s1)"
  using EnforceMemoryLimit_inv [of "keyspace_of s" journal_append "evict_order E"]
  by (auto simp: admit_def make_room_def split: if_splits prod.splits)

text \<open>Commands that the dispatcher lets through to their handler.\<close>

definition accepted :: "env \<Rightarrow> bytes list \<Rightarrow> server \<Rightarrow> server \<Rightarrow> bool" where
  "accepted E args s s1 \<longleftrightarrow>
     args \<noteq> [] \<and>
     (case (commands (ToUpper (unicode_of E) (args ! 0)) :: bytes command option) of
        None \<Rightarrow> False
      | Some cmd \<Rightarrow>
          arity_ok cmd (tl args) \<and> \<not> (writes cmd \<and> aof_failed s) \<and> admit E cmd s = (True, s1))"

lemma accepted_meets:
  assumes "store_inv (keyspace_of s)" and "\<forall>i. clk E i = now"
    and "accepted E args s s1"
    and "specs (ToUpper (unicode_of E) (args ! 0)) = Some f"
    and "f (unicode_of E) now (tl args) (visible now (keyspace_of s1)) = (v, m)"
  shows "\<exists>s'. answer E args s = (WOk, s', enc_reply v) \<and>
    store_inv (keyspace_of s') \<and> visible now (keyspace_of s') = m"
proof -
  obtain cmd :: "bytes command" where c: "commands (ToUpper (unicode_of E) (args ! 0)) = Some cmd"
    and m: "\<And>args. arity_ok cmd args \<Longrightarrow> meets (fn cmd) f args"
    using meets_specs [OF assms(4)] by blast
  have a: "args \<noteq> []" "arity_ok cmd (tl args)" "\<not> (writes cmd \<and> aof_failed s)" "admit E cmd s = (True, s1)"
    using assms(3) c by (simp_all add: accepted_def)
  have i: "store_inv (keyspace_of s1)"
    using admit_inv [OF assms(1) a(4)] .
  obtain s' where "fn cmd E buffer_write (tl args) s1 [] = (WOk, s', enc_reply v)"
    "store_inv (keyspace_of s')" "visible now (keyspace_of s') = m"
    using meetsD [OF m [OF a(2)] i assms(2) [rule_format], of "[]"] assms(5) by auto
  then show ?thesis
    using a by (intro exI [of _ "settle cmd s'"]) (auto simp: answer_def dispatch_known [OF a(1) c])
qed

section \<open>Properties\<close>

text \<open>
  C1: the commands implement their specifications.  For a command that is known, has an
  acceptable number of arguments and is not refused (a failed log, a full memory), carried out
  at one instant, the reply and the keyspace clients see afterwards are those the specification
  gives for the keyspace they saw before it, after whatever was evicted to make room.
\<close>

theorem dispatch_refines:
  assumes "store_inv (keyspace_of s)" and "\<forall>i. clk E i = now"
    and "accepted E args s s1"
    and "specs (ToUpper (unicode_of E) (args ! 0)) = Some f"
    and "f (unicode_of E) now (tl args) (visible now (keyspace_of s1)) = (v, m)"
  shows "\<exists>s'. answer E args s = (WOk, s', enc_reply v) \<and>
    store_inv (keyspace_of s') \<and> visible now (keyspace_of s') = m"
  using accepted_meets [OF assms] .

theorem dispatch_refines_witness:
  "\<forall>E. \<exists>s'. answer (E\<lparr>clk := \<lambda>_. 5\<rparr>) [''incr'', ''n''] server_New = (WOk, s', enc_reply (RInt 1)) \<and>
     visible 5 (keyspace_of s') = [''n'' \<mapsto> (''1'', 0)]"
proof
  fix E :: env
  let ?E = "E\<lparr>clk := \<lambda>_. 5\<rparr>"
  have u: "ToUpper U ''incr'' = ''INCR''" "formatInt 1 = ''1''" for U
    by code_simp+
  have v: "visible 5 (keyspace_of (counted server_New)) = (\<lambda>_. None)"
    by (simp add: server_New_def visible_def fun_eq_iff)
  have "accepted ?E [''incr'', ''n''] server_New (counted server_New)"
    by (simp add: accepted_def u commands_def arity_ok_def aof_failed_def admit_def make_room_def
        EnforceMemoryLimit_def server_New_def counted_def with_store_def) (simp add: New_def)
  moreover have "spec_increment 1 (unicode_of ?E) 5 [''n''] (visible 5 (keyspace_of (counted server_New))) =
      (RInt 1, [''n'' \<mapsto> (''1'', 0)])"
    unfolding v by (simp add: spec_increment_def current_int_def in64_def minInt64_def maxInt64_def
        deadline_of_def u)
  ultimately show "\<exists>s'. answer ?E [''incr'', ''n''] server_New = (WOk, s', enc_reply (RInt 1)) \<and>
     visible 5 (keyspace_of s') = [''n'' \<mapsto> (''1'', 0)]"
    using dispatch_refines [of server_New ?E 5 "[''incr'', ''n'']" "counted server_New" "spec_increment 1" "RInt 1"]
    by (auto simp: u specs_def server_New_def)
qed

text \<open>
  The count of seconds or milliseconds in \<^verbatim>\<open>SET\<close> and \<^verbatim>\<open>EXPIRE\<close> is accepted exactly when it
  is an integer whose length of time fits 64 bits, and is then that length of time; so no
  deadline is ever put in the past by wrap-around.
\<close>

theorem parseTTL_exact:
  "parseTTL arg Second = amount arg Second \<and> parseTTL arg Millisecond = amount arg Millisecond"
  by (simp add: parseTTL_amount Second_def Millisecond_def)

end
