(* ===== verification/Command_Effects.thy ===== *)
theory Command_Effects
  imports Command_Spec
begin

text \<open>
  What commands leave alone: those the table does not mark as writing change nothing a client
  can see and add nothing to the log, and a command that is answered with an error has changed
  nothing but what was evicted to make room for it.  The clock readings of a command are
  arbitrary here; \<open>t\<close> is any instant from the last of them on.
\<close>

section \<open>Definitions\<close>

text \<open>The two servers look the same to clients from \<open>t\<close> on, and their logs hold the same.\<close>

definition unchanged :: "time \<Rightarrow> server \<Rightarrow> server \<Rightarrow> bool" where
  "unchanged t s s' \<longleftrightarrow>
     visible t (keyspace_of s') = visible t (keyspace_of s) \<and>
     map_option contents (aof_of s') = map_option contents (aof_of s)"

definition quiet :: "bytes handler \<Rightarrow> bytes list \<Rightarrow> bool" where
  "quiet h args \<longleftrightarrow>
     (\<forall>E s b t. store_inv (keyspace_of s) \<longrightarrow> (\<forall>i. clk E i \<le> t) \<longrightarrow>
        unchanged t s (fst (snd (h E buffer_write args s b))))"

definition error_bytes :: "bytes \<Rightarrow> bool" where
  "error_bytes q \<longleftrightarrow> (case q of [] \<Rightarrow> False | c # _ \<Rightarrow> c = CHR ''-'')"

text \<open>A handler that has changed nothing visible when it answers with an error.\<close>

definition clean :: "bytes handler \<Rightarrow> bytes list \<Rightarrow> bool" where
  "clean h args \<longleftrightarrow>
     (\<forall>E s s' q t. store_inv (keyspace_of s) \<longrightarrow> (\<forall>i. clk E i \<le> t) \<longrightarrow>
        h E buffer_write args s [] = (WOk, s', q) \<longrightarrow> error_bytes q \<longrightarrow>
        visible t (keyspace_of s') = visible t (keyspace_of s))"

section \<open>Commands that do not write\<close>

lemma unchanged_refl [simp]: "unchanged t s s"
  by (simp add: unchanged_def)

lemma unchanged_trans: "unchanged t s s' \<Longrightarrow> unchanged t s' s'' \<Longrightarrow> unchanged t s s''"
  by (simp add: unchanged_def)

lemma unchanged_counted [simp]: "unchanged t s (counted s)"
  by (simp add: unchanged_def)

lemma reply_server [simp]: "fst (snd (reply s r)) = s"
  by (simp add: reply_def split: prod.split)

lemma quietI:
  assumes "\<And>E s b t. store_inv (keyspace_of s) \<Longrightarrow> (\<And>i. clk E i \<le> t) \<Longrightarrow>
    unchanged t s (fst (snd (h E buffer_write args s b)))"
  shows "quiet h args"
  using assms unfolding quiet_def by blast

lemma unchanged_Get:
  assumes "store_inv (keyspace_of s)" and "now' \<le> t"
  shows "unchanged t s (with_store (snd (Get now now' k (keyspace_of s))) s)"
  using Get_visible [OF assms] Get_journalled [OF assms(1), of "\<lambda>_ j. j" now now' k]
  by (simp add: unchanged_def journalled_def option.map_id)

lemma quiet_plain:
  "quiet ping args" "quiet echo args" "quiet exists args" "quiet dbsize args" "quiet info args"
  "quiet configGet args" "quiet (ttlIn u) args"
  by (rule quietI; simp add: ping_def echo_def exists_def dbsize_def info_def configGet_def ttlIn_def
      Let_def split: option.split prod.split TTLState.split)+

lemma quiet_get: "quiet get args"
  by (rule quietI) (simp add: get_def case_prod_beta unchanged_Get)

lemma quiet_strlen: "quiet strlen args"
proof (rule quietI)
  fix E :: env and s :: server and b t
  assume "store_inv (keyspace_of s)" and "\<And>i. clk E i \<le> t"
  moreover obtain v st where "Get (clk E 0) (clk E 1) (args ! 0) (keyspace_of s) = (v, st)"
    by (cases "Get (clk E 0) (clk E 1) (args ! 0) (keyspace_of s)")
  ultimately show "unchanged t s (fst (snd (strlen E buffer_write args s b)))"
    using unchanged_Get [of s "clk E 1" t "clk E 0" "args ! 0"] by (cases v) (simp_all add: strlen_def)
qed

lemma unchanged_mget_loop:
  assumes "store_inv (keyspace_of s)" and "\<And>i. clk E i \<le> t"
  shows "unchanged t s (fst (snd (mget_loop E buffer_write i args s b)))"
  using assms(1)
proof (induction args arbitrary: i s b)
  case (Cons k args)
  let ?st = "snd (Get (clk E (2 * i)) (clk E (2 * i + 1)) k (keyspace_of s))"
  have "unchanged t s (with_store ?st s)" "store_inv ?st"
    using unchanged_Get [OF Cons.prems assms(2)] Get_inv [OF Cons.prems] by simp_all
  with Cons.IH [of "with_store ?st s"] show ?case
    by (auto simp: case_prod_beta intro: unchanged_trans)
qed simp

lemma quiet_mget: "quiet mget args"
  by (rule quietI) (simp add: mget_def unchanged_mget_loop)

lemma quiet_bgrewriteaof: "quiet bgrewriteaof args"
  by (rule quietI)
    (auto simp: bgrewriteaof_def unchanged_def BeginRewrite_def split: option.split prod.split)

lemma quiet_commands:
  "commands name = Some cmd \<Longrightarrow> \<not> writes cmd \<Longrightarrow> quiet (fn cmd) args"
  unfolding commands_def map_of.simps
  by (auto simp: quiet_plain quiet_get quiet_strlen quiet_mget quiet_bgrewriteaof ttl_def pttl_def
      split: if_splits)

section \<open>Commands answered with an error\<close>

lemma error_bytes_enc [simp]:
  "error_bytes (enc_error m)" "\<not> error_bytes (enc_simple m)" "\<not> error_bytes (enc_int n)"
  by (simp_all add: error_bytes_def enc_error_def enc_simple_def enc_int_def count_line_def)

lemma cleanI:
  assumes "\<And>E s s' q t. store_inv (keyspace_of s) \<Longrightarrow> (\<And>i. clk E i \<le> t) \<Longrightarrow>
    h E buffer_write args s [] = (WOk, s', q) \<Longrightarrow> error_bytes q \<Longrightarrow>
    visible t (keyspace_of s') = visible t (keyspace_of s)"
  shows "clean h args"
  using assms unfolding clean_def by blast

lemma cleanD:
  "clean h args \<Longrightarrow> store_inv (keyspace_of s) \<Longrightarrow> (\<And>i. clk E i \<le> t) \<Longrightarrow>
     h E buffer_write args s [] = (WOk, s', q) \<Longrightarrow> error_bytes q \<Longrightarrow>
     visible t (keyspace_of s') = visible t (keyspace_of s)"
  unfolding clean_def by blast

lemma quiet_clean: "quiet h args \<Longrightarrow> clean h args"
  unfolding quiet_def clean_def unchanged_def by (metis fst_conv snd_conv)

text \<open>A reply to an unchanged server, and replies that are no errors.\<close>

lemma reply_clean:
  "reply s (WriteSimpleString buffer_write ''OK'' []) = (WOk, s', q) \<Longrightarrow> \<not> error_bytes q"
  "reply s (WriteInteger buffer_write n []) = (WOk, s', q) \<Longrightarrow> \<not> error_bytes q"
  "reply s (flag_reply buffer_write c []) = (WOk, s', q) \<Longrightarrow> \<not> error_bytes q"
  by (auto simp: reply_def flag_reply_def CR_def LF_def split: if_splits)

lemma reply_same: "reply s r = (x, s', q) \<Longrightarrow> s' = s"
  by (auto simp: reply_def split: prod.splits)

lemma clean_set: "clean set_cmd args"
  by (rule cleanI)
    (auto simp: set_cmd_def Let_def dest: reply_clean reply_same split: if_splits option.splits)

lemma clean_mset: "clean mset args"
  by (rule cleanI) (auto simp: mset_def dest: reply_clean reply_same split: if_splits)

lemma clean_increment:
  assumes "in64 d" and "\<And>E s. h E buffer_write args s [] \<noteq> (WPanic, s, []) \<Longrightarrow>
    h E buffer_write args s [] = increment E buffer_write (args ! 0) d s []"
  shows "clean h args"
proof (rule cleanI)
  fix E :: env and s s' :: server and q t
  assume inv: "store_inv (keyspace_of s)" and E: "\<And>i. clk E i \<le> t"
    and h: "h E buffer_write args s [] = (WOk, s', q)" and e: "error_bytes q"
  obtain r st where i: "Increment journal_append (clk E 0) (args ! 0) d (keyspace_of s) = (r, st)"
    by (cases "Increment journal_append (clk E 0) (args ! 0) d (keyspace_of s)")
  have "increment E buffer_write (args ! 0) d s [] = (WOk, s', q)"
    using assms(2) [of E s] h by simp
  with i e have "\<exists>x. r = Inl x" "s' = with_store st s"
    by (auto simp: increment_def reply_def split: sum.splits)
  then show "visible t (keyspace_of s') = visible t (keyspace_of s)"
    using Increment_visible [OF inv assms(1) E, of journal_append 0 "args ! 0"] i by auto
qed

lemma clean_incr: "clean incr args"
  by (rule clean_increment [where d = 1])
    (auto simp: incr_def in64_def minInt64_def maxInt64_def split: if_splits)

lemma clean_decr: "clean decr args"
  by (rule clean_increment [where d = "- 1"])
    (auto simp: decr_def in64_def minInt64_def maxInt64_def split: if_splits)

lemma clean_append: "clean append_cmd args"
  by (rule cleanI) (auto simp: append_cmd_def reply_def split: if_splits prod.splits)

lemma clean_del: "clean del args"
  by (rule cleanI) (auto simp: del_def reply_def split: prod.splits)

lemma clean_expire: "clean (expireIn u) args" "clean (expireAtIn u) args"
  by (rule cleanI; auto simp: expireIn_def expireAtIn_def dest: reply_clean reply_same
      split: if_splits option.splits prod.splits)+

lemma clean_commands:
  assumes "commands name = Some cmd"
  shows "clean (fn cmd) args"
proof (cases "writes cmd")
  case True
  with assms show ?thesis
    unfolding commands_def map_of.simps
    by (auto simp: clean_set clean_mset clean_incr clean_decr clean_append clean_del clean_expire expire_def
        pexpire_def expireat_def pexpireat_def split: if_splits)
qed (use quiet_clean quiet_commands [OF assms] in blast)

text \<open>What is left of the keyspace when room is made.\<close>

lemma admit_visible:
  assumes "store_inv (keyspace_of s)" and "admit E cmd s = (ok, s1)"
  obtains K where "\<And>t. visible t (keyspace_of s1) = (\<lambda>k. if k \<in> K then None else visible t (keyspace_of s) k)"
    and "maxMemory (keyspace_of s) \<le> 0 \<Longrightarrow> K = {}"
proof (cases "writes cmd")
  case True
  obtain n st where e: "EnforceMemoryLimit journal_append (evict_order E) (keyspace_of s) = ((n, ok), st)"
    "keyspace_of s1 = st"
    using assms(2) True by (auto simp: admit_def make_room_def split: prod.splits)
  obtain vs where vs: "evicts journal_append (keyspace_of s) vs st" "maxMemory (keyspace_of s) \<le> 0 \<longrightarrow> vs = []"
    using EnforceMemoryLimit_result [OF assms(1) e(1)] by blast
  show thesis
    by (rule that [of "set vs"]) (use vs e(2) in \<open>auto simp: evicts_def visible_def fun_eq_iff\<close>)
next
  case False
  with assms(2) show thesis
    by (intro that [of "{}"]) (auto simp: admit_def)
qed

lemma error_bytes_replies:
  assumes "replies g" and "g [] = (r, s', q)"
  shows "r = WOk"
  using assms by (auto simp: replies_def)

section \<open>Properties\<close>

text \<open>
  C22: the table marks every command that can change something.  A command not marked as writing,
  however it is answered, leaves the keyspace as clients see it and adds nothing to the log, so
  the checks \<^verbatim>\<open>dispatch\<close> makes for writing commands only are made for all that need them.
\<close>

theorem unmarked_commands_read_only:
  assumes "store_inv (keyspace_of s)" and "\<forall>i. clk E i \<le> t" and "args \<noteq> []"
    and "commands (ToUpper (unicode_of E) (args ! 0)) = Some (cmd :: bytes command)" and "\<not> writes cmd"
    and "answer E args s = (r, s', q)"
  shows "visible t (keyspace_of s') = visible t (keyspace_of s) \<and>
    map_option contents (aof_of s') = map_option contents (aof_of s)"
proof -
  have "unchanged t (counted s) (fst (snd (fn cmd E buffer_write (tl args) (counted s) [])))"
    using quiet_commands [OF assms(4,5), of "tl args"] assms(1,2) unfolding quiet_def by simp
  moreover obtain x s2 q2 where "fn cmd E buffer_write (tl args) (counted s) [] = (x, s2, q2)"
    by (cases "fn cmd E buffer_write (tl args) (counted s) []") auto
  moreover have "s' = counted s" if "\<not> arity_ok cmd (tl args)"
    using assms(6) that by (auto simp: answer_def dispatch_known [OF assms(3,4)] dest: reply_same)
  moreover have "s' = s2" if "arity_ok cmd (tl args)"
    using assms(5,6) that calculation(2)
    by (auto simp: answer_def dispatch_known [OF assms(3,4)] admit_def settle_def split: wres.splits)
  ultimately show ?thesis
    by (cases "arity_ok cmd (tl args)") (auto simp: unchanged_def)
qed

theorem unmarked_commands_read_only_witness:
  "\<forall>E. visible 9 (keyspace_of (fst (snd (answer (E\<lparr>clk := \<lambda>i. i mod 9\<rparr>) [''MGET'', ''a'', ''b''] server_New)))) =
     (\<lambda>_. None)"
proof
  fix E :: env
  let ?E = "E\<lparr>clk := \<lambda>i. i mod 9\<rparr>"
  obtain r s' q where a: "answer ?E [''MGET'', ''a'', ''b''] server_New = (r, s', q)"
    by (cases "answer ?E [''MGET'', ''a'', ''b''] server_New") auto
  have u: "ToUpper U ''MGET'' = ''MGET''" for U
    by code_simp
  have n: "keyspace_of server_New = New"
    by (simp add: server_New_def)
  have "visible 9 New = (\<lambda>_. None)"
    by (simp add: visible_def fun_eq_iff)
  then show "visible 9 (keyspace_of (fst (snd (answer ?E [''MGET'', ''a'', ''b''] server_New)))) = (\<lambda>_. None)"
    using unmarked_commands_read_only [OF _ _ _ _ _ a, of 9
        "\<lparr>minArgs = 1, maxArgs = - 1, writes = False, fn = mget\<rparr>"]
    by (simp add: a u n commands_def less_imp_le)
qed

text \<open>
  C21: an error means nothing was done.  Whatever the command and whatever it was refused for, when
  the reply is an error clients see the keyspace they saw before, or that keyspace after the
  evictions that made room for the command, of which there are none without a memory limit.
\<close>

theorem error_reply_no_effect:
  assumes "store_inv (keyspace_of s)" and "\<forall>i. clk E i \<le> t" and "args \<noteq> []"
    and "answer E args s = (WOk, s', q)" and "error_bytes q"
  shows "\<exists>K. visible t (keyspace_of s') = (\<lambda>k. if k \<in> K then None else visible t (keyspace_of s) k) \<and>
    (maxMemory (keyspace_of s) \<le> 0 \<longrightarrow> K = {}) \<and>
    (K = {} \<or> visible t (keyspace_of s') = visible t (keyspace_of (snd (make_room E (counted s)))))"
proof (cases "commands (ToUpper (unicode_of E) (args ! 0)) :: bytes command option")
  case None
  then have "s' = counted s"
    using assms(4) by (auto simp: answer_def dispatch_unknown [OF assms(3)] dest: reply_same)
  then show ?thesis
    by (intro exI [of _ "{}"]) simp
next
  case (Some cmd)
  show ?thesis
  proof (cases "arity_ok cmd (tl args) \<and> \<not> (writes cmd \<and> aof_failed s)")
    case False
    then have "s' = counted s"
      using assms(4)
      by (auto simp: answer_def dispatch_known [OF assms(3) Some] dest: reply_same split: if_splits)
    then show ?thesis
      by (intro exI [of _ "{}"]) simp
  next
    case True
    obtain ok s1 where a: "admit E cmd s = (ok, s1)" by (cases "admit E cmd s")
    obtain K where K: "\<And>t. visible t (keyspace_of s1) = (\<lambda>k. if k \<in> K then None else visible t (keyspace_of s) k)"
      "maxMemory (keyspace_of s) \<le> 0 \<Longrightarrow> K = {}"
      using admit_visible [OF assms(1) a] by metis
    have "visible t (keyspace_of s') = visible t (keyspace_of s1)"
    proof (cases ok)
      case False
      with a True show ?thesis
        using assms(4) by (auto simp: answer_def dispatch_known [OF assms(3) Some] dest: reply_same)
    next
      case ok: True
      then obtain s2 where "fn cmd E buffer_write (tl args) s1 [] = (WOk, s2, q)" "s' = settle cmd s2"
        using a True assms(4)
        by (auto simp: answer_def dispatch_known [OF assms(3) Some] split: prod.splits wres.splits)
      then show ?thesis
        using cleanD [OF clean_commands [OF Some] admit_inv [OF assms(1) a], of E t "tl args" s2 q] assms(2,5)
        by simp
    qed
    moreover have "K = {} \<or> visible t (keyspace_of s1) = visible t (keyspace_of (snd (make_room E (counted s))))"
      if "writes cmd"
      using a that by (simp add: admit_def)
    moreover have "visible t (keyspace_of s1) = visible t (keyspace_of s)" if "\<not> writes cmd"
      using a that by (auto simp: admit_def)
    ultimately show ?thesis
      using K by (cases "writes cmd") (intro exI [of _ K], simp, intro exI [of _ "{}"], simp)
  qed
qed

theorem error_reply_no_effect_witness:
  "\<forall>E. \<exists>s' q K. answer (E\<lparr>clk := \<lambda>_. 5\<rparr>) [''SET'', ''k''] server_New = (WOk, s', q) \<and> error_bytes q \<and>
     visible 5 (keyspace_of s') = (\<lambda>k. if k \<in> K then None else visible 5 (keyspace_of server_New) k)"
proof
  fix E :: env
  let ?E = "E\<lparr>clk := \<lambda>_. 5\<rparr>"
  have u: "ToUpper U ''SET'' = ''SET''" for U
    by code_simp
  have "commands ''SET'' = Some \<lparr>minArgs = 2, maxArgs = 4, writes = True, fn = set_cmd :: bytes handler\<rparr>"
    by (simp add: commands_def)
  then have "dispatch ?E buffer_write [''SET'', ''k''] server_New [] =
      reply (counted server_New) (wrongArity (unicode_of E) buffer_write ''SET'' [])"
    by (subst dispatch_known [where cmd = "\<lparr>minArgs = 2, maxArgs = 4, writes = True, fn = set_cmd\<rparr>"])
      (simp_all add: u arity_ok_def)
  then obtain q where a: "answer ?E [''SET'', ''k''] server_New = (WOk, counted server_New, q)" "error_bytes q"
    by (simp add: answer_def wrongArity_def reply_def ToLower_safeName CR_def LF_def)
  moreover have "store_inv (keyspace_of server_New)"
    by (simp add: server_New_def)
  ultimately show "\<exists>s' q K. answer ?E [''SET'', ''k''] server_New = (WOk, s', q) \<and> error_bytes q \<and>
     visible 5 (keyspace_of s') = (\<lambda>k. if k \<in> K then None else visible 5 (keyspace_of server_New) k)"
    using error_reply_no_effect [OF _ _ _ a(1) a(2), of 5] by auto
qed

end
