(* ===== verification/Replay.thy ===== *)
theory Replay
  imports Aof
begin

text \<open>
  Reading the log back, \<^verbatim>\<open>internal/aof/replay.go\<close>.  The file is its bytes and the error
  reading it ends with; what the file system answers to the other calls is the record
  \<open>replay_env\<close>.  \<open>apply1\<close> is the callback, in state-passing style.  The result carries the
  bytes of the file afterwards, since a torn tail is cut off.
\<close>

section \<open>Definitions\<close>

datatype replay_error =
    OpenFailed bytes
  | StatFailed bytes
  | CloseFailed bytes
  | TruncateFailed bytes
  | ErrCorruptStream nat int read_error
  | ErrCorruptCommand nat bytes bytes

record Result =
  Commands :: nat
  Bytes :: int
  Truncated :: int

datatype open_result = NotExist | OpenErr bytes | Opened bytes read_error

record replay_env =
  stat_err :: "bytes option"
  close_err :: "bytes option"
  truncate_err :: "bytes option"

definition EncodedLen :: "bytes list \<Rightarrow> int" where
  "EncodedLen args =
     int (length ''*'') + int (length (formatInt (int (length args)))) + 2 +
     sum_list (map (\<lambda>a. int (length ''$'') + int (length (formatInt (int (length a)))) + 2 +
                        int (length a) + 2) args)"

text \<open>The tail is torn: measure it and cut the file back to its good prefix.\<close>

definition cut_tail :: "replay_env \<Rightarrow> bytes \<Rightarrow> Result \<Rightarrow> replay_error option \<times> Result \<times> bytes" where
  "cut_tail E file res =
     (case stat_err E of
        Some e \<Rightarrow> (Some (StatFailed (''stat aof: '' @ e)), res, file)
      | None \<Rightarrow>
          (let res' = res\<lparr>Truncated := int (length file) - Bytes res\<rparr> in
           case close_err E of
             Some e \<Rightarrow> (Some (CloseFailed e), res', file)
           | None \<Rightarrow>
               (case truncate_err E of
                  Some e \<Rightarrow> (Some (TruncateFailed (''truncate torn aof: '' @ e)), res', file)
                | None \<Rightarrow> (None, res', take (nat (Bytes res)) file))))"

function replay_loop ::
  "replay_env \<Rightarrow> (bytes list \<Rightarrow> 's \<Rightarrow> bytes option \<times> 's) \<Rightarrow> bytes \<Rightarrow> read_error \<Rightarrow> bytes \<Rightarrow> Result \<Rightarrow> 's
    \<Rightarrow> (replay_error option \<times> Result \<times> bytes) \<times> 's" where
  "replay_loop E apply1 file fin rest res s =
     (case ReadCommand fin rest of
        Inl e \<Rightarrow>
          (if e = EOF then ((None, res, file), s)
           else if e = ErrUnexpectedEOF then (cut_tail E file res, s)
           else ((Some (ErrCorruptStream (Commands res) (Bytes res) e), res, file), s))
      | Inr (args, rest') \<Rightarrow>
          (if length args = 0 then replay_loop E apply1 file fin rest' res s
           else
             (case apply1 args s of
                (Some e, s') \<Rightarrow>
                  ((Some (ErrCorruptCommand (Commands res + 1) (args ! 0) e), res, file), s')
              | (None, s') \<Rightarrow>
                  replay_loop E apply1 file fin rest'
                    (res\<lparr>Commands := Commands res + 1, Bytes := Bytes res + EncodedLen args\<rparr>) s')))"
  by pat_completeness auto
termination
  by (relation "measure (\<lambda>(E, apply1, file, fin, rest, res, s). length rest)")
    (auto dest: ReadCommand_Inr(3))

declare replay_loop.simps [simp del]

definition Replay ::
  "replay_env \<Rightarrow> open_result \<Rightarrow> (bytes list \<Rightarrow> 's \<Rightarrow> bytes option \<times> 's) \<Rightarrow> 's
    \<Rightarrow> (replay_error option \<times> Result \<times> bytes) \<times> 's" where
  "Replay E opened apply1 s =
     (let res = \<lparr>Commands = 0, Bytes = 0, Truncated = 0\<rparr> in
      case opened of
        NotExist \<Rightarrow> ((None, res, []), s)
      | OpenErr e \<Rightarrow> ((Some (OpenFailed (''open aof: '' @ e)), res, []), s)
      | Opened file fin \<Rightarrow> replay_loop E apply1 file fin file res s)"

text \<open>Applying records in order, stopping at the first that is refused.\<close>

fun apply_all :: "(bytes list \<Rightarrow> 's \<Rightarrow> bytes option \<times> 's) \<Rightarrow> bytes list list \<Rightarrow> 's \<Rightarrow> 's option" where
  "apply_all apply1 [] s = Some s"
| "apply_all apply1 (r # rs) s =
     (case apply1 r s of (None, s') \<Rightarrow> apply_all apply1 rs s' | (Some _, _) \<Rightarrow> None)"

text \<open>The records a server writes: commands that fit the protocol and are not empty.\<close>

definition writable :: "bytes list \<Rightarrow> bool" where
  "writable r \<longleftrightarrow> r \<noteq> [] \<and> within_limits r"

abbreviation encode_log :: "bytes list list \<Rightarrow> bytes" where
  "encode_log rs \<equiv> concat (map enc_command rs)"

definition calm_fs :: replay_env where
  "calm_fs = \<lparr>stat_err = None, close_err = None, truncate_err = None\<rparr>"

section \<open>Lemmas\<close>

lemma EncodedLen_enc: "EncodedLen args = int (length (enc_command args))"
proof -
  have "sum_list (map (\<lambda>a. int (length ''$'') + int (length (formatInt (int (length a)))) + 2 +
      int (length a) + 2) as) = int (length (concat (map enc_bulk as)))" for as
    by (induction as) (auto simp: enc_bulk_def count_line_def crlf_def)
  then show ?thesis
    by (simp add: EncodedLen_def enc_command_def count_line_def crlf_def)
qed

lemma replay_step:
  assumes "writable r" and "apply1 r s = (None, s')"
  shows "replay_loop E apply1 file fin (enc_command r @ rest) res s =
    replay_loop E apply1 file fin rest
      (res\<lparr>Commands := Commands res + 1, Bytes := Bytes res + int (length (enc_command r))\<rparr>) s'"
  using assms
  by (subst replay_loop.simps) (simp add: ReadCommand_enc writable_def EncodedLen_enc)

lemma replay_good_prefix:
  assumes "\<forall>r \<in> set rs. writable r" and "apply_all apply1 rs s = Some s'"
  shows "replay_loop E apply1 file fin (encode_log rs @ rest) res s =
    replay_loop E apply1 file fin rest
      (res\<lparr>Commands := Commands res + length rs,
           Bytes := Bytes res + int (length (encode_log rs))\<rparr>) s'"
  using assms
proof (induction rs arbitrary: res s)
  case (Cons r rs)
  then obtain s1 where "apply1 r s = (None, s1)" "apply_all apply1 rs s1 = Some s'"
    by (auto split: prod.splits option.splits)
  with Cons show ?case
    by (simp add: replay_step algebra_simps)
qed simp

lemma torn_command:
  assumes "writable r" and "strict_prefix p (enc_command r)" and "p \<noteq> []"
  shows "replay_loop E apply1 file EOF p res s = (cut_tail E file res, s)"
  using assms ReadCommand_torn [of r p]
  by (subst replay_loop.simps) (simp add: writable_def)

lemma replay_end: "replay_loop E apply1 file EOF [] res s = ((None, res, file), s)"
  by (subst replay_loop.simps) (simp add: ReadCommand_def readLine_torn readerBufSize_def)

text \<open>A log has only one reading.\<close>

lemma count_line_inj:
  assumes "count_line c (int n) @ x = count_line c (int m) @ y"
  shows "n = m" and "x = y"
proof -
  have "formatUint n @ CR # LF # x = formatUint m @ CR # LF # y"
    using assms by (simp add: count_line_def crlf_def formatInt_def)
  moreover have "takeWhile (\<lambda>c. c \<noteq> CR) (formatUint k @ CR # z) = formatUint k" for k z
    using formatUint_digits [of CR k] by (subst takeWhile_append2) (auto simp: is_digit_def CR_def)
  ultimately have "formatUint n = formatUint m \<and> LF # x = LF # y"
    by (metis append_same_eq same_append_eq list.inject)
  then show "n = m" and "x = y"
    using formatUint_inj by blast+
qed

lemma enc_bulk_inj:
  assumes "enc_bulk a @ x = enc_bulk b @ y"
  shows "a = b" and "x = y"
  using assms count_line_inj [of "CHR ''$''" "length a" "a @ crlf @ x" "length b" "b @ crlf @ y"]
  by (auto simp: enc_bulk_def)

lemma enc_command_inj:
  assumes "enc_command a @ x = enc_command b @ y"
  shows "a = b \<and> x = y"
proof -
  have c: "length a = length b" "concat (map enc_bulk a) @ x = concat (map enc_bulk b) @ y"
    using assms count_line_inj [of "CHR ''*''" "length a" _ "length b"]
    by (auto simp: enc_command_def)
  then show ?thesis
  proof (induction a b rule: list_induct2)
    case (Cons p a q b)
    then show ?case
      using enc_bulk_inj [of p "concat (map enc_bulk a) @ x" q "concat (map enc_bulk b) @ y"] by simp
  qed simp
qed

lemma encode_log_inj: "encode_log as = encode_log bs \<Longrightarrow> as = bs"
proof (induction as arbitrary: bs)
  case Nil
  then show ?case
    by (cases bs) (simp_all add: enc_command_def count_line_def)
next
  case (Cons a as)
  then obtain b bs' where "bs = b # bs'"
    by (cases bs) (simp_all add: enc_command_def count_line_def)
  with Cons show ?case
    using enc_command_inj [of a "encode_log as" b "encode_log bs'"] by simp
qed

text \<open>A prefix of an encoded log is some of its records and the beginning of the next.\<close>

lemma prefix_encode_log:
  assumes "prefix p (encode_log rs)"
  obtains n q where "n \<le> length rs" and "p = encode_log (take n rs) @ q"
    and "q = [] \<or> (n < length rs \<and> strict_prefix q (enc_command (rs ! n)))"
  using assms
proof (induction rs arbitrary: p thesis)
  case Nil
  then show ?case
    using Nil(1) [of 0 "[]"] by simp
next
  case (Cons r rs)
  show ?case
  proof (cases "strict_prefix p (enc_command r)")
    case True
    then show ?thesis
      using Cons.prems(1) [of 0 p] by simp
  next
    case False
    with Cons.prems(2) obtain p' where p': "p = enc_command r @ p'" "prefix p' (encode_log rs)"
      by (auto simp: prefix_append strict_prefix_def)
    obtain n q where "n \<le> length rs" "p' = encode_log (take n rs) @ q"
      "q = [] \<or> (n < length rs \<and> strict_prefix q (enc_command (rs ! n)))"
      using Cons.IH [OF _ p'(2)] by blast
    then show ?thesis
      using Cons.prems(1) [of "Suc n" q] p'(1) by simp
  qed
qed

lemma replay_prefix:
  assumes "\<forall>r \<in> set rs. writable r" and "prefix p (encode_log rs)"
    and "\<forall>n \<le> length rs. apply_all apply1 (take n rs) s \<noteq> None"
  shows "\<exists>n \<le> length rs.
    Replay calm_fs (Opened p EOF) apply1 s =
      ((None, \<lparr>Commands = n, Bytes = int (length (encode_log (take n rs))),
          Truncated = int (length p) - int (length (encode_log (take n rs)))\<rparr>,
        encode_log (take n rs)), the (apply_all apply1 (take n rs) s)) \<and>
    prefix (encode_log (take n rs)) p \<and>
    (p = encode_log (take n rs) \<or>
     (n < length rs \<and> strict_prefix p (encode_log (take (Suc n) rs))))"
proof -
  obtain n q where n: "n \<le> length rs" "p = encode_log (take n rs) @ q"
    and q: "q = [] \<or> (n < length rs \<and> strict_prefix q (enc_command (rs ! n)))"
    by (rule prefix_encode_log [OF assms(2)])
  obtain s' where s': "apply_all apply1 (take n rs) s = Some s'"
    using assms(3) n(1) by blast
  have w: "\<forall>r \<in> set (take n rs). writable r"
    using assms(1) by (auto dest: in_set_takeD)
  let ?res = "\<lparr>Commands = n, Bytes = int (length (encode_log (take n rs))), Truncated = 0\<rparr>"
  have r: "Replay calm_fs (Opened p EOF) apply1 s = replay_loop calm_fs apply1 p EOF q ?res s'"
    using replay_good_prefix [OF w s', of calm_fs p EOF q] n
    by (simp add: Replay_def min_absorb2)
  show ?thesis
  proof (cases "q = []")
    case True
    then show ?thesis
      using r n s' by (intro exI [of _ n]) (simp add: replay_end)
  next
    case False
    with q have k: "n < length rs" "strict_prefix q (enc_command (rs ! n))"
      by auto
    have "writable (rs ! n)"
      using assms(1) k(1) by simp
    from torn_command [OF this k(2) False] have
      "replay_loop calm_fs apply1 p EOF q ?res s' = (cut_tail calm_fs p ?res, s')" .
    moreover have "strict_prefix p (encode_log (take (Suc n) rs))"
      using k n(2) by (auto simp: take_Suc_conv_app_nth strict_prefix_def)
    ultimately show ?thesis
      using r n s' k
      by (intro exI [of _ n]) (simp add: cut_tail_def calm_fs_def Let_def nat_int_add)
  qed
qed

text \<open>
  A record with a value beyond the parser's limit, which repeated \<^verbatim>\<open>APPEND\<close>s can make, is written
  by the server and refused by its replay.
\<close>

lemma Replay_large_value:
  assumes "\<forall>r \<in> set rs. writable r" and "apply_all apply1 rs s = Some s'"
    and "int (length k) \<le> MaxBulkLength" and "MaxBulkLength < int (length v)" and "in64 (int (length v))"
  shows "fst (fst (Replay E (Opened (encode_log rs @ enc_command [''SET'', k, v] @ rest) fin) apply1 s)) =
    Some (ErrCorruptStream (length rs) (int (length (encode_log rs))) (ProtocolError ''invalid bulk length''))"
proof -
  have "ReadCommand fin (enc_command [''SET'', k, v] @ rest) = Inl (ProtocolError ''invalid bulk length'')"
    using ReadCommand_fails [where pre = "[''SET'', k]" and m = 0, OF _ _ readBulkString_too_large [OF assms(4,5)]] assms(3)
    by (simp add: enc_command_def enc_bulk_def [of v] MaxArrayLength_def) (simp add: MaxBulkLength_def)
  then show ?thesis
    using replay_good_prefix [OF assms(1,2)] by (simp add: Replay_def) (subst replay_loop.simps, simp)
qed

text \<open>A log that does not exist yet replays as an empty one.\<close>

lemma Replay_first_start: "fst (snd (fst (Replay E NotExist apply1 s))) = fst (snd (fst (Replay E (Opened [] EOF) apply1 s)))"
  by (simp add: Replay_def replay_end)

section \<open>Properties\<close>

text \<open>
  C35: what the log appends can be read back: the bytes that writing a command to a buffer
  produces are parsed to exactly that command, and whatever follows is left alone.
\<close>

theorem writeCommand_roundtrip:
  assumes "within_limits args"
  shows "\<exists>b. writeCommand buffer_write args [] = (WOk, b) \<and> ReadCommand fin (b @ rest) = Inr (args, rest)"
  using assms by (simp add: ReadCommand_enc)

theorem writeCommand_roundtrip_witness:
  "\<exists>b. writeCommand buffer_write [''SET'', [CR, LF], ''''] [] = (WOk, b) \<and>
     ReadCommand EOF (b @ ''x'') = Inr ([''SET'', [CR, LF], ''''], ''x'')"
  using writeCommand_roundtrip [of "[''SET'', [CR, LF], '''']" EOF "''x''"]
  by (simp add: within_limits_def MaxArrayLength_def MaxBulkLength_def)

text \<open>
  The length computed for a command is exactly the number of bytes its encoding has, so the
  offset replay keeps is the position of the parser in the file.
\<close>

theorem EncodedLen_exact: "EncodedLen args = int (length (snd (writeCommand buffer_write args [])))"
  by (simp add: EncodedLen_enc)

text \<open>
  C13: replaying any prefix of a log, which is what a crash leaves, applies exactly the records
  that are complete in it, in order, and cuts the file back to them: the records lost are those
  after the first incomplete one, and the file is again a log that replays without loss.
\<close>

theorem Replay_crash_prefix:
  assumes "\<forall>r \<in> set rs. writable r" and "prefix p (encode_log rs)"
    and "\<forall>n \<le> length rs. apply_all apply1 (take n rs) s \<noteq> None"
  shows "\<exists>n \<le> length rs.
    Replay calm_fs (Opened p EOF) apply1 s =
      ((None, \<lparr>Commands = n, Bytes = int (length (encode_log (take n rs))),
          Truncated = int (length p) - int (length (encode_log (take n rs)))\<rparr>,
        encode_log (take n rs)), the (apply_all apply1 (take n rs) s)) \<and>
    prefix (encode_log (take n rs)) p \<and>
    (p = encode_log (take n rs) \<or>
     (n < length rs \<and> strict_prefix p (encode_log (take (Suc n) rs))))"
  using assms by (rule replay_prefix)

theorem Replay_crash_prefix_witness:
  "\<exists>n \<le> 2. fst (snd (fst (Replay calm_fs (Opened (enc_command [''DEL'', ''a''] @ ''*2'') EOF)
       (\<lambda>r j. (None, j @ [r])) []))) = \<lparr>Commands = n, Bytes = int (length (encode_log
         (take n [[''DEL'', ''a''], [''DEL'', ''b'']]))),
       Truncated = int (length (enc_command [''DEL'', ''a''] @ ''*2'')) - int (length (encode_log
         (take n [[''DEL'', ''a''], [''DEL'', ''b'']])))\<rparr>"
proof -
  let ?rs = "[[''DEL'', ''a''], [''DEL'', ''b'']]"
  have ap: "apply_all (\<lambda>r j. (None, j @ [r])) rs j = Some (j @ rs)" for rs j
    by (induction rs arbitrary: j) simp_all
  have "prefix ''*2'' (enc_command [''DEL'', ''b''])"
    by code_simp
  then have p: "prefix (enc_command [''DEL'', ''a''] @ ''*2'') (encode_log ?rs)"
    by simp
  have w: "\<forall>r \<in> set ?rs. writable r"
    by (simp add: writable_def within_limits_def MaxArrayLength_def MaxBulkLength_def)
  from Replay_crash_prefix [OF w p, of "\<lambda>r j. (None, j @ [r])" "[]"] ap show ?thesis
    by auto
qed

text \<open>
  C36: what happens to a log that is damaged after any number of good records.  The good records are
  applied, and nothing after them is.  If what the parser finds there is not the beginning of a
  command, the replay fails with an error that says after how many commands and bytes, and the
  file is left as it is.  But if the parser runs out of bytes, the rest is taken for a torn tail:
  the replay succeeds and cuts the file back to the good records.  That is so for the last
  record after a crash, and just as well for damage in the middle that makes a length larger than
  what is left of the file: all the intact records that follow are then removed without an error.
\<close>

theorem Replay_damaged:
  assumes "\<forall>r \<in> set rs. writable r" and "apply_all apply1 rs s = Some s'"
    and "ReadCommand EOF bad = Inl e" and "bad \<noteq> []"
  shows "Replay calm_fs (Opened (encode_log rs @ bad) EOF) apply1 s =
    (if e = ErrUnexpectedEOF
     then ((None,
       \<lparr>Commands = length rs, Bytes = int (length (encode_log rs)), Truncated = int (length bad)\<rparr>,
       encode_log rs), s')
     else ((Some (ErrCorruptStream (length rs) (int (length (encode_log rs))) e),
       \<lparr>Commands = length rs, Bytes = int (length (encode_log rs)), Truncated = 0\<rparr>,
       encode_log rs @ bad), s'))"
proof -
  have "e \<noteq> EOF"
    using assms(3,4) ReadCommand_EOF by auto
  then show ?thesis
    using assms(3) replay_good_prefix [OF assms(1,2), of calm_fs "encode_log rs @ bad" EOF bad]
    by (cases "e = ErrUnexpectedEOF")
      (simp add: Replay_def, subst replay_loop.simps, simp add: cut_tail_def calm_fs_def)+
qed

theorem Replay_damaged_witness:
  "fst (fst (Replay calm_fs (Opened (encode_log [[''DEL'', ''a'']] @ [CHR ''!'', CR, LF]) EOF)
     (\<lambda>r j. (None, j @ [r])) [])) =
   Some (ErrCorruptStream 1 (int (length (encode_log [[''DEL'', ''a'']])))
     (ProtocolError (expected_got (CHR ''*'') (CHR ''!'')))) \<and>
   (\<exists>n. Replay calm_fs (Opened (encode_log [[''DEL'', ''a'']] @
       (count_line (CHR ''*'') 2 @ enc_bulk ''DEL'' @ count_line (CHR ''$'') 99 @ ''b'' @ crlf @
        encode_log [[''SET'', ''c'', ''x''], [''DEL'', ''d'']])) EOF) (\<lambda>r j. (None, j @ [r])) [] =
     ((None, \<lparr>Commands = 1, Bytes = int (length (encode_log [[''DEL'', ''a'']])), Truncated = n\<rparr>,
       encode_log [[''DEL'', ''a'']]), [[''DEL'', ''a'']]))"
proof -
  let ?rs = "[[''DEL'', ''a'']]" and ?ap = "\<lambda>r j. (None, j @ [r])"
  let ?rest = "''b'' @ crlf @ encode_log [[''SET'', ''c'', ''x''], [''DEL'', ''d'']]"
  let ?bad = "count_line (CHR ''*'') 2 @ enc_bulk ''DEL'' @ count_line (CHR ''$'') 99 @ ?rest"
  have w: "\<forall>r \<in> set ?rs. writable r" "apply_all ?ap ?rs [] = Some ?rs"
    by (simp_all add: writable_def within_limits_def MaxArrayLength_def MaxBulkLength_def)
  have "ReadCommand EOF [CHR ''!'', CR, LF] = Inl (ProtocolError (expected_got (CHR ''*'') (CHR ''!'')))"
    by code_simp
  note one = Replay_damaged [OF w this]
  have "int (length ?rest) < 99 + 2"
    by code_simp
  then have "ReadCommand EOF ?bad = Inl ErrUnexpectedEOF"
    using ReadCommand_fails [where pre = "[''DEL'']" and m = 0, OF _ _ readBulkString_overlong [of 99 ?rest]]
    by (simp add: MaxArrayLength_def MaxBulkLength_def)
  from Replay_damaged [OF w this] have "Replay calm_fs (Opened (encode_log ?rs @ ?bad) EOF) ?ap [] =
      ((None, \<lparr>Commands = length ?rs, Bytes = int (length (encode_log ?rs)), Truncated = int (length ?bad)\<rparr>,
        encode_log ?rs), ?rs)"
    by (simp add: count_line_def)
  moreover have "length ?rs = 1"
    by simp
  ultimately show ?thesis
    using one by (intro conjI exI [of _ "int (length ?bad)"]) simp_all
qed

end
