(* ===== verification/Server.thy ===== *)
theory Server
  imports Command_Effects Replay
begin

text \<open>
  The connection handler and the replay callback of \<^verbatim>\<open>internal/server/server.go\<close>.

  A connection is the list of chunks its reads return and the error the reads end with after
  them, and a \<^verbatim>\<open>bufio.Writer\<close> over the device that takes the replies.  The parser asks for
  another chunk when it runs out of bytes, and every read is preceded by a flush
  (\<^verbatim>\<open>flushBeforeRead\<close>).  The handler also returns what each read found: the bytes received
  until then and the writer at that moment.
\<close>

section \<open>Definitions\<close>

subsection \<open>Setting up\<close>

definition writeBufSize :: nat where "writeBufSize = 16 * 1024"

definition Configure :: "Config \<Rightarrow> server \<Rightarrow> server" where
  "Configure c s = s\<lparr>config := c\<rparr>"

definition AttachAOF :: "Log \<Rightarrow> server \<Rightarrow> server" where
  "AttachAOF l s = with_store (SetJournal l (keyspace_of s)) s"

subsection \<open>Replaying the log\<close>

text \<open>The verb \<^verbatim>\<open>%q\<close> on printable ASCII.\<close>

definition go_quote :: "bytes \<Rightarrow> bytes" where
  "go_quote s =
     [CHR 0x22] @ concat (map (\<lambda>c. if c = CHR 0x22 \<or> c = CHR 0x5C then [CHR 0x5C, c] else [c]) s) @
     [CHR 0x22]"

text \<open>
  The error or \<open>None\<close>, and the server.  A buffer takes every write and the handlers of writing
  commands do not panic (\<open>replies_commands\<close>), so the last branch is not taken.
\<close>

definition applyLogged :: "env \<Rightarrow> bytes list \<Rightarrow> server \<Rightarrow> bytes option \<times> server" where
  "applyLogged E args s =
     (let name = ToUpper (unicode_of E) (args ! 0) in
      case commands name of
        None \<Rightarrow> (Some (''unknown command '' @ go_quote (safeName name)), s)
      | Some cmd \<Rightarrow>
          (if \<not> writes cmd then (Some (safeName name @ '' is not a write command''), s)
           else
             (let rest = tl args in
              if \<not> arity_ok cmd rest then
                (Some (safeName name @ '': wrong number of arguments ('' @
                   formatInt (int (length rest)) @ '')''), s)
              else
                (case fn cmd E buffer_write rest s [] of
                   (WOk, s', b) \<Rightarrow>
                     (if 0 < length b \<and> b ! 0 = CHR ''-''
                      then (Some (safeName name @ '': '' @ TrimSpace (unicode_of E) (tl b)), s')
                      else (None, s'))
                 | (_, s', b) \<Rightarrow> (Some [], s')))))"

text \<open>The \<open>i\<close>-th record is applied in the circumstances \<open>Es i\<close>.\<close>

definition apply_record ::
  "(nat \<Rightarrow> env) \<Rightarrow> bytes list \<Rightarrow> nat \<times> server \<Rightarrow> bytes option \<times> nat \<times> server" where
  "apply_record Es args st =
     (case st of (i, s) \<Rightarrow> (case applyLogged (Es i) args s of (e, s') \<Rightarrow> (e, i + 1, s')))"

definition ReplayAOF ::
  "replay_env \<Rightarrow> (nat \<Rightarrow> env) \<Rightarrow> open_result \<Rightarrow> server
    \<Rightarrow> (replay_error option \<times> Result \<times> bytes) \<times> nat \<times> server" where
  "ReplayAOF F Es opened s = Replay F opened (apply_record Es) (0, s)"

subsection \<open>Connections\<close>

definition reportReadError :: "read_error \<Rightarrow> bufw \<Rightarrow> bufw" where
  "reportReadError e w =
     (if e = EOF then w
      else if e = ErrClosed then w
      else if IsProtocolError e then snd (WriteError bufio_write (''ERR '' @ ProtocolError_Error e) w)
      else w)"

text \<open>The parser's answer when it needs a byte that has not been received.\<close>

definition need :: read_error where "need = IOErr ''need more input''"

definition flushBeforeRead :: "bufw \<Rightarrow> bool \<times> bufw" where
  "flushBeforeRead w = bufio_flush w"

type_synonym conn_reads = "(bytes \<times> bufw) list"

function conn_loop ::
  "(nat \<Rightarrow> env) \<Rightarrow> read_error \<Rightarrow> nat \<Rightarrow> bytes list \<Rightarrow> bytes \<Rightarrow> bytes \<Rightarrow> server \<Rightarrow> bufw
    \<Rightarrow> conn_reads \<times> server \<times> bufw" where
  "conn_loop Es fin i chunks received buf s w =
     (case ReadCommand need buf of
        Inl e \<Rightarrow>
          (if e \<noteq> need then ([], s, reportReadError e w)
           else
             (case flushBeforeRead w of
                (False, w') \<Rightarrow> ([], s, reportReadError (IOErr (io_error w')) w')
              | (True, w') \<Rightarrow>
                  (case chunks of
                     [] \<Rightarrow>
                       (case ReadCommand fin buf of
                          Inl e' \<Rightarrow> ([(received, w')], s, reportReadError e' w')
                        | Inr _ \<Rightarrow> ([(received, w')], s, w'))
                   | c # cs \<Rightarrow>
                       (case conn_loop Es fin i cs (received @ c) (buf @ c) s w' of
                          (reads, r) \<Rightarrow> ((received, w') # reads, r)))))
      | Inr (args, rest) \<Rightarrow>
          (if length args = 0 then conn_loop Es fin i chunks received rest s w
           else
             (case dispatch (Es i) bufio_write args s w of
                (WOk, s', w') \<Rightarrow> conn_loop Es fin (i + 1) chunks received rest s' w'
              | (_, s', w') \<Rightarrow> ([], s', w'))))"
  by pat_completeness auto
termination
  by (relation "inv_image (less_than <*lex*> less_than)
      (\<lambda>(Es, fin, i, chunks, received, buf, s, w). (length chunks, length buf))")
    (auto dest: ReadCommand_Inr(3))

declare conn_loop.simps [simp del]

text \<open>
  On every way out, a panic in a handler included, the writer is flushed before the connection
  is closed.
\<close>

definition HandleConn ::
  "(nat \<Rightarrow> env) \<Rightarrow> read_error \<Rightarrow> bytes list \<Rightarrow> dev \<Rightarrow> server \<Rightarrow> conn_reads \<times> server \<times> bufw" where
  "HandleConn Es fin chunks conn s =
     (case conn_loop Es fin 0 chunks [] [] s (NewWriterSize writeBufSize conn) of
        (reads, s', w) \<Rightarrow> (reads, s', snd (bufio_flush w)))"

section \<open>Replies to a stream\<close>

text \<open>
  What a client is due for a stream of bytes: the replies to its commands in order, and the
  farewell when it breaks the protocol.
\<close>

definition farewell :: "read_error \<Rightarrow> bytes" where
  "farewell e = (if IsProtocolError e then enc_error (''ERR '' @ ProtocolError_Error e) else [])"

function replies_to :: "(nat \<Rightarrow> env) \<Rightarrow> read_error \<Rightarrow> nat \<Rightarrow> bytes \<Rightarrow> server \<Rightarrow> bytes \<times> server" where
  "replies_to Es fin i stream s =
     (case ReadCommand fin stream of
        Inl e \<Rightarrow> (farewell e, s)
      | Inr (args, rest) \<Rightarrow>
          (if args = [] then replies_to Es fin i rest s
           else
             (case answer (Es i) args s of
                (WOk, s', q) \<Rightarrow>
                  (case replies_to Es fin (i + 1) rest s' of (out, s'') \<Rightarrow> (q @ out, s''))
              | (_, s', q) \<Rightarrow> (q, s'))))"
  by pat_completeness auto
termination
  by (relation "measure (\<lambda>(Es, fin, i, stream, s). length stream)") (auto dest: ReadCommand_Inr(3))

declare replies_to.simps [simp del]

section \<open>Lemmas\<close>

lemma dispatch_answer:
  assumes "healthy w"
  obtains r s1 q w1 where "answer E args s = (r, s1, q)" and "r \<noteq> WErr"
    and "dispatch E bufio_write args s w = (r, s1, w1)"
    and "bufio_content w1 = bufio_content w @ q" and "healthy w1"
proof -
  obtain r s1 q where g: "\<forall>b. dispatch E buffer_write args s b = (r, s1, b @ q)" "r \<noteq> WErr"
    and m: "bufio_w.runs_as (dispatch E bufio_write args s) r s1 q"
    using bufio_w.mirrors_dispatch [of E args s] unfolding bufio_w.mirrors_def by blast
  obtain x s' w1 where d: "dispatch E bufio_write args s w = (x, s', w1)"
    by (cases "dispatch E bufio_write args s w") auto
  have "x = r" "healthy w1"
    using bufio_w.runs_as_good [OF m assms] d by simp_all
  moreover have "s' = s1 \<and> bufio_content w1 = bufio_content w @ q"
    using bufio_w.runs_as_ok [OF m, of w s' w1] bufio_w.runs_as_panic [OF m, of w s' w1] d g(2) \<open>x = r\<close>
    by (cases r) auto
  ultimately show thesis
    using that [of r s1 q w1] g d by (simp add: answer_def)
qed

lemma flush_healthy:
  assumes "healthy w"
  obtains w1 where "bufio_flush w = (True, w1)" and "healthy w1" and "bw_buf w1 = []"
    and "bufio_content w1 = bufio_content w"
  using bufio_flush_healthy [OF assms] bufio_flush_content [of w] bufio_flush_ok(1) that by force

lemma reportReadError_farewell:
  assumes "healthy w" and "ReadCommand f buf = Inl e" and "\<not> IsProtocolError f"
  shows "healthy (reportReadError e w)"
    and "bufio_content (reportReadError e w) = bufio_content w @ farewell e"
proof -
  have "healthy (reportReadError e w) \<and>
    bufio_content (reportReadError e w) = bufio_content w @ farewell e"
  proof (cases "IsProtocolError e")
    case True
    then obtain m where m: "e = ProtocolError m" by (cases e) auto
    have "no_newline m"
      using ReadCommand_message [of f buf m] assms(2,3) m by (cases f) auto
    then have em: "bufio_w.emits (WriteError bufio_write (''ERR '' @ ProtocolError_Error e)) (farewell e)"
      using True by (simp add: m farewell_def CR_def LF_def bufio_w.emits_error)
    obtain w1 where w1: "WriteError bufio_write (''ERR '' @ ProtocolError_Error e) w = (WOk, w1)" "healthy w1"
      using bufio_w.emits_good [OF em assms(1)] by blast
    then show ?thesis
      using bufio_w.emits_ok [OF em w1(1)] by (simp add: reportReadError_def m)
  next
    case False
    with assms(1) show ?thesis
      by (simp add: reportReadError_def farewell_def)
  qed
  then show "healthy (reportReadError e w)"
    and "bufio_content (reportReadError e w) = bufio_content w @ farewell e"
    by simp_all
qed

lemma need_simps [simp]: "\<not> IsProtocolError need" "farewell need = []" "need \<noteq> EOF"
  by (simp_all add: need_def farewell_def)

text \<open>How the replies due unfold when the first command has been parsed from a part of the stream.\<close>

lemma replies_to_refused:
  "ReadCommand need buf = Inl e \<Longrightarrow> e \<noteq> need \<Longrightarrow> replies_to Es f i (buf @ t) s = (farewell e, s)"
  using ReadCommand_refused [of "''need more input''" buf e f t]
  by (subst replies_to.simps) (simp add: need_def)

lemma replies_to_blocked: "ReadCommand need buf = Inl need \<Longrightarrow> replies_to Es need i buf s = ([], s)"
  by (subst replies_to.simps) simp

lemma replies_to_empty:
  "ReadCommand need buf = Inr ([], rest) \<Longrightarrow> replies_to Es f i (buf @ t) s = replies_to Es f i (rest @ t) s"
  using ReadCommand_more [of need buf "[]" rest f t] by (subst replies_to.simps) simp

lemma replies_to_command:
  assumes "ReadCommand need buf = Inr (args, rest)" and "args \<noteq> []" and "answer (Es i) args s = (r, s', q)"
    and "r \<noteq> WErr"
  shows "replies_to Es f i (buf @ t) s =
    (if r = WOk then (q @ fst (replies_to Es f (i + 1) (rest @ t) s'), snd (replies_to Es f (i + 1) (rest @ t) s'))
     else (q, s'))"
  using assms ReadCommand_more [OF assms(1), of f t]
  by (subst replies_to.simps) (cases r; simp add: case_prod_beta)

text \<open>
  What the loop has done when it starts with \<open>buf\<close> unparsed: the replies due to \<open>buf\<close> and the
  chunks to come are written, and at each read the replies due to what was received are on the
  connection.
\<close>

definition loop_ok ::
  "(nat \<Rightarrow> env) \<Rightarrow> read_error \<Rightarrow> nat \<Rightarrow> bytes list \<Rightarrow> bytes \<Rightarrow> bytes \<Rightarrow> server \<Rightarrow> bufw
    \<Rightarrow> conn_reads \<times> server \<times> bufw \<Rightarrow> bool" where
  "loop_ok Es fin i chunks received buf s w res \<longleftrightarrow>
     (case res of (reads, s', w') \<Rightarrow>
        healthy w' \<and>
        (bufio_content w', s') =
          (bufio_content w @ fst (replies_to Es fin i (buf @ concat chunks) s),
           snd (replies_to Es fin i (buf @ concat chunks) s)) \<and>
        (\<forall>(rcv, v) \<in> set reads. bw_buf v = [] \<and>
           (\<exists>x. rcv = received @ x \<and>
              written (bw_dev v) = bufio_content w @ fst (replies_to Es need i (buf @ x) s))))"

lemma loop_ok_refused:
  assumes "healthy w" and "ReadCommand need buf = Inl e" and "e \<noteq> need"
  shows "loop_ok Es fin i chunks received buf s w ([], s, reportReadError e w)"
  using reportReadError_farewell [OF assms(1,2)] replies_to_refused [OF assms(2,3)]
  by (simp add: loop_ok_def)

lemma loop_ok_end:
  assumes "healthy w" and "ReadCommand need buf = Inl need" and "\<not> IsProtocolError fin"
    and "bufio_flush w = (True, w1)"
  shows "\<exists>e. ReadCommand fin buf = Inl e \<and>
    loop_ok Es fin i [] received buf s w ([(received, w1)], s, reportReadError e w1)"
proof -
  obtain e where e: "ReadCommand fin buf = Inl e"
    using assms(2) ReadCommand_more [of fin buf _ _ need "[]"] by (cases "ReadCommand fin buf") fastforce+
  have w1: "healthy w1" "bw_buf w1 = []" "bufio_content w1 = bufio_content w"
    using flush_healthy [OF assms(1)] assms(4) by auto
  have "replies_to Es fin i buf s = (farewell e, s)"
    using e by (subst replies_to.simps) simp
  then show ?thesis
    using e w1 reportReadError_farewell [OF w1(1) e assms(3)] replies_to_blocked [OF assms(2), of Es i s]
    by (simp add: loop_ok_def bufio_content_def [of w1])
qed

lemma loop_ok_read:
  assumes "loop_ok Es fin i cs (received @ c) (buf @ c) s w1 (reads, r)"
    and "ReadCommand need buf = Inl need" and "healthy w" and "bufio_flush w = (True, w1)"
  shows "loop_ok Es fin i (c # cs) received buf s w ((received, w1) # reads, r)"
proof -
  have w1: "healthy w1" "bw_buf w1 = []" "bufio_content w1 = bufio_content w"
    using flush_healthy [OF assms(3)] assms(4) by auto
  have "\<exists>x. rcv = received @ x \<and> written (bw_dev v) = bufio_content w @ fst (replies_to Es need i (buf @ x) s)"
    if "\<exists>x. rcv = received @ c @ x \<and>
        written (bw_dev v) = bufio_content w @ fst (replies_to Es need i (buf @ c @ x) s)" for rcv v
    using that by (metis append_assoc)
  with assms(1) w1 replies_to_blocked [OF assms(2), of Es i s] show ?thesis
    by (auto simp: loop_ok_def bufio_content_def [of w1])
qed

lemma loop_ok_skip:
  assumes "loop_ok Es fin i chunks received rest s w res" and "ReadCommand need buf = Inr ([], rest)"
  shows "loop_ok Es fin i chunks received buf s w res"
  using assms(1) unfolding loop_ok_def replies_to_empty [OF assms(2)] .

lemma loop_ok_command:
  assumes "loop_ok Es fin (i + 1) chunks received rest s' w' res"
    and "ReadCommand need buf = Inr (args, rest)" and "args \<noteq> []" and "answer (Es i) args s = (WOk, s', q)"
    and "bufio_content w' = bufio_content w @ q"
  shows "loop_ok Es fin i chunks received buf s w res"
  using assms(1) replies_to_command [where Es = Es and i = i, OF assms(2-4)] assms(5) by (simp add: loop_ok_def)

lemma loop_ok_panic:
  assumes "ReadCommand need buf = Inr (args, rest)" and "args \<noteq> []" and "answer (Es i) args s = (WPanic, s', q)"
    and "bufio_content w' = bufio_content w @ q" and "healthy w'"
  shows "loop_ok Es fin i chunks received buf s w ([], s', w')"
  using replies_to_command [where Es = Es and i = i, OF assms(1-3)] assms(4,5) by (simp add: loop_ok_def)

lemma ReadCommand_cases:
  obtains (refused) e where "ReadCommand need buf = Inl e" "e \<noteq> need"
    | (blocked) "ReadCommand need buf = Inl need"
    | (empty) rest where "ReadCommand need buf = Inr ([], rest)" "length rest < length buf"
    | (command) args rest where "ReadCommand need buf = Inr (args, rest)" "args \<noteq> []" "length rest < length buf"
proof (cases "ReadCommand need buf")
  case (Inl e)
  then show thesis
    using refused blocked by (cases "e = need") auto
next
  case (Inr y)
  obtain args rest where y: "y = (args, rest)" by (cases y)
  show thesis
    using empty [of rest] command [of args rest] Inr y ReadCommand_Inr(3) [of need buf args rest]
    by (cases "args = []") auto
qed

lemma conn_loop_ok:
  assumes fin: "\<not> IsProtocolError fin" and "healthy w"
  shows "loop_ok Es fin i chunks received buf s w (conn_loop Es fin i chunks received buf s w)"
  using assms(2)
proof (induction "(length chunks, length buf)" arbitrary: i chunks received buf s w
    rule: wf_induct_rule [OF wf_lex_prod [OF wf_less_than wf_less_than]])
  case (1 chunks buf i received s w)
  note IH = "1.hyps"
  show ?case
  proof (cases buf rule: ReadCommand_cases)
    case refused
    then show ?thesis
      using loop_ok_refused [OF "1.prems"] by (subst conn_loop.simps) simp
  next
    case blocked
    obtain w1 where w1: "bufio_flush w = (True, w1)" "healthy w1"
      using flush_healthy [OF "1.prems"] by blast
    show ?thesis
    proof (cases chunks)
      case Nil
      obtain e where "ReadCommand fin buf = Inl e"
        "loop_ok Es fin i [] received buf s w ([(received, w1)], s, reportReadError e w1)"
        using loop_ok_end [OF "1.prems" blocked fin w1(1)] by blast
      then show ?thesis
        using blocked w1 Nil by (subst conn_loop.simps) (simp add: flushBeforeRead_def)
    next
      case (Cons c cs)
      have "loop_ok Es fin i cs (received @ c) (buf @ c) s w1 (conn_loop Es fin i cs (received @ c) (buf @ c) s w1)"
        using w1(2) Cons by (intro IH) simp_all
      from loop_ok_read [OF _ blocked "1.prems" w1(1)] this show ?thesis
        using blocked w1 Cons
        by (subst conn_loop.simps) (auto simp: flushBeforeRead_def split: prod.split)
    qed
  next
    case (empty rest)
    then have "loop_ok Es fin i chunks received rest s w (conn_loop Es fin i chunks received rest s w)"
      using "1.prems" by (intro IH) simp_all
    from loop_ok_skip [OF this empty(1)] show ?thesis
      using empty by (subst conn_loop.simps) simp
  next
    case (command args rest)
    obtain r s1 q w1 where a: "answer (Es i) args s = (r, s1, q)" "r \<noteq> WErr"
      "dispatch (Es i) bufio_write args s w = (r, s1, w1)"
      "bufio_content w1 = bufio_content w @ q" "healthy w1"
      using dispatch_answer [OF "1.prems"] by blast
    show ?thesis
    proof (cases r)
      case WOk
      have "loop_ok Es fin (i + 1) chunks received rest s1 w1 (conn_loop Es fin (i + 1) chunks received rest s1 w1)"
        using a(5) command(3) by (intro IH) simp_all
      from loop_ok_command [OF this command(1,2) a(1) [unfolded WOk] a(4)] show ?thesis
        using command a WOk by (subst conn_loop.simps) simp
    next
      case WPanic
      from loop_ok_panic [where Es = Es and i = i, OF command(1,2) a(1) [unfolded WPanic] a(4,5)] show ?thesis
        using command a WPanic by (subst conn_loop.simps) simp
    qed (use a(2) in simp)
  qed
qed

lemma HandleConn_ok:
  assumes "quota conn = None" and "\<not> IsProtocolError fin"
    and "HandleConn Es fin chunks conn s = (reads, s', w)"
  shows "written (bw_dev w) = written conn @ fst (replies_to Es fin 0 (concat chunks) s)"
    and "s' = snd (replies_to Es fin 0 (concat chunks) s)"
    and "\<And>rcv v. (rcv, v) \<in> set reads \<Longrightarrow>
      bw_buf v = [] \<and> written (bw_dev v) = written conn @ fst (replies_to Es need 0 rcv s)"
proof -
  let ?w = "NewWriterSize writeBufSize conn"
  have h: "healthy ?w" "bufio_content ?w = written conn"
    using assms(1) by (simp_all add: healthy_def NewWriterSize_def bufio_content_def)
  obtain w0 where w0: "conn_loop Es fin 0 chunks [] [] s ?w = (reads, s', w0)" "w = snd (bufio_flush w0)"
    using assms(3) by (auto simp: HandleConn_def split: prod.splits)
  have l: "loop_ok Es fin 0 chunks [] [] s ?w (reads, s', w0)"
    using conn_loop_ok [OF assms(2) h(1), of Es 0 chunks "[]" "[]" s] w0(1) by simp
  then have l0: "healthy w0"
    "bufio_content w0 = written conn @ fst (replies_to Es fin 0 (concat chunks) s)"
    "s' = snd (replies_to Es fin 0 (concat chunks) s)"
    "\<forall>(rcv, v) \<in> set reads. bw_buf v = [] \<and>
       (\<exists>x. rcv = x \<and> written (bw_dev v) = written conn @ fst (replies_to Es need 0 x s))"
    unfolding loop_ok_def by (simp_all add: h(2))
  obtain w1 where "bufio_flush w0 = (True, w1)" "bw_buf w1 = []" "bufio_content w1 = bufio_content w0"
    using flush_healthy [OF l0(1)] by blast
  with w0(2) l0(2) show "written (bw_dev w) = written conn @ fst (replies_to Es fin 0 (concat chunks) s)"
    by (simp add: bufio_content_def [of w1])
  show "s' = snd (replies_to Es fin 0 (concat chunks) s)"
    by (rule l0(3))
  show "bw_buf v = [] \<and> written (bw_dev v) = written conn @ fst (replies_to Es need 0 rcv s)"
    if "(rcv, v) \<in> set reads" for rcv v
    using l0(4) that by auto
qed

subsection \<open>A client that pings\<close>

lemma answer_ping: "answer E [''PING''] s = (WOk, counted s, enc_simple ''PONG'')"
proof -
  have "ToUpper (unicode_of E) ''PING'' = ''PING''"
    by code_simp
  then have "commands (ToUpper (unicode_of E) ([''PING''] ! 0)) =
      Some \<lparr>minArgs = 0, maxArgs = 1, writes = False, fn = ping :: bytes handler\<rparr>"
    by (simp add: commands_def)
  from dispatch_known [OF _ this] show ?thesis
    by (simp add: answer_def arity_ok_def admit_def settle_def ping_def reply_def CR_def LF_def)
qed

lemma replies_to_pings:
  "replies_to Es EOF i (concat (replicate n (enc_command [''PING'']))) s =
     (concat (replicate n (enc_simple ''PONG'')), (counted ^^ n) s)"
proof (induction n arbitrary: i s)
  case 0
  show ?case
    by (subst replies_to.simps) (simp add: ReadCommand_def readLine_torn readerBufSize_def farewell_def)
next
  case (Suc n)
  have "within_limits [''PING'']"
    by (simp add: within_limits_def MaxArrayLength_def MaxBulkLength_def)
  then show ?case
    using Suc.IH [of "i + 1" "counted s"]
    by (subst replies_to.simps) (simp add: ReadCommand_enc answer_ping funpow_swap1)
qed

section \<open>Properties\<close>

text \<open>
  C8: how the network cuts the input into reads does not matter.  On a connection that takes the
  replies, what the client has received in the end, and the server, are those due to the whole
  stream: the replies to its commands, complete and in their order, and the farewell if it
  broke the protocol; none is lost in the buffer.
\<close>

theorem HandleConn_pipelining:
  assumes "quota conn = None" and "\<not> IsProtocolError fin"
    and "HandleConn Es fin chunks conn s = (reads, s', w)"
  shows "written (bw_dev w) = written conn @ fst (replies_to Es fin 0 (concat chunks) s) \<and>
    s' = snd (replies_to Es fin 0 (concat chunks) s)"
  using HandleConn_ok(1,2) [OF assms] by blast

text \<open>
  C17: a client that waits for its replies gets them.  Whenever the handler is about to block in a
  read, the write buffer is empty and the connection has been given the replies to every
  command that is complete in what was received.
\<close>

theorem HandleConn_no_deadlock:
  assumes "quota conn = None" and "\<not> IsProtocolError fin"
    and "HandleConn Es fin chunks conn s = (reads, s', w)" and "(received, v) \<in> set reads"
  shows "bw_buf v = [] \<and>
    written (bw_dev v) = written conn @ fst (replies_to Es need 0 received s)"
  using HandleConn_ok(3) [OF assms] .

theorem HandleConn_pipelining_witness:
  "\<forall>Es. written (bw_dev (snd (snd (HandleConn Es EOF
       [take 5 (enc_command [''PING'']), drop 5 (enc_command [''PING'']) @ enc_command [''PING'']]
       fresh_dev server_New)))) = enc_simple ''PONG'' @ enc_simple ''PONG''"
proof
  fix Es
  let ?chunks = "[take 5 (enc_command [''PING'']), drop 5 (enc_command [''PING'']) @ enc_command [''PING'']]"
  obtain reads s' w where h: "HandleConn Es EOF ?chunks fresh_dev server_New = (reads, s', w)"
    by (cases "HandleConn Es EOF ?chunks fresh_dev server_New") auto
  have c: "take 5 x @ drop 5 x @ y = x @ y" for x y :: bytes
    by (metis append_assoc append_take_drop_id)
  show "written (bw_dev (snd (snd (HandleConn Es EOF ?chunks fresh_dev server_New)))) =
      enc_simple ''PONG'' @ enc_simple ''PONG''"
    using HandleConn_pipelining [OF _ _ h] h replies_to_pings [of Es 0 2 server_New]
    by (simp add: c fresh_dev_def numeral_2_eq_2)
qed

theorem HandleConn_no_deadlock_witness:
  "\<forall>Es. \<exists>v. (enc_command [''PING''], v) \<in> set (fst (HandleConn Es EOF [enc_command [''PING'']] fresh_dev server_New)) \<and>
     bw_buf v = [] \<and> written (bw_dev v) = enc_simple ''PONG''"
proof
  fix Es :: "nat \<Rightarrow> env"
  let ?p = "enc_command [''PING'']" and ?w = "NewWriterSize writeBufSize fresh_dev"
  have h: "healthy ?w" "bufio_flush ?w = (True, ?w)"
    by (simp_all add: healthy_def NewWriterSize_def fresh_dev_def bufio_flush_def)
  have n: "ReadCommand need [] = Inl need" "ReadCommand EOF [] = Inl EOF"
    by (simp_all add: ReadCommand_def readLine_torn readerBufSize_def)
  have p: "ReadCommand f ?p = Inr ([''PING''], [])" for f
    using ReadCommand_enc [of "[''PING'']" f "[]"]
    by (simp add: within_limits_def MaxArrayLength_def MaxBulkLength_def)
  obtain w1 where d: "dispatch (Es 0) bufio_write [''PING''] server_New ?w = (WOk, counted server_New, w1)" "healthy w1"
    using dispatch_answer [OF h(1), of "Es 0" "[''PING'']" server_New] answer_ping [of "Es 0" server_New] by auto
  obtain v where v: "bufio_flush w1 = (True, v)"
    using flush_healthy [OF d(2)] by blast
  have "conn_loop Es EOF 1 [] ?p [] (counted server_New) w1 = ([(?p, v)], counted server_New, v)"
    using n v by (subst conn_loop.simps) (simp add: flushBeforeRead_def reportReadError_def)
  then have "conn_loop Es EOF 0 [] ?p ?p server_New ?w = ([(?p, v)], counted server_New, v)"
    using p d by (subst conn_loop.simps) simp
  then have "fst (HandleConn Es EOF [?p] fresh_dev server_New) = [([], ?w), (?p, v)]"
    using n h by (simp add: HandleConn_def) (subst conn_loop.simps, simp add: flushBeforeRead_def)
  moreover have "written fresh_dev = []" "quota fresh_dev = None"
    by (simp_all add: fresh_dev_def)
  moreover have "fst (replies_to Es need 0 ?p server_New) = enc_simple ''PONG''"
    using p n by (subst replies_to.simps, simp add: answer_ping, subst replies_to.simps, simp)
  ultimately show "\<exists>v. (?p, v) \<in> set (fst (HandleConn Es EOF [?p] fresh_dev server_New)) \<and>
     bw_buf v = [] \<and> written (bw_dev v) = enc_simple ''PONG''"
    using HandleConn_no_deadlock [of fresh_dev EOF Es "[?p]" server_New _ _ _ ?p v]
    by (cases "HandleConn Es EOF [?p] fresh_dev server_New") auto
qed

end
