(* ===== verification/Journal.thy ===== *)
theory Journal
  imports Keyspace
begin

text \<open>
  The journal determines the keyspace.  Whatever the store is asked to do, the records it hands
  to its journal are absolute mutations, and carrying them out in order on an empty map, with
  no clock at all, gives a map that agrees with the store: what clients see is in it, with the
  deadline cut to the millisecond the record has room for, and what is in it and not past its
  deadline is what clients see.  Expired keys may leave the store without a record; the map
  still has them, but only past their deadline.
\<close>

section \<open>Definitions\<close>

text \<open>The record of a mutation.\<close>

fun enc_mut :: "mutation \<Rightarrow> bytes list" where
  "enc_mut (MutSet k v at) = set_record k v at"
| "enc_mut (MutMSet ps) = cmdMSET # concat (map (\<lambda>(k, v). [k, v]) ps)"
| "enc_mut (MutDel ks) = cmdDEL # ks"
| "enc_mut (MutExpireAt k at) = [cmdPEXPIREAT, k, unixMillis at]"

text \<open>What survives of a deadline that is written as whole milliseconds.\<close>

definition ms_floor :: "time \<Rightarrow> time" where
  "ms_floor at = at - at mod 1000000"

fun ms_mut :: "mutation \<Rightarrow> mutation" where
  "ms_mut (MutSet k v at) = MutSet k v (ms_floor at)"
| "ms_mut (MutExpireAt k at) = MutExpireAt k (ms_floor at)"
| "ms_mut m = m"

text \<open>The mutations without a clock: at instant 0 no deadline has passed.\<close>

abbreviation carry_out :: "mutation list \<Rightarrow> keymap \<Rightarrow> keymap" where
  "carry_out ms J \<equiv> fold (mutate 0) (map ms_mut ms) J"

text \<open>What clients see of a key at \<open>t\<close> and what the records say of it.\<close>

definition matches :: "time \<Rightarrow> binding \<Rightarrow> binding \<Rightarrow> bool" where
  "matches t x y \<longleftrightarrow>
     (case x of
        None \<Rightarrow> live t y = None
      | Some (v, at) \<Rightarrow> y = Some (v, ms_floor at) \<and> (at = 0 \<or> 1000000 \<le> at))"

definition agree :: "time \<Rightarrow> 'j store \<Rightarrow> keymap \<Rightarrow> bool" where
  "agree t s J \<longleftrightarrow> (\<forall>k. matches t (visible t s k) (J k))"

text \<open>Every deadline that is put on a key finds the key.\<close>

fun hits :: "mutation list \<Rightarrow> keymap \<Rightarrow> bool" where
  "hits [] J = True"
| "hits (m # ms) J =
     ((case m of MutExpireAt k _ \<Rightarrow> J k \<noteq> None | _ \<Rightarrow> True) \<and> hits ms (mutate 0 (ms_mut m) J))"

text \<open>A step of the store between \<open>lo\<close> and \<open>t\<close> whose records account for what it did.\<close>

definition accounted ::
  "(bytes list \<Rightarrow> 'j \<Rightarrow> 'j) \<Rightarrow> time \<Rightarrow> time \<Rightarrow> 'j store \<Rightarrow> 'j store \<Rightarrow> bool" where
  "accounted ap lo t s s' \<longleftrightarrow>
     store_inv s' \<and>
     (\<exists>ms. journalled ap (map enc_mut ms) s s' \<and>
        (\<forall>J. agree lo s J \<longrightarrow> hits ms J \<and> agree t s' (carry_out ms J)))"

text \<open>The readings of the clock an operation makes.\<close>

fun op_times :: "store_op \<Rightarrow> time list" where
  "op_times (OpGet now now' k) = [now, now']"
| "op_times (OpSetWithTTL now k v ttl) = [now]"
| "op_times (OpSetWithDeadline now now' k v at) = [now, now']"
| "op_times (OpIncrement now k d) = [now]"
| "op_times (OpAppend now k v) = [now]"
| "op_times (OpExpire now now' k ttl) = [now, now']"
| "op_times (OpExpireAt now k at) = [now]"
| "op_times (OpDel now ks) = [now]"
| "op_times (OpActiveExpireCycle pref now) = map now [0 ..< activeExpireMaxRounds]"
| "op_times op = []"

text \<open>A run: each operation with an instant by which it is over; time does not go back.\<close>

fun paced :: "time \<Rightarrow> (time \<times> store_op) list \<Rightarrow> bool" where
  "paced lo [] = True"
| "paced lo ((t, op) # run) =
     (lo \<le> t \<and> list_all (\<lambda>r. lo \<le> r \<and> r \<le> t) (op_times op) \<and> op_ok op \<and> paced t run)"

fun last_time :: "time \<Rightarrow> (time \<times> store_op) list \<Rightarrow> time" where
  "last_time lo [] = lo"
| "last_time lo ((t, op) # run) = last_time t run"

section \<open>Agreement\<close>

lemma ms_floor_le: "ms_floor at \<le> at"
  by (simp add: ms_floor_def)

lemma ms_floor_0 [simp]: "ms_floor 0 = 0"
  by (simp add: ms_floor_def)

lemma ms_floor_pos: "1000000 \<le> at \<Longrightarrow> ms_floor at \<noteq> 0"
  using mod_less_divisor [of 1000000 at] by (simp add: ms_floor_def)

lemma live_0 [simp]: "live 0 x = x"
  by (auto simp: live_def split: option.split)

lemma live_floor:
  assumes "at = 0 \<or> 1000000 \<le> at" and "live t (Some (v, at)) = None"
  shows "live t (Some (v, ms_floor at)) = None"
  using assms ms_floor_le [of at] ms_floor_pos [of at] by (auto simp: live_def split: if_splits)

lemma live_None [simp]: "live t None = None"
  by (simp add: live_def)

lemma matches_None [simp]: "matches t None None"
  by (simp add: matches_def)

lemma matches_fresh: "at = 0 \<or> 1000000 \<le> at \<Longrightarrow> matches t (live t (Some (v, at))) (Some (v, ms_floor at))"
  using live_floor [of at t v] by (auto simp: matches_def live_def [of t "Some (v, at)"] split: if_splits)

lemma matches_later:
  assumes "matches t x y" and "t \<le> t'"
  shows "matches t' (live t' x) y"
proof (cases x)
  case None
  then show ?thesis
    using assms live_live [OF assms(2), of y] by (simp add: matches_def)
next
  case (Some z)
  obtain v at where "z = (v, at)" by (cases z)
  with Some assms(1) show ?thesis
    using matches_fresh [of at t' v] by (simp add: matches_def [of t])
qed

lemma agree_later: "agree t s J \<Longrightarrow> t \<le> t' \<Longrightarrow> agree t' s J"
  unfolding agree_def by (metis matches_later visible_later)

lemma agree_same: "agree t s J \<Longrightarrow> visible t s' = visible t s \<Longrightarrow> agree t s' J"
  by (simp add: agree_def)

lemma agree_upd:
  assumes "agree t s J" and "visible t s' = (visible t s)(k := live t (Some (v, at)))"
    and "at = 0 \<or> 1000000 \<le> at"
  shows "agree t s' (J(k \<mapsto> (v, ms_floor at)))"
  using assms matches_fresh [OF assms(3)] by (simp add: agree_def)

lemma agree_del:
  assumes "agree t s J" and "visible t s' = (\<lambda>k. if k \<in> K then None else visible t s k)"
    and "L \<subseteq> K" and "\<And>k. k \<in> K - L \<Longrightarrow> visible t s k = None"
  shows "agree t s' (\<lambda>k. if k \<in> L then None else J k)"
  unfolding agree_def
proof (intro allI)
  fix k
  have "matches t (visible t s k) (J k)"
    using assms(1) by (simp add: agree_def)
  then show "matches t (visible t s' k) (if k \<in> L then None else J k)"
    using assms(2-4) by (cases "k \<in> K"; cases "k \<in> L") auto
qed

lemma agree_bind_all:
  assumes "agree t s J" and "visible t s' = bind_all ps (visible t s)"
  shows "agree t s' (bind_all ps J)"
proof -
  have "\<forall>k. matches t (bind_all ps m k) (bind_all ps M k)" if "\<forall>k. matches t (m k) (M k)" for m M
    using that
  proof (induction ps m arbitrary: M rule: bind_all.induct)
    case (2 k v ps m)
    have "matches t (Some (v, 0)) (Some (v, 0))"
      by (simp add: matches_def)
    then have "\<forall>j. matches t ((m(k \<mapsto> (v, 0))) j) ((M(k \<mapsto> (v, 0))) j)"
      using 2(2) by simp
    from 2(1) [OF this] show ?case
      by (simp del: fun_upd_apply)
  qed simp
  with assms show ?thesis
    by (simp add: agree_def)
qed

lemma agree_New: "agree t New (\<lambda>_. None)"
  by (simp add: agree_def visible_def)

lemma agree_cases:
  assumes "agree t s J"
  shows "case visible t s k of
       None \<Rightarrow> live t (J k) = None
     | Some (v, at) \<Rightarrow> J k = Some (v, ms_floor at)"
  using assms [unfolded agree_def, rule_format, of k] unfolding matches_def by (auto split: option.split_asm)

section \<open>Every operation is accounted for\<close>

lemma hits_append: "hits (ms @ ms') J \<longleftrightarrow> hits ms J \<and> hits ms' (carry_out ms J)"
  by (induction ms arbitrary: J) auto

lemma hits_dels: "hits (map (\<lambda>k. MutDel [k]) ks) J"
  by (induction ks arbitrary: J) auto

lemma accountedI:
  assumes "store_inv s'" and "journalled ap (map enc_mut ms) s s'"
    and "\<And>J. agree lo s J \<Longrightarrow> agree t s' (carry_out ms J)" and "\<And>J. agree lo s J \<Longrightarrow> hits ms J"
  shows "accounted ap lo t s s'"
  using assms unfolding accounted_def by blast

lemma accounted_trans:
  assumes "accounted ap lo t s s'" and "accounted ap t t' s' s''"
  shows "accounted ap lo t' s s''"
proof -
  obtain ms ms' where "journalled ap (map enc_mut ms) s s'" "store_inv s''"
    "\<forall>J. agree lo s J \<longrightarrow> hits ms J \<and> agree t s' (carry_out ms J)"
    "journalled ap (map enc_mut ms') s' s''"
    "\<forall>J. agree t s' J \<longrightarrow> hits ms' J \<and> agree t' s'' (carry_out ms' J)"
    using assms unfolding accounted_def by blast
  then show ?thesis
    using journalled_trans [of ap "map enc_mut ms" s s' "map enc_mut ms'" s'']
    by (intro accountedI [where ms = "ms @ ms'"]) (auto simp: hits_append)
qed

text \<open>A step that hands nothing to the journal and changes nothing visible.\<close>

lemma accounted_silent:
  assumes "store_inv s'" and "journal s' = journal s" and "visible t s' = visible t s" and "lo \<le> t"
  shows "accounted ap lo t s s'"
  using assms
  by (intro accountedI [where ms = "[]"]) (auto simp: journalled_nil intro: agree_same agree_later)

lemma accounted_setLocked:
  assumes "store_inv s" and "lo \<le> t" and "\<And>J. agree lo s J \<Longrightarrow> at = 0 \<or> 1000000 \<le> at"
    and "visible t s1 = visible t s" and "journal s1 = journal s" and "store_inv s1"
  shows "accounted ap lo t s (setLocked ap k v at s1)"
proof (rule accountedI [where ms = "[MutSet k v at]"])
  show "journalled ap (map enc_mut [MutSet k v at]) s (setLocked ap k v at s1)"
    using setLocked_journalled [of ap k v at s1] assms(5) by (simp add: journalled_def)
  show "agree t (setLocked ap k v at s1) (carry_out [MutSet k v at] J)" if "agree lo s J" for J
    using agree_upd [OF agree_later [OF that assms(2)] _ assms(3) [OF that]]
      setLocked_visible [OF assms(6), of t ap k v at] assms(4)
    by simp
qed (simp_all add: inv_intros assms)

lemma accounted_Del:
  assumes "store_inv s" and "lo \<le> t"
  shows "accounted ap lo t s (snd (Del ap now ks s))"
proof (cases "present ks (lookup s) = []")
  case True
  then have "visible t (snd (Del ap now ks s)) = visible t s"
    using set_present [of ks "lookup s"] Del_visible [OF assms(1), where t = t and ap = ap and now = now and ks = ks]
    by (auto simp: visible_def fun_eq_iff split: option.split)
  then show ?thesis
    using Del_result(1,4) [OF assms(1), where ap = ap and now = now and ks = ks] True assms(2)
    by (intro accounted_silent) (auto simp: journalled_def option.map_id)
next
  case False
  let ?p = "present ks (lookup s)"
  show ?thesis
  proof (rule accountedI [where ms = "[MutDel ?p]"])
    show "store_inv (snd (Del ap now ks s))"
      using assms(1) by (rule Del_inv)
    show "journalled ap (map enc_mut [MutDel ?p]) s (snd (Del ap now ks s))"
      using Del_result(4) [OF assms(1), where ap = ap and now = now and ks = ks] False by simp
    have "visible t s k = None" if "k \<in> set ks - set ?p" for k
      using that set_present [of ks "lookup s"] by (simp add: visible_def)
    then show "agree t (snd (Del ap now ks s)) (carry_out [MutDel ?p] J)" if "agree lo s J" for J
      using agree_del [OF agree_later [OF that assms(2)] Del_visible [OF assms(1)], where L = "set ?p"]
        set_present [of ks "lookup s"] by simp
  qed simp
qed

lemma accounted_MSet:
  assumes "store_inv s" and "lo \<le> t"
  shows "accounted ap lo t s (MSet ap ps s)"
proof (rule accountedI [where ms = "[MutMSet (map (\<lambda>p. (Key p, Value p)) ps)]"])
  have "concat (map (\<lambda>(k, v). [k, v]) (map (\<lambda>p. (Key p, Value p)) ps)) =
      concat (map (\<lambda>p. [Key p, Value p]) ps)"
    by (simp add: comp_def)
  then show "journalled ap (map enc_mut [MutMSet (map (\<lambda>p. (Key p, Value p)) ps)]) s (MSet ap ps s)"
    using MSet_journalled [of ap ps s] by simp
  show "agree t (MSet ap ps s) (carry_out [MutMSet (map (\<lambda>p. (Key p, Value p)) ps)] J)" if "agree lo s J" for J
    using agree_bind_all [OF agree_later [OF that assms(2)] MSet_visible [OF assms(1)]] by simp
qed (simp_all add: MSet_inv assms)

text \<open>A deadline replaced or a key deleted for one that has passed.\<close>

lemma accounted_ExpireAt:
  assumes "store_inv s" and "1000000 \<le> lo" and "lo \<le> now" and "now \<le> t"
  shows "accounted ap lo t s (snd (ExpireAt ap now k at s))"
proof (cases "lookup s k")
  case None
  then show ?thesis
    using assms by (intro accounted_silent) (auto simp: ExpireAt_def lookup_def)
next
  case (Some e)
  let ?s = "snd (ExpireAt ap now k at s)"
  have inv: "store_inv ?s"
    using assms(1) by (rule ExpireAt_inv)
  note j = ExpireAt_journalled [where ap = ap and s = s and k = k and now = now and at = at]
  show ?thesis
  proof (cases "\<not> expired e now \<and> now < at")
    case True
    then have v: "visible now s k = Some (val e, expiresAt e)"
      using Some by (simp add: visible_def)
    have a: "agree t ?s (J(k \<mapsto> (val e, ms_floor at)))" if "agree lo s J" for J
      using agree_upd [OF agree_later [OF that, of t], of ?s k "val e" at] ExpireAt_visible [OF assms(1,4), of ap k at]
        v True assms by simp
    have b: "J k = Some (val e, ms_floor (expiresAt e))" if "agree lo s J" for J
      using agree_later [OF that assms(3)] v by (auto simp: agree_def matches_def dest!: spec [of _ k])
    have "agree t ?s (carry_out [MutExpireAt k at] J)" if "agree lo s J" for J
      using a [OF that] b [OF that] True assms ms_floor_pos [of at] by simp
    then show ?thesis
      using j Some True inv b by (intro accountedI [where ms = "[MutExpireAt k at]"]) auto
  next
    case False
    have "visible t ?s = (\<lambda>j. if j \<in> {k} then None else visible t s j)"
    proof (cases "expired e now")
      case True
      then have "lookup ?s = (lookup s)(k := None)"
        using ExpireAt_cases(1) [OF assms(1)] Some by (simp add: visible_def)
      then show ?thesis
        by (auto simp: visible_def fun_eq_iff)
    next
      case n: False
      then have "lookup ?s = (lookup s)(k := None)"
        using ExpireAt_cases(2) [OF assms(1)] Some False by (simp add: visible_def not_less)
      then show ?thesis
        by (auto simp: visible_def fun_eq_iff)
    qed
    then have "agree t ?s (\<lambda>j. if j \<in> {k} then None else J j)" if "agree lo s J" for J
      using agree_del [OF agree_later [OF that, of t], where s' = ?s and K = "{k}" and L = "{k}"] assms by simp
    then show ?thesis
      using j Some False inv by (intro accountedI [where ms = "[MutDel [k]]"]) auto
  qed
qed

text \<open>The deadline an entry has been given.\<close>

lemma agree_deadline:
  assumes "agree lo s J" and "lo \<le> now"
  shows "(case visible now s k of None \<Rightarrow> 0 | Some (_, at) \<Rightarrow> at) = 0 \<or>
    1000000 \<le> (case visible now s k of None \<Rightarrow> 0 | Some (_, at) \<Rightarrow> at)"
  using agree_later [OF assms]
  by (auto simp: agree_def matches_def split: option.split dest!: spec [of _ k])

lemma accounted_Append:
  assumes "store_inv s" and "lo \<le> now" and "now \<le> t"
  shows "accounted ap lo t s (snd (Append ap now k suf s))"
proof -
  let ?s1 = "snd (load_live now k s)"
  define v where "v = (case visible now s k of None \<Rightarrow> [] | Some (v, _) \<Rightarrow> v) @ suf"
  define at where "at = (case visible now s k of None \<Rightarrow> 0 | Some (_, at) \<Rightarrow> at)"
  have s1: "store_inv ?s1" "visible t ?s1 = visible t s" "journal ?s1 = journal s"
    using load_live_result(1,2) load_live_visible assms by blast+
  have e: "snd (Append ap now k suf s) = setLocked ap k v at ?s1"
    using load_live_result(4) [OF assms(1), of now k]
    by (auto simp: Append_def v_def at_def visible_def Let_def split: prod.split option.splits if_splits)
  show ?thesis
    unfolding e using assms s1 agree_deadline [OF _ assms(2), of s _ k]
    by (intro accounted_setLocked) (auto simp: at_def)
qed

lemma accounted_Increment:
  assumes "store_inv s" and "lo \<le> now" and "now \<le> t" and "in64 d"
  shows "accounted ap lo t s (snd (Increment ap now k d s))"
proof -
  let ?s1 = "snd (load_live now k s)"
  define at where "at = (case visible now s k of None \<Rightarrow> 0 | Some (_, at) \<Rightarrow> at)"
  have s1: "store_inv ?s1" "visible t ?s1 = visible t s" "journal ?s1 = journal s"
    using load_live_result(1,2) load_live_visible assms by blast+
  have "snd (Increment ap now k d s) = ?s1 \<or> (\<exists>v. snd (Increment ap now k d s) = setLocked ap k v at ?s1)"
    by (auto simp: Increment_unfold [OF assms(1,4)] at_def split: option.split)
  then consider "snd (Increment ap now k d s) = ?s1"
    | v where "snd (Increment ap now k d s) = setLocked ap k v at ?s1"
    by blast
  then show ?thesis
  proof cases
    case 1
    with s1 assms show ?thesis
      by (auto intro: accounted_silent)
  next
    case (2 v)
    show ?thesis
      unfolding 2 using assms s1 agree_deadline [OF _ assms(2), of s _ k]
      by (intro accounted_setLocked) (auto simp: at_def)
  qed
qed

lemma accounted_evictions:
  assumes "store_inv s" and "lo \<le> t"
  shows "accounted ap lo t s (snd (EnforceMemoryLimit ap pref s))"
proof -
  obtain n ok s' where e: "EnforceMemoryLimit ap pref s = ((n, ok), s')"
    by (metis prod.collapse)
  obtain vs where vs: "evicts ap s vs s'"
    using EnforceMemoryLimit_result [OF assms(1) e] by blast
  have f: "fold (mutate 0) (map ms_mut (map (\<lambda>k. MutDel [k]) ks)) J =
      (\<lambda>k. if k \<in> set ks then None else J k)" for ks J
    by (induction ks arbitrary: J) (auto simp: fun_eq_iff)
  have "visible t s' = (\<lambda>k. if k \<in> set vs then None else visible t s k)"
    using vs by (auto simp: evicts_def visible_def fun_eq_iff)
  then have "agree t s' (carry_out (map (\<lambda>k. MutDel [k]) vs) J)" if "agree lo s J" for J
    unfolding f using agree_del [OF agree_later [OF that assms(2)], where K = "set vs" and L = "set vs"] by simp
  then show ?thesis
    using vs unfolding e
    by (intro accountedI [where ms = "map (\<lambda>k. MutDel [k]) vs"]) (auto simp: evicts_def comp_def hits_dels)
qed

lemma accounted_op:
  assumes "store_inv s" and "1000000 \<le> lo" and "lo \<le> t"
    and "list_all (\<lambda>r. lo \<le> r \<and> r \<le> t) (op_times op)" and "op_ok op"
  shows "accounted ap lo t s (run_op ap op s)"
proof (cases op)
  case (OpGet now now' k)
  with assms show ?thesis
    using Get_journalled [OF assms(1), of ap now now' k]
    by (auto intro!: accounted_silent simp: Get_inv Get_visible journalled_def option.map_id)
next
  case (OpSet k v)
  with assms show ?thesis
    by (simp add: Set_def set_store_def accounted_setLocked)
next
  case (OpSetWithTTL now k v ttl)
  with assms show ?thesis
    by (auto simp: SetWithTTL_def set_store_def accounted_Del time_add_def intro!: accounted_setLocked)
next
  case (OpSetWithDeadline now now' k v at)
  with assms show ?thesis
    by (auto simp: SetWithDeadline_def set_store_def accounted_Del intro!: accounted_setLocked)
next
  case (OpActiveExpireCycle pref now)
  have "\<forall>i < activeExpireMaxRounds. now i \<le> t"
    using assms(4) OpActiveExpireCycle by (auto simp: list_all_iff)
  then have "store_inv (snd (snd (activeExpireCycle pref now s))) \<and>
    visible t (snd (snd (activeExpireCycle pref now s))) = visible t s \<and>
    journal (snd (snd (activeExpireCycle pref now s))) = journal s"
    using cycle_loop_result [of s activeExpireMaxRounds now t pref 0 0] assms(1)
    by (cases "activeExpireCycle pref now s") (auto simp: activeExpireCycle_def)
  with OpActiveExpireCycle assms(3) show ?thesis
    by (auto intro: accounted_silent)
next
  case OpTick
  with assms show ?thesis
    by (auto intro!: accounted_silent simp: tick_inv)
next
  case (OpSetMemoryLimit m p)
  with assms show ?thesis
    by (auto intro!: accounted_silent simp: SetMemoryLimit_def store_inv_def wf_store_def visible_def
        lookup_def shard_of_def fun_eq_iff)
qed (use assms in \<open>auto simp: accounted_MSet accounted_Increment accounted_Append accounted_ExpireAt
    accounted_Del accounted_evictions Expire_def op_ok_def\<close>)

lemma accounted_run:
  assumes "store_inv s" and "1000000 \<le> lo" and "paced lo run"
  shows "accounted ap lo (last_time lo run) s (fold (\<lambda>(t, op). run_op ap op) run s)"
  using assms
proof (induction run arbitrary: lo s)
  case Nil
  then show ?case
    by (auto intro: accounted_silent)
next
  case (Cons p run)
  obtain t op where p: "p = (t, op)" by (cases p)
  have o: "accounted ap lo t s (run_op ap op s)"
    using Cons.prems p by (intro accounted_op) auto
  moreover have "store_inv (run_op ap op s)"
    using o by (simp add: accounted_def)
  ultimately show ?case
    using Cons.IH [of "run_op ap op s" t] Cons.prems p by (auto intro: accounted_trans)
qed

section \<open>Properties\<close>

text \<open>
  C12: the journal determines the keyspace.  After any sequence of operations on a fresh store,
  with clock readings that do not go back, the journal holds the records of some absolute
  mutations, and carrying these out in order, without a clock, gives a map with every binding
  clients see (its deadline cut to the millisecond); what the map has beyond that is past its
  deadline.
\<close>

theorem journal_determines_keyspace:
  assumes "1000000 \<le> lo" and "paced lo run"
  shows "\<exists>ms. journal (fold (\<lambda>(t, op). run_op rec_append op) run (SetJournal [] New)) = Some (map enc_mut ms) \<and>
    (\<forall>k. case visible (last_time lo run) (fold (\<lambda>(t, op). run_op rec_append op) run (SetJournal [] New)) k of
       None \<Rightarrow> live (last_time lo run) (carry_out ms Map.empty k) = None
     | Some (v, at) \<Rightarrow> carry_out ms Map.empty k = Some (v, ms_floor at))"
proof -
  have i: "store_inv (SetJournal [] New)" and a: "agree lo (SetJournal [] New) Map.empty"
    using store_inv_New by (simp_all add: agree_def visible_def SetJournal_def New_def lookup_def shard_of_def
        store_inv_def wf_store_def)
  have f: "fold rec_append rs j = j @ rs" for rs j
    by (induction rs arbitrary: j) simp_all
  obtain ms where "journalled rec_append (map enc_mut ms) (SetJournal [] New)
      (fold (\<lambda>(t, op). run_op rec_append op) run (SetJournal [] New))"
    and g: "agree (last_time lo run) (fold (\<lambda>(t, op). run_op rec_append op) run (SetJournal [] New))
      (carry_out ms Map.empty)"
    using accounted_run [OF i assms, of rec_append] a by (auto simp: accounted_def)
  then have "journal (fold (\<lambda>(t, op). run_op rec_append op) run (SetJournal [] New)) = Some (map enc_mut ms)"
    by (simp add: journalled_def f SetJournal_def)
  moreover have "case visible (last_time lo run) (fold (\<lambda>(t, op). run_op rec_append op) run (SetJournal [] New)) k of
       None \<Rightarrow> live (last_time lo run) (carry_out ms Map.empty k) = None
     | Some (v, at) \<Rightarrow> carry_out ms Map.empty k = Some (v, ms_floor at)" for k
    by (rule agree_cases [OF g])
  ultimately show ?thesis
    by blast
qed

theorem journal_determines_keyspace_witness:
  "\<exists>ms. journal (fold (\<lambda>(t, op). run_op rec_append op)
      [(2000000::time, OpSetWithTTL 1500000 ''k'' ''4'' 5000001), (9000000, OpIncrement 7000000 ''k'' 1)]
      (SetJournal [] New)) = Some (map enc_mut ms) \<and>
    (\<forall>k. case visible 9000000 (fold (\<lambda>(t, op). run_op rec_append op)
        [(2000000::time, OpSetWithTTL 1500000 ''k'' ''4'' 5000001), (9000000, OpIncrement 7000000 ''k'' 1)]
        (SetJournal [] New)) k of
       None \<Rightarrow> live 9000000 (carry_out ms Map.empty k) = None
     | Some (v, at) \<Rightarrow> carry_out ms Map.empty k = Some (v, ms_floor at))"
proof -
  let ?run = "[(2000000::time, OpSetWithTTL 1500000 ''k'' ''4'' 5000001), (9000000, OpIncrement 7000000 ''k'' 1)]"
  have "last_time 1000000 ?run = 9000000" and "paced 1000000 ?run"
    by (simp_all add: op_ok_def in64_def minInt64_def maxInt64_def)
  with journal_determines_keyspace [of 1000000 ?run] show ?thesis
    by (simp only: order_refl)
qed

end
