(* ===== verification/Recovery.thy ===== *)
theory Recovery
  imports Server Journal
begin

text \<open>
  Restarting.  The server replays its log by running each record as a command
  (\<^verbatim>\<open>applyLogged\<close> of \<^verbatim>\<open>internal/server/server.go\<close>) at the instant it is read.  A record that
  the replay accepts has the effect of the mutation it stands for, and the whole replay gives
  the keyspace that the records describe, without the keys whose deadline has passed.

  One kind of record defeats this: a deadline is moved from before the restart to after it, as
  \<^verbatim>\<open>SET k v PXAT t1\<close> followed by \<^verbatim>\<open>PEXPIREAT k t2\<close> does when the server restarts between
  \<open>t1\<close> and \<open>t2\<close>.  \<open>no_revival\<close> says that a log has no such record for the instants it is
  replayed at, and \<open>replay_loses_extended_key\<close> shows what happens otherwise.
\<close>

section \<open>Definitions\<close>

text \<open>The mutation a record stands for, if the replay accepts it.\<close>

definition decode_rec :: "bytes list \<Rightarrow> mutation option" where
  "decode_rec r =
     (case r of
        [] \<Rightarrow> None
      | name # args \<Rightarrow>
          (if name = cmdSET then
             (case args of
                [k, v] \<Rightarrow> Some (MutSet k v 0)
              | [k, v, opt, n] \<Rightarrow>
                  (case amount n Millisecond of
                     Some d \<Rightarrow> (if opt = cmdPXAT \<and> d > 0 then Some (MutSet k v (epochPlus d)) else None)
                   | None \<Rightarrow> None)
              | _ \<Rightarrow> None)
           else if name = cmdMSET then
             (if args \<noteq> [] \<and> even (length args) then Some (MutMSet (pair_up args)) else None)
           else if name = cmdDEL then (if args \<noteq> [] then Some (MutDel args) else None)
           else if name = cmdPEXPIREAT then
             (case args of
                [k, n] \<Rightarrow> map_option (\<lambda>d. MutExpireAt k (epochPlus d)) (amount n Millisecond)
              | _ \<Rightarrow> None)
           else None))"

text \<open>
  Carried out at \<open>t\<close>, the mutation puts a deadline after \<open>t\<close> on a key whose deadline has passed
  by then.
\<close>

definition revives :: "time \<Rightarrow> mutation \<Rightarrow> keymap \<Rightarrow> bool" where
  "revives t m J \<longleftrightarrow>
     (case m of
        MutExpireAt k at \<Rightarrow>
          (case J k of Some (_, d) \<Rightarrow> d \<noteq> 0 \<and> d \<le> t \<and> t < at | None \<Rightarrow> False)
      | _ \<Rightarrow> False)"

text \<open>The \<open>i\<close>-th record is replayed at \<open>T i\<close>.\<close>

fun no_revival :: "(nat \<Rightarrow> time) \<Rightarrow> nat \<Rightarrow> mutation list \<Rightarrow> keymap \<Rightarrow> bool" where
  "no_revival T i [] J = True"
| "no_revival T i (m # ms) J = (\<not> revives (T i) m J \<and> no_revival T (Suc i) ms (mutate 0 m J))"

abbreviation replay_map :: "mutation list \<Rightarrow> keymap" where
  "replay_map ms \<equiv> fold (mutate 0) ms (\<lambda>_. None)"

section \<open>One record\<close>

lemma record_names [simp]:
  "ToUpper U ''SET'' = ''SET''" "ToUpper U ''MSET'' = ''MSET''" "ToUpper U ''DEL'' = ''DEL''"
  "ToUpper U ''PEXPIREAT'' = ''PEXPIREAT''" "ToUpper U ''PXAT'' = ''PXAT''"
  by code_simp+

lemma record_commands:
  "commands ''SET'' = Some \<lparr>minArgs = 2, maxArgs = 4, writes = True, fn = set_cmd\<rparr>"
  "commands ''MSET'' = Some \<lparr>minArgs = 2, maxArgs = - 1, writes = True, fn = mset\<rparr>"
  "commands ''DEL'' = Some \<lparr>minArgs = 1, maxArgs = - 1, writes = True, fn = del\<rparr>"
  "commands ''PEXPIREAT'' = Some \<lparr>minArgs = 2, maxArgs = 2, writes = True, fn = pexpireat\<rparr>"
  by (simp_all add: commands_def)

lemma applyLogged_meets:
  assumes "store_inv (keyspace_of s)" and "\<And>i. clk E i = now"
    and "commands (ToUpper (unicode_of E) name) = Some cmd" and "writes cmd" and "arity_ok cmd args"
    and "meets (fn cmd) f args"
    and "f (unicode_of E) now args (visible now (keyspace_of s)) = (v, m)" and "\<And>e. v \<noteq> RError e"
  shows "\<exists>s'. applyLogged E (name # args) s = (None, s') \<and> store_inv (keyspace_of s') \<and>
    visible now (keyspace_of s') = m"
proof -
  obtain s' where s': "fn cmd E buffer_write args s [] = (WOk, s', enc_reply v)"
    "store_inv (keyspace_of s')" "visible now (keyspace_of s') = m"
    using meetsD [OF assms(6,1,2), of "[]"] assms(7) by auto
  have "enc_reply v \<noteq> [] \<Longrightarrow> enc_reply v ! 0 \<noteq> CHR ''-''"
    using assms(8) by (cases v) (auto simp: enc_simple_def enc_int_def enc_null_def count_line_def enc_bulk_def)
  then show ?thesis
    using s' assms(3-5) by (auto simp: applyLogged_def Let_def)
qed

lemma epochPlus_pos: "in64 d \<Longrightarrow> 0 < epochPlus d"
  by (simp add: epochPlus_def time_add_def unixEpoch_def in64_def minInt64_def)

lemma amount_in64: "amount n u = Some d \<Longrightarrow> in64 d"
  by (auto simp: amount_def split: sum.splits if_splits)

lemma decode_rec_cases:
  assumes "decode_rec r = Some m"
  obtains (Set) k v where "r = [cmdSET, k, v]" and "m = MutSet k v 0"
    | (SetPXAT) k v n d where "r = [cmdSET, k, v, cmdPXAT, n]" and "amount n Millisecond = Some d" and "0 < d"
        and "m = MutSet k v (epochPlus d)"
    | (MSet) args where "r = cmdMSET # args" and "args \<noteq> []" and "even (length args)"
        and "m = MutMSet (pair_up args)"
    | (Del) ks where "r = cmdDEL # ks" and "ks \<noteq> []" and "m = MutDel ks"
    | (ExpireAt) k n d where "r = [cmdPEXPIREAT, k, n]" and "amount n Millisecond = Some d"
        and "m = MutExpireAt k (epochPlus d)"
  using assms by (auto simp: decode_rec_def split: list.splits if_splits option.splits)

text \<open>A record that the replay accepts is carried out as the mutation it stands for.\<close>

lemma applyLogged_decode:
  assumes "decode_rec r = Some m" and "store_inv (keyspace_of s)" and "\<And>i. clk E i = now"
  shows "\<exists>s'. applyLogged E r s = (None, s') \<and> store_inv (keyspace_of s') \<and>
    visible now (keyspace_of s') = mutate now m (visible now (keyspace_of s))"
proof -
  let ?m = "visible now (keyspace_of s)"
  note am = applyLogged_meets [OF assms(2,3)]
  note r = record_commands
  show ?thesis
    using assms(1)
  proof (cases rule: decode_rec_cases)
    case (Set k v)
    have "spec_set (unicode_of E) now [k, v] ?m = (RSimple ''OK'', mutate now m ?m)"
      by (simp add: Set(2) spec_set_def live_def)
    then show ?thesis
      using am [where name = "''SET''" and args = "[k, v]" and f = spec_set, simplified record_names, OF r(1)] meets_set [of "[k, v]"]
      by (simp add: Set(1) cmdSET_def arity_ok_def)
  next
    case (SetPXAT k v n d)
    have "expiryOptions ''PXAT'' = Some \<lparr>expiry_unit = Millisecond, absolute = True\<rparr>"
      by (simp add: expiryOptions_def)
    then have "spec_set (unicode_of E) now [k, v, ''PXAT'', n] ?m = (RSimple ''OK'', mutate now m ?m)"
      using SetPXAT(2,3) epochPlus_pos [OF amount_in64 [OF SetPXAT(2)]]
      by (simp add: SetPXAT(4) spec_set_def live_bound epochPlus_def)
    then show ?thesis
      using am [where name = "''SET''" and args = "[k, v, ''PXAT'', n]" and f = spec_set, simplified record_names, OF r(1)]
        meets_set [of "[k, v, ''PXAT'', n]"]
      by (simp add: SetPXAT(1) cmdSET_def cmdPXAT_def arity_ok_def)
  next
    case (MSet args)
    have "spec_mset (unicode_of E) now args ?m = (RSimple ''OK'', mutate now m ?m)"
      using MSet(3) by (simp add: MSet(4) spec_mset_def)
    moreover have "2 \<le> length args"
      using MSet(2,3) by (cases args rule: remdups_adj.cases) auto
    ultimately show ?thesis
      using am [where name = "''MSET''" and args = args and f = spec_mset, simplified record_names, OF r(2)] meets_mset
      by (simp add: MSet(1) cmdMSET_def arity_ok_def)
  next
    case (Del ks)
    have "spec_del (unicode_of E) now ks ?m =
        (RInt (int (card {k \<in> set ks. ?m k \<noteq> None})), mutate now m ?m)"
      by (simp add: Del(3) spec_del_def)
    moreover have "1 \<le> length ks"
      using Del(2) by (cases ks) auto
    ultimately show ?thesis
      using am [where name = "''DEL''" and args = ks and f = spec_del, simplified record_names, OF r(3)] meets_del
      by (simp add: Del(1,2) cmdDEL_def arity_ok_def)
  next
    case (ExpireAt k n d)
    have "spec_expire Millisecond True (unicode_of E) now [k, n] ?m =
        (RInt (if ?m k = None then 0 else 1), mutate now m ?m)"
      using ExpireAt(2) by (simp add: ExpireAt(3) spec_expire_def bound_def epochPlus_def split: option.split)
    then show ?thesis
      using am [where name = "''PEXPIREAT''" and args = "[k, n]" and f = "spec_expire Millisecond True", simplified record_names, OF r(4)]
        meets_expireAtIn [of "[k, n]" Millisecond]
      by (simp add: ExpireAt(1) cmdPEXPIREAT_def arity_ok_def pexpireat_def Millisecond_def)
  qed
qed

text \<open>No record starts a rewrite.\<close>

lemma writes_WG:
  assumes "commands name = Some cmd" and "writes cmd"
  shows "rewriteWG (fst (snd (fn cmd E wr args s w))) = rewriteWG s"
  using assms unfolding commands_def map_of.simps
  by (auto simp: set_cmd_def mset_def incr_def decr_def increment_def append_cmd_def del_def expire_def
      pexpire_def expireat_def pexpireat_def expireIn_def expireAtIn_def with_store_def Let_def
      split: if_splits option.split prod.split sum.split)

lemma applyLogged_WG: "rewriteWG (snd (applyLogged E r s)) = rewriteWG s"
proof -
  have "rewriteWG s' = rewriteWG s"
    if "commands name = Some cmd" "writes cmd" "fn cmd E buffer_write args s [] = (x, s', b)" for name cmd args x s' b
    using writes_WG [OF that(1,2), of E buffer_write args s "[]"] that(3) by simp
  then show ?thesis
    by (auto simp: applyLogged_def Let_def split: option.split prod.split wres.split)
qed

lemma apply_all_WG:
  "apply_all (apply_record Es) rs (i, s) = Some (j, s') \<Longrightarrow> rewriteWG s' = rewriteWG s"
proof (induction rs arbitrary: i s)
  case (Cons r rs)
  then show ?case
    using applyLogged_WG [of "Es i" r s]
    by (cases "applyLogged (Es i) r s") (auto simp: apply_record_def split: option.splits)
qed simp

section \<open>The whole log\<close>

lemma bind_all_live: "bind_all ps (\<lambda>k. live t (J k)) = (\<lambda>k. live t (bind_all ps J k))"
proof (induction ps J rule: bind_all.induct)
  case (2 k v ps J)
  have "(\<lambda>j. live t (J j))(k \<mapsto> (v, 0)) = (\<lambda>j. live t ((J(k \<mapsto> (v, 0))) j))"
    by (auto simp: live_def)
  with 2 show ?case
    by (simp del: fun_upd_apply)
qed simp

lemma mutate_live:
  assumes "\<not> revives t m J"
  shows "mutate t m (\<lambda>k. live t (J k)) = (\<lambda>k. live t (mutate 0 m J k))"
proof (cases m)
  case (MutMSet ps)
  then show ?thesis
    by (simp add: bind_all_live)
qed (use assms in \<open>auto simp: revives_def live_def fun_eq_iff split: option.splits if_splits\<close>)

lemma apply_all_decode:
  assumes "store_inv (keyspace_of s)" and "map decode_rec rs = map Some ms"
    and "\<forall>i j. clk (Es i) j = T i" and "\<forall>i. T i \<le> T (Suc i)"
    and "no_revival T i ms J" and "visible (T i) (keyspace_of s) = (\<lambda>k. live (T i) (J k))"
  shows "\<exists>s'. apply_all (apply_record Es) rs (i, s) = Some (i + length rs, s') \<and>
    store_inv (keyspace_of s') \<and>
    visible (T (i + length rs)) (keyspace_of s') = (\<lambda>k. live (T (i + length rs)) (fold (mutate 0) ms J k))"
  using assms
proof (induction rs arbitrary: ms i s J)
  case (Cons r rs)
  then obtain m ms' where ms: "ms = m # ms'" "decode_rec r = Some m" "map decode_rec rs = map Some ms'"
    by auto
  obtain s1 where s1: "applyLogged (Es i) r s = (None, s1)" "store_inv (keyspace_of s1)"
    "visible (T i) (keyspace_of s1) = mutate (T i) m (visible (T i) (keyspace_of s))"
    using applyLogged_decode [OF ms(2) Cons.prems(1), of "Es i" "T i"] Cons.prems(3) by blast
  have "visible (T i) (keyspace_of s1) = (\<lambda>k. live (T i) (mutate 0 m J k))"
    using s1(3) mutate_live [of "T i" m J] Cons.prems(5,6) ms(1) by simp
  then have "visible (T (Suc i)) (keyspace_of s1) = (\<lambda>k. live (T (Suc i)) (mutate 0 m J k))"
    using Cons.prems(4) visible_later [of "T i" "T (Suc i)" "keyspace_of s1"] live_live
    by (simp add: fun_eq_iff)
  with Cons.IH [OF s1(2) ms(3) Cons.prems(3,4), of "Suc i" "mutate 0 m J"] Cons.prems(5) ms(1) s1(1)
  show ?case
    by (simp add: apply_record_def)
qed simp

lemma no_revival_take: "no_revival T i ms J \<Longrightarrow> no_revival T i (take n ms) J"
  by (induction ms arbitrary: i n J) (auto simp: take_Cons split: nat.split)

text \<open>Replaying a prefix of a log on a server that holds nothing.\<close>

lemma replay_restores:
  assumes "\<forall>r \<in> set rs. writable r" and "map decode_rec rs = map Some ms"
    and "no_revival T 0 ms (\<lambda>_. None)" and "\<forall>i j. clk (Es i) j = T i" and "\<forall>i. T i \<le> T (Suc i)"
    and "keyspace_of srv0 = SetMemoryLimit mem pol New" and "prefix p (encode_log rs)"
  obtains n srv where "n \<le> length rs"
    and "ReplayAOF calm_fs Es (Opened p EOF) srv0 =
      ((None, \<lparr>Commands = n, Bytes = int (length (encode_log (take n rs))),
          Truncated = int (length p) - int (length (encode_log (take n rs)))\<rparr>,
        encode_log (take n rs)), n, srv)"
    and "store_inv (keyspace_of srv)" and "rewriteWG srv = rewriteWG srv0"
    and "visible (T n) (keyspace_of srv) = (\<lambda>k. live (T n) (replay_map (take n ms) k))"
    and "prefix (encode_log (take n rs)) p"
    and "p = encode_log (take n rs) \<or> n < length rs \<and> strict_prefix p (encode_log (take (Suc n) rs))"
proof -
  have i: "store_inv (keyspace_of srv0)"
    "visible (T 0) (keyspace_of srv0) = (\<lambda>k. live (T 0) ((\<lambda>_. None) k))"
    unfolding assms(6) using store_inv_New
    by (simp_all add: visible_def fun_eq_iff)
  have r: "\<exists>s'. apply_all (apply_record Es) (take n rs) (0, srv0) = Some (length (take n rs), s') \<and>
      store_inv (keyspace_of s') \<and> visible (T (length (take n rs))) (keyspace_of s') =
        (\<lambda>k. live (T (length (take n rs))) (replay_map (take n ms) k))" for n
  proof -
    have "map decode_rec (take n rs) = map Some (take n ms)"
      using assms(2) by (metis take_map)
    from apply_all_decode [OF i(1) this assms(4,5) no_revival_take [OF assms(3)] i(2)] show ?thesis
      by simp
  qed
  have "\<forall>n \<le> length rs. apply_all (apply_record Es) (take n rs) (0, srv0) \<noteq> None"
  proof (intro allI impI)
    fix n
    from r [of n] show "apply_all (apply_record Es) (take n rs) (0, srv0) \<noteq> None"
      by force
  qed
  from replay_prefix [OF assms(1,7) this] obtain n where n: "n \<le> length rs"
    "Replay calm_fs (Opened p EOF) (apply_record Es) (0, srv0) =
      ((None, \<lparr>Commands = n, Bytes = int (length (encode_log (take n rs))),
          Truncated = int (length p) - int (length (encode_log (take n rs)))\<rparr>,
        encode_log (take n rs)), the (apply_all (apply_record Es) (take n rs) (0, srv0)))"
    "prefix (encode_log (take n rs)) p"
    "p = encode_log (take n rs) \<or> n < length rs \<and> strict_prefix p (encode_log (take (Suc n) rs))"
    by blast
  moreover obtain srv where "apply_all (apply_record Es) (take n rs) (0, srv0) = Some (n, srv)"
    "store_inv (keyspace_of srv)" "visible (T n) (keyspace_of srv) = (\<lambda>k. live (T n) (replay_map (take n ms) k))"
    using r [of n] n(1) by (auto simp: min_absorb2)
  ultimately show thesis
    using that [of n srv] apply_all_WG [of Es "take n rs" 0 srv0] by (simp add: ReplayAOF_def)
qed

section \<open>What the records of a log say\<close>

text \<open>The record of a mutation is decoded to it, with its deadline in whole milliseconds.\<close>

lemma amount_unixMillis:
  assumes "amount (unixMillis at) Millisecond = Some d"
  shows "epochPlus d = ms_floor at"
proof -
  have p: "ParseInt (unixMillis at) = (if in64 (UnixMilli at) then Inr (UnixMilli at) else Inl ErrRange)"
    using ParseInt_formatInt_range [of "UnixMilli at"] by (simp add: unixMillis_def)
  have n: "d = UnixMilli at * 1000000"
    using assms unfolding amount_def p by (auto simp: Millisecond_def split: if_splits)
  have "UnixMilli at = - 62135596800000 + int at div 1000000"
    using div_mult_self1 [of "1000000 :: int" "int at" "- 62135596800000"]
    by (simp add: UnixMilli_def unixEpoch_def)
  then have "int unixEpoch + d = int at div 1000000 * 1000000"
    by (simp add: n unixEpoch_def)
  then have "int unixEpoch + d = int (ms_floor at)"
    by (simp add: ms_floor_def minus_mod_eq_div_mult flip: zdiv_int)
  then show ?thesis
    by (simp add: epochPlus_def time_add_def)
qed

lemma amount_far:
  assumes "unixEpoch + 9223372036855000000 \<le> at"
  shows "amount (unixMillis at) Millisecond = None"
proof -
  have "int unixEpoch + 9223372036855 * 1000000 \<le> int at"
    using assms by (simp add: unixEpoch_def)
  then have "9223372036855 * 1000000 div 1000000 \<le> UnixMilli at"
    unfolding UnixMilli_def by (intro zdiv_mono1) (simp_all add: unixEpoch_def)
  then have "\<not> in64 (UnixMilli at * Millisecond)"
    by (simp add: in64_def maxInt64_def Millisecond_def)
  then show ?thesis
    using ParseInt_formatInt_range [of "UnixMilli at"]
    by (cases "in64 (UnixMilli at)") (simp_all add: amount_def unixMillis_def)
qed

lemma amount_near:
  assumes "unixEpoch + 1000000 \<le> at" and "at < unixEpoch + 9223372036854000000"
  obtains d where "amount (unixMillis at) Millisecond = Some d" and "0 < d" and "epochPlus d = ms_floor at"
proof -
  have "1 * 1000000 div 1000000 \<le> UnixMilli at"
    unfolding UnixMilli_def using assms(1) by (intro zdiv_mono1) (simp_all add: unixEpoch_def)
  moreover have "UnixMilli at \<le> 9223372036854 * 1000000 div 1000000"
    unfolding UnixMilli_def using assms(2) by (intro zdiv_mono1) (simp_all add: unixEpoch_def)
  ultimately have "amount (unixMillis at) Millisecond = Some (UnixMilli at * Millisecond)"
    "0 < UnixMilli at * Millisecond"
    by (simp_all add: amount_def unixMillis_def in64_def minInt64_def maxInt64_def Millisecond_def)
  then show thesis
    using that amount_unixMillis by blast
qed

lemma pair_up_concat: "pair_up (concat (map (\<lambda>(k, v). [k, v]) ps)) = ps"
  by (induction ps) auto

lemma decode_rec_simps:
  "decode_rec [cmdSET, k, v] = Some (MutSet k v 0)"
  "decode_rec [cmdSET, k, v, cmdPXAT, n] =
     (case amount n Millisecond of
        Some d \<Rightarrow> (if d > 0 then Some (MutSet k v (epochPlus d)) else None)
      | None \<Rightarrow> None)"
  "decode_rec (cmdMSET # args) =
     (if args \<noteq> [] \<and> even (length args) then Some (MutMSet (pair_up args)) else None)"
  "decode_rec (cmdDEL # ks) = (if ks \<noteq> [] then Some (MutDel ks) else None)"
  "decode_rec [cmdPEXPIREAT, k, n] =
     map_option (\<lambda>d. MutExpireAt k (epochPlus d)) (amount n Millisecond)"
  by (simp_all add: decode_rec_def cmdSET_def cmdMSET_def cmdDEL_def cmdPEXPIREAT_def cmdPXAT_def
      split: option.split)

lemma decode_enc:
  assumes "decode_rec (enc_mut m) = Some m'"
  shows "m' = ms_mut m"
proof (cases m)
  case (MutSet k v at)
  show ?thesis
  proof (cases "at = 0")
    case False
    then obtain d where "amount (unixMillis at) Millisecond = Some d" "m' = MutSet k v (epochPlus d)"
      using assms MutSet by (auto simp: decode_rec_simps set_record_def split: if_splits option.splits)
    with MutSet amount_unixMillis show ?thesis
      by simp
  qed (use assms MutSet in \<open>auto simp: decode_rec_simps set_record_def\<close>)
next
  case (MutExpireAt k at)
  then obtain d where "amount (unixMillis at) Millisecond = Some d" "m' = MutExpireAt k (epochPlus d)"
    using assms by (auto simp: decode_rec_simps)
  with MutExpireAt amount_unixMillis show ?thesis
    by simp
qed (use assms in \<open>auto simp: decode_rec_simps pair_up_concat split: if_splits\<close>)

lemma length_encode_log_take:
  assumes "i < j" and "j \<le> length rs"
  shows "length (encode_log (take i rs)) < length (encode_log (take j rs))"
proof -
  have "take j rs = take i rs @ rs ! i # drop (Suc i) (take j rs)"
    using assms id_take_nth_drop [of i "take j rs"] by (simp add: min_absorb1)
  then have "encode_log (take j rs) =
      encode_log (take i rs) @ enc_command (rs ! i) @ encode_log (drop (Suc i) (take j rs))"
    by (metis concat.simps(2) concat_append list.simps(9) map_append)
  then show ?thesis
    by (simp add: enc_command_def count_line_def)
qed

lemma prefix_encode_log_take: "i \<le> j \<Longrightarrow> prefix (encode_log (take i rs)) (encode_log (take j rs))"
  by (metis concat_append map_append prefixI take_add le_add_diff_inverse)

text \<open>A deadline that has passed at the replay is not brought back by a later one.\<close>

lemma replay_extension:
  assumes "t1 \<le> T" and "T < t2" and "unixEpoch + 1000000 \<le> t1"
    and "t2 < unixEpoch + 9223372036854000000" and "\<forall>i j. clk (Es i) j = T"
  shows "\<exists>srv. apply_all (apply_record Es) [set_record k v t1, [cmdPEXPIREAT, k, unixMillis t2]] (0, server_New) =
      Some (2, srv) \<and> visible T (keyspace_of srv) k = None"
proof -
  obtain d1 d2 where d: "amount (unixMillis t1) Millisecond = Some d1" "0 < d1" "epochPlus d1 = ms_floor t1"
    "amount (unixMillis t2) Millisecond = Some d2"
  proof -
    have "t1 < unixEpoch + 9223372036854000000" "unixEpoch + 1000000 \<le> t2"
      using assms(1-4) by linarith+
    with that show thesis
      using amount_near [of t1 thesis] amount_near [of t2 thesis] assms(3,4) by blast
  qed
  have r: "decode_rec (set_record k v t1) = Some (MutSet k v (ms_floor t1))"
    "decode_rec [cmdPEXPIREAT, k, unixMillis t2] = Some (MutExpireAt k (epochPlus d2))"
    using d assms(3) by (simp_all add: decode_rec_simps set_record_def unixEpoch_def)
  have i: "store_inv (keyspace_of server_New)"
    by (simp add: server_New_def store_inv_New)
  obtain s1 where s1: "applyLogged (Es 0) (set_record k v t1) server_New = (None, s1)" "store_inv (keyspace_of s1)"
    "visible T (keyspace_of s1) = mutate T (MutSet k v (ms_floor t1)) (visible T (keyspace_of server_New))"
    using applyLogged_decode [OF r(1) i, of "Es 0" T] assms(5) by blast
  have "ms_floor t1 \<noteq> 0" "ms_floor t1 \<le> T"
    using ms_floor_pos [of t1] ms_floor_le [of t1] assms(1,3) by (simp_all add: unixEpoch_def)
  then have n: "visible T (keyspace_of s1) k = None"
    using s1(3) by (simp add: live_def)
  obtain s2 where "applyLogged (Es 1) [cmdPEXPIREAT, k, unixMillis t2] s1 = (None, s2)"
    "visible T (keyspace_of s2) = mutate T (MutExpireAt k (epochPlus d2)) (visible T (keyspace_of s1))"
    using applyLogged_decode [OF r(2) s1(2), of "Es 1" T] assms(5) by blast
  with s1(1) n show ?thesis
    by (intro exI [of _ s2]) (simp add: apply_record_def)
qed

section \<open>Properties\<close>

text \<open>
  C4: recovery from a crash.  Whatever part of the log's file a crash of the machine leaves, the
  restarted server replays without error some number of its records, in order; no record that
  an fsync had put on the disk is missing; the torn rest is cut off; and clients then see
  exactly what those records say, less what has expired.  This is for a log whose records are within
  the parser's limits, with deadlines in its range, and none of which moves a deadline from before
  the restart to after it.
\<close>

theorem crash_recovery:
  assumes "contents l = encode_log rs" and "crash_file (bw_dev (bw l)) p"
    and "\<forall>r \<in> set rs. writable r" and "map decode_rec rs = map Some ms"
    and "no_revival T 0 ms (\<lambda>_. None)" and "\<forall>i j. clk (Es i) j = T i" and "\<forall>i. T i \<le> T (Suc i)"
    and "keyspace_of srv0 = SetMemoryLimit mem pol New"
  shows "\<exists>n srv.
    ReplayAOF calm_fs Es (Opened p EOF) srv0 =
      ((None, \<lparr>Commands = n, Bytes = int (length (encode_log (take n rs))),
          Truncated = int (length p) - int (length (encode_log (take n rs)))\<rparr>,
        encode_log (take n rs)), n, srv) \<and>
    n \<le> length rs \<and>
    (\<forall>j \<le> length rs. prefix (encode_log (take j rs)) (on_disk (bw_dev (bw l))) \<longrightarrow> j \<le> n) \<and>
    visible (T n) (keyspace_of srv) = (\<lambda>k. live (T n) (replay_map (take n ms) k))"
proof -
  have "prefix p (encode_log rs)"
    using assms(2) unfolding assms(1) [symmetric] bufio_content_def
    by (simp add: crash_file_def prefix_prefix)
  from replay_restores [OF assms(3-8) this] obtain n srv where n: "n \<le> length rs"
    "ReplayAOF calm_fs Es (Opened p EOF) srv0 =
      ((None, \<lparr>Commands = n, Bytes = int (length (encode_log (take n rs))),
          Truncated = int (length p) - int (length (encode_log (take n rs)))\<rparr>,
        encode_log (take n rs)), n, srv)"
    "visible (T n) (keyspace_of srv) = (\<lambda>k. live (T n) (replay_map (take n ms) k))"
    "p = encode_log (take n rs) \<or> n < length rs \<and> strict_prefix p (encode_log (take (Suc n) rs))"
    by blast
  have "j \<le> n" if j: "j \<le> length rs" "prefix (encode_log (take j rs)) (on_disk (bw_dev (bw l)))" for j
  proof (rule ccontr)
    assume "\<not> j \<le> n"
    then have "length (encode_log (take n rs)) < length (encode_log (take j rs))"
      and "prefix (encode_log (take (Suc n) rs)) (encode_log (take j rs))"
      using length_encode_log_take [of n j rs] j(1) prefix_encode_log_take [of "Suc n" j rs] by simp_all
    moreover have "prefix (encode_log (take j rs)) p"
      using j(2) assms(2) by (auto simp: crash_file_def)
    ultimately show False
      using n(4) by (auto dest!: prefix_length_le length_strict_prefix)
  qed
  with n show ?thesis by blast
qed

theorem crash_recovery_witness:
  "\<forall>E. \<exists>n srv. 1 \<le> n \<and> n \<le> 2 \<and>
     snd (ReplayAOF calm_fs (\<lambda>_. E\<lparr>clk := \<lambda>_. 5\<rparr>)
       (Opened (enc_command [''SET'', ''a'', ''x''] @ ''*2'') EOF) server_New) = (n, srv) \<and>
     visible 5 (keyspace_of srv) ''a'' = Some (''x'', 0)"
proof
  fix E :: env
  let ?rs = "[[''SET'', ''a'', ''x''], [''DEL'', ''b'']]"
  let ?p = "enc_command [''SET'', ''a'', ''x''] @ ''*2''"
  let ?l = "snd (Flush (journal_append [''DEL'', ''b'']
    (snd (Sync (journal_append [''SET'', ''a'', ''x''] (fresh_log PolicyAlways))))))"
  have c: "contents ?l = encode_log ?rs" "on_disk (bw_dev (bw ?l)) = encode_log (take 1 ?rs)"
    "prefix (on_disk (bw_dev (bw ?l))) ?p" "prefix ?p (written (bw_dev (bw ?l)))"
    by code_simp+
  have h: "\<forall>r \<in> set ?rs. writable r" "map decode_rec ?rs = map Some [MutSet ''a'' ''x'' 0, MutDel [''b'']]"
    by (simp_all add: writable_def within_limits_def MaxArrayLength_def MaxBulkLength_def
        decode_rec_def cmdSET_def cmdDEL_def cmdMSET_def)
  have n: "no_revival (\<lambda>_. 5) 0 [MutSet ''a'' ''x'' 0, MutDel [''b'']] (\<lambda>_. None)"
    by (simp add: revives_def)
  have k: "keyspace_of server_New = SetMemoryLimit 0 (policy New) New"
    by (simp add: server_New_def SetMemoryLimit_def New_def)
  obtain m srv where r: "snd (ReplayAOF calm_fs (\<lambda>_. E\<lparr>clk := \<lambda>_. 5\<rparr>) (Opened ?p EOF) server_New) = (m, srv)"
    "m \<le> 2" "1 \<le> m"
    "visible 5 (keyspace_of srv) = (\<lambda>k. live 5 (replay_map (take m [MutSet ''a'' ''x'' 0, MutDel [''b'']]) k))"
    using crash_recovery [OF c(1) _ h n, of ?p "\<lambda>_. E\<lparr>clk := \<lambda>_. 5\<rparr>", OF _ _ _ k] c(2-4)
    by (auto simp: crash_file_def)
  then have "m = 1 \<or> m = 2"
    by auto
  with r show "\<exists>n srv. 1 \<le> n \<and> n \<le> 2 \<and>
     snd (ReplayAOF calm_fs (\<lambda>_. E\<lparr>clk := \<lambda>_. 5\<rparr>) (Opened ?p EOF) server_New) = (n, srv) \<and>
     visible 5 (keyspace_of srv) ''a'' = Some (''x'', 0)"
    by (intro exI [of _ m] exI [of _ srv]) (auto simp: live_def)
qed

text \<open>
  C37: a deadline past the range of a \<^verbatim>\<open>time.Duration\<close> since 1970, which is in the year 2262, can be
  given with \<^verbatim>\<open>SET k v EX n\<close>, and the record that is journalled for it is one that the replay
  refuses, so a server with such a log does not start.
\<close>

theorem replay_rejects_far_deadline:
  assumes "0 < d" and "unixEpoch + 9223372036855000000 \<le> time_add now d"
  shows "\<exists>r e. journal (SetWithTTL rec_append now k v d (SetJournal [] New)) = Some [r] \<and>
    applyLogged E r s = (Some e, s)"
proof -
  let ?at = "time_add now d"
  have z: "?at \<noteq> 0"
    using assms(2) by (simp add: unixEpoch_def)
  have "journal (SetWithTTL rec_append now k v d (SetJournal [] New)) = Some [set_record k v ?at]"
    using assms(1) setLocked_journalled [of rec_append k v ?at "SetJournal [] New"]
    by (simp add: SetWithTTL_def set_store_def journalled_def SetJournal_def)
  moreover have "set_cmd E buffer_write [k, v, ''PXAT'', unixMillis ?at] s [] = (WOk, s, enc_error errNotInteger)"
    using amount_far [OF assms(2)] by (simp add: set_cmd_def expiryOptions_def parseTTL_amount Millisecond_def
        reply_def errNotInteger_def CR_def LF_def)
  then have "\<exists>e. applyLogged E (set_record k v ?at) s = (Some e, s)"
    using z by (simp add: applyLogged_def set_record_def cmdSET_def cmdPXAT_def record_commands arity_ok_def
        enc_error_def)
  ultimately show ?thesis
    by blast
qed

theorem replay_rejects_far_deadline_witness:
  "\<forall>E s. \<exists>r e. journal (SetWithTTL rec_append (unixEpoch + 1700000000000000000) ''k'' ''v'' (8000000000 * Second)
       (SetJournal [] New)) = Some [r] \<and> applyLogged E r s = (Some e, s)"
  by (intro allI replay_rejects_far_deadline) (simp_all add: Second_def unixEpoch_def time_add_def)

text \<open>
  C38: a key whose deadline was moved is lost when the server restarts between the old deadline
  and the new one: clients still saw the key, the log records both deadlines, the replay accepts
  both records, and clients no longer see the key.
\<close>

theorem replay_loses_extended_key:
  assumes "now < t1" and "t1 \<le> T" and "T < t2" and "unixEpoch + 1000000 \<le> t1"
    and "t2 < unixEpoch + 9223372036854000000" and "\<forall>i j. clk (Es i) j = T"
  shows "\<exists>s rs srv.
    s = snd (ExpireAt rec_append now k t2
      (SetWithDeadline rec_append now now k v t1 (SetJournal [] New))) \<and>
    journal s = Some rs \<and> visible T s k = Some (v, t2) \<and>
    apply_all (apply_record Es) rs (0, server_New) = Some (2, srv) \<and>
    visible T (keyspace_of srv) k = None"
proof -
  let ?s1 = "setLocked rec_append k v t1 (SetJournal [] New)"
  let ?s2 = "snd (ExpireAt rec_append now k t2 ?s1)"
  let ?rs = "[set_record k v t1, [cmdPEXPIREAT, k, unixMillis t2]]"
  have i: "store_inv (SetJournal [] New)" "store_inv ?s1"
    using store_inv_New by (simp_all add: store_inv_setLocked SetJournal_def)
  have sd: "SetWithDeadline rec_append now now k v t1 (SetJournal [] New) = ?s1"
    using assms(1) by (simp add: SetWithDeadline_def set_store_def)
  have v1: "visible now ?s1 k = Some (v, t1)"
    using i(1) assms(1) by (simp add: setLocked_visible live_def)
  obtain c where "lookup ?s1 k = Some \<lparr>val = v, atime = c, expiresAt = t1\<rparr>"
    using i(1) by (simp add: setLocked_lookup)
  then have "journal ?s2 = Some ?rs"
    using setLocked_journalled [of rec_append k v t1 "SetJournal [] New"]
      ExpireAt_journalled [where ap = rec_append and s = ?s1 and k = k and now = now and at = t2] assms(1-3)
    by (simp add: journalled_def expired_def SetJournal_def)
  moreover have "visible T ?s2 k = Some (v, t2)"
    using ExpireAt_visible [OF i(2), of now T rec_append k t2] assms(1-3) v1 by (simp add: live_def)
  moreover obtain srv where "apply_all (apply_record Es) ?rs (0, server_New) = Some (2, srv)"
    "visible T (keyspace_of srv) k = None"
    using replay_extension [OF assms(2-6)] by blast
  ultimately show ?thesis
    unfolding sd by blast
qed

theorem replay_loses_extended_key_witness:
  "\<forall>E. \<exists>s rs srv.
    s = snd (ExpireAt rec_append (unixEpoch + 1) ''k'' (unixEpoch + 30000000)
      (SetWithDeadline rec_append (unixEpoch + 1) (unixEpoch + 1) ''k'' ''v'' (unixEpoch + 10000000)
        (SetJournal [] New))) \<and>
    journal s = Some rs \<and> visible (unixEpoch + 20000000) s ''k'' = Some (''v'', unixEpoch + 30000000) \<and>
    apply_all (apply_record (\<lambda>_. E\<lparr>clk := \<lambda>_. unixEpoch + 20000000\<rparr>)) rs (0, server_New) = Some (2, srv) \<and>
    visible (unixEpoch + 20000000) (keyspace_of srv) ''k'' = None"
  by (intro allI replay_loses_extended_key) simp_all

end
