(* ===== verification/Startup.thy ===== *)
theory Startup
  imports Recovery
begin

text \<open>
  The start of the process, the first part of \<^verbatim>\<open>main\<close> in \<^verbatim>\<open>cmd/redisclone/main.go\<close>: the flags,
  the configuration of the server, the replay of the log and its attachment.  What the operating
  system answers (the listener, the two openings of the log's file) is an argument; a call of
  \<^verbatim>\<open>logger.Fatalf\<close>, which ends the process, is a value of \<open>fatal\<close>.
\<close>

section \<open>Definitions\<close>

subsection \<open>path/filepath\<close>

fun split_slash :: "bytes \<Rightarrow> bytes list" where
  "split_slash [] = [[]]"
| "split_slash (c # cs) =
     (if c = CHR ''/'' then [] # split_slash cs
      else (case split_slash cs of [] \<Rightarrow> [[c]] | e # es \<Rightarrow> (c # e) # es))"

fun join_slash :: "bytes list \<Rightarrow> bytes" where
  "join_slash [] = []"
| "join_slash [e] = e"
| "join_slash (e # es) = e @ ''/'' @ join_slash es"

text \<open>The elements that \<^verbatim>\<open>Clean\<close> keeps, the last one first.\<close>

fun clean_loop :: "bool \<Rightarrow> bytes list \<Rightarrow> bytes list \<Rightarrow> bytes list" where
  "clean_loop rooted out [] = out"
| "clean_loop rooted out (e # es) =
     (if e = [] \<or> e = ''.'' then clean_loop rooted out es
      else if e = ''..'' then
        (case out of
           [] \<Rightarrow> clean_loop rooted (if rooted then [] else [''..'']) es
         | l # ls \<Rightarrow> clean_loop rooted (if l = ''..'' then ''..'' # out else ls) es)
      else clean_loop rooted (e # out) es)"

definition Clean :: "bytes \<Rightarrow> bytes" where
  "Clean p =
     (let rooted = (p \<noteq> [] \<and> hd p = CHR ''/'');
          q = (if rooted then ''/'' else []) @ join_slash (rev (clean_loop rooted [] (split_slash p)))
      in if q = [] then ''.'' else q)"

fun filepath_Join :: "bytes list \<Rightarrow> bytes" where
  "filepath_Join [] = []"
| "filepath_Join (e # es) = (if e \<noteq> [] then Clean (join_slash (e # es)) else filepath_Join es)"

subsection \<open>main\<close>

record flags =
  appendOnly :: bool
  appendFsync :: bytes
  appendFilename :: bytes
  dir :: bytes
  maxMemoryFlag :: bytes
  maxMemoryPolicy :: bytes

definition default_flags :: flags where
  "default_flags = \<lparr>appendOnly = False, appendFsync = ''everysec'', appendFilename = ''appendonly.aof'',
     dir = ''.'', maxMemoryFlag = ''0'', maxMemoryPolicy = ''noeviction''\<rparr>"

datatype fatal =
    ListenFailed bytes
  | BadMaxMemory memory_error
  | BadMaxMemoryPolicy bytes
  | BadAppendFsync bytes
  | ReplayFailed bytes replay_error
  | OpenLogFailed bytes bytes

text \<open>
  What the operating system answers: to listening; to opening the log's file for the replay and
  the calls it makes then; and to opening it for appending.
\<close>

record startup_env =
  listened :: "bytes option"
  logfile :: open_result
  replay_fs :: replay_env
  appender :: "bytes + dev"

text \<open>The server as it is configured before the log is read.\<close>

definition configured :: "unicode \<Rightarrow> flags \<Rightarrow> fatal + server" where
  "configured U f =
     (let s = Configure \<lparr>AppendOnly = appendOnly f, AppendFsync = appendFsync f,
                AppendFilename = appendFilename f, Dir = dir f\<rparr> server_New in
      case ParseMemory U (maxMemoryFlag f) of
        Inl e \<Rightarrow> Inl (BadMaxMemory e)
      | Inr limit \<Rightarrow>
          (case ParseEvictionPolicy U (maxMemoryPolicy f) of
             None \<Rightarrow> Inl (BadMaxMemoryPolicy (maxMemoryPolicy f))
           | Some p \<Rightarrow> Inr (with_store (SetMemoryLimit limit p (keyspace_of s)) s)))"

definition startup :: "unicode \<Rightarrow> (nat \<Rightarrow> env) \<Rightarrow> startup_env \<Rightarrow> flags \<Rightarrow> fatal + server" where
  "startup U Es X f =
     (case listened X of
        Some e \<Rightarrow> Inl (ListenFailed e)
      | None \<Rightarrow>
          (case configured U f of
             Inl e \<Rightarrow> Inl e
           | Inr s \<Rightarrow>
               (if \<not> appendOnly f then Inr s
                else
                  (case ParsePolicy (appendFsync f) of
                     None \<Rightarrow> Inl (BadAppendFsync (appendFsync f))
                   | Some pol \<Rightarrow>
                       (let p = filepath_Join [dir f, appendFilename f] in
                        case ReplayAOF (replay_fs X) Es (logfile X) s of
                          ((Some e, _), _) \<Rightarrow> Inl (ReplayFailed p e)
                        | ((None, _), _, s') \<Rightarrow>
                            (case Open (appender X) p pol of
                               Inl e \<Rightarrow> Inl (OpenLogFailed p e)
                             | Inr l \<Rightarrow> Inr (AttachAOF l s')))))))"

section \<open>Lemmas\<close>

lemma configured_server:
  assumes "configured U f = Inr s"
  obtains mem pol where "keyspace_of s = SetMemoryLimit mem pol New" and "rewriteWG s = 0"
    and "connections s = 0"
  using assms that
  by (auto simp: configured_def Let_def Configure_def server_New_def with_store_def split: sum.splits option.splits)

lemma startup_log:
  assumes "startup U Es X f = Inr s'" and "appendOnly f"
  obtains s l pol res fl n s1 where "configured U f = Inr s" and "ParsePolicy (appendFsync f) = Some pol"
    and "ReplayAOF (replay_fs X) Es (logfile X) s = ((None, res, fl), n, s1)"
    and "Open (appender X) (filepath_Join [dir f, appendFilename f]) pol = Inr l" and "s' = AttachAOF l s1"
  using assms that
  by (auto simp: startup_def Let_def split: option.splits sum.splits prod.splits)

end
