(* ===== verification/Tracking.thy ===== *)
theory Tracking
  imports Command_Effects Journal
begin

text \<open>
  From operations of the store to commands.  Every handler of \<^verbatim>\<open>commands.go\<close> changes the
  store only by operations that its journal records account for, whatever the connection's
  writer does meanwhile.

  Mutations act on one key at a time, and doing a list of them twice has the effect of doing it
  once.  This is what lets the log be rewritten while commands go on: the snapshot of a shard
  is taken at some moment after the tail has begun, so that a part of the tail is replayed on a
  state that has seen it already (\<open>tail_on_snapshot\<close>).
\<close>

section \<open>Mutations act key by key\<close>

lemma bind_all_local: "J k = J' k \<Longrightarrow> bind_all ps J k = bind_all ps J' k"
proof (induction ps J arbitrary: J' rule: bind_all.induct)
  case (2 j v ps J)
  have "(J(j \<mapsto> (v, 0))) k = (J'(j \<mapsto> (v, 0))) k"
    using 2(2) by simp
  from 2(1) [of "J'(j \<mapsto> (v, 0))", OF this] show ?case
    by (simp only: bind_all.simps)
qed simp

lemma mutate_local:
  assumes "J k = J' k"
  shows "mutate t m J k = mutate t m J' k"
proof (cases m)
  case (MutMSet ps)
  then show ?thesis
    using bind_all_local [of J k J' ps] assms by simp
next
  case (MutExpireAt j at)
  then show ?thesis
    using assms by (cases "j = k") (auto split: option.splits)
qed (use assms in auto)

lemma carry_out_local: "J k = J' k \<Longrightarrow> carry_out ms J k = carry_out ms J' k"
proof (induction ms arbitrary: J J')
  case (Cons m ms)
  show ?case
    using Cons.IH [of "mutate 0 (ms_mut m) J" "mutate 0 (ms_mut m) J'"]
      mutate_local [of J k J' 0 "ms_mut m"] Cons.prems by simp
qed simp

lemma mutate_kinds:
  "(\<exists>c. \<forall>J. mutate 0 (ms_mut m) J k = c) \<or> (\<forall>J. mutate 0 (ms_mut m) J k = J k) \<or>
   (\<exists>e. \<forall>J. mutate 0 (ms_mut m) J k = map_option (\<lambda>(v, _). (v, e)) (J k) \<and> (hits [m] J \<longrightarrow> J k \<noteq> None))"
proof (cases m)
  case (MutMSet ps)
  have "(\<exists>c. \<forall>J. bind_all ps J k = c) \<or> (\<forall>J. bind_all ps J k = J k)"
  proof (induction ps)
    case (Cons p ps)
    obtain j v where "p = (j, v)" by (cases p)
    with Cons show ?case
      by (cases "j = k") auto
  qed simp
  with MutMSet show ?thesis by auto
next
  case (MutExpireAt j at)
  consider "j \<noteq> k" | "j = k" "ms_floor at = 0" | "j = k" "ms_floor at \<noteq> 0"
    by blast
  then show ?thesis
  proof cases
    case 1
    with MutExpireAt show ?thesis by (auto split: option.split)
  next
    case 2
    with MutExpireAt show ?thesis
      by (intro disjI1 exI [of _ None]) (auto split: option.split)
  next
    case 3
    with MutExpireAt show ?thesis
      by (intro disjI2 exI [of _ "ms_floor at"]) (auto split: option.split)
  qed
qed auto

text \<open>
  What a list of mutations does to one key: it fixes the binding, or leaves it alone, or only
  moves the deadline; and it only does the last to a key that is there.
\<close>

lemma carry_out_kinds:
  obtains (const) c where "\<And>J. carry_out ms J k = c"
    | (id) "\<And>J. carry_out ms J k = J k"
    | (retime) e where "\<And>J. carry_out ms J k = map_option (\<lambda>(v, _). (v, e)) (J k)"
        and "\<And>J. hits ms J \<Longrightarrow> J k \<noteq> None"
proof -
  have "(\<exists>c. \<forall>J. carry_out ms J k = c) \<or> (\<forall>J. carry_out ms J k = J k) \<or>
    (\<exists>e. \<forall>J. carry_out ms J k = map_option (\<lambda>(v, _). (v, e)) (J k) \<and> (hits ms J \<longrightarrow> J k \<noteq> None))"
  proof (induction ms)
    case (Cons m ms)
    have c: "carry_out (m # ms) J k = carry_out ms (mutate 0 (ms_mut m) J) k" for J
      by simp
    have h: "hits (m # ms) J \<Longrightarrow> hits [m] J \<and> hits ms (mutate 0 (ms_mut m) J)" for J
      by simp
    from mutate_kinds [of m k] consider d where "\<And>J. mutate 0 (ms_mut m) J k = d"
      | "\<And>J. mutate 0 (ms_mut m) J k = J k"
      | e where "\<And>J. mutate 0 (ms_mut m) J k = map_option (\<lambda>(v, _). (v, e)) (J k)"
        "\<And>J. hits [m] J \<Longrightarrow> J k \<noteq> None"
      by blast
    then show ?case
    proof cases
      case (1 d)
      have "carry_out ms (mutate 0 (ms_mut m) J) k = carry_out ms (\<lambda>_. d) k" for J
        using 1 by (intro carry_out_local) simp
      then show ?thesis
        unfolding c by blast
    next
      case 2
      then have "carry_out ms (mutate 0 (ms_mut m) J) k = carry_out ms J k" for J
        by (intro carry_out_local) simp
      then show ?thesis
        unfolding c using Cons.IH 2 h by metis
    next
      case (3 e)
      show ?thesis
        using Cons.IH
      proof (elim disjE exE)
        fix e' assume "\<forall>J. carry_out ms J k = map_option (\<lambda>(v, _). (v, e')) (J k) \<and> (hits ms J \<longrightarrow> J k \<noteq> None)"
        then show ?thesis
          unfolding c using 3 h
          by (intro disjI2 exI [of _ e']) (auto simp: option.map_comp comp_def case_prod_beta)
      qed (unfold c, use 3 h in auto)
    qed
  qed simp
  with that show thesis by blast
qed

text \<open>
  A binding read for a snapshot at \<open>now\<close>, with the mutations of the tail carried out on it,
  most of which it has already seen.
\<close>

abbreviation snapped :: "time \<Rightarrow> binding \<Rightarrow> binding" where
  "snapped now b \<equiv> map_option (\<lambda>(v, at). (v, ms_floor at)) (live now b)"

lemma matches_snapped:
  assumes "1000000 \<le> now" and "now \<le> t"
  shows "matches t (live t b) (snapped now b)"
proof (cases "live now b")
  case None
  then show ?thesis
    using live_live [OF assms(2), of b] by simp
next
  case (Some x)
  obtain v at where x: "x = (v, at)" by (cases x)
  then have "live t b = live t (Some (v, at))" "at = 0 \<or> 1000000 \<le> at"
    using Some live_live [OF assms(2), of b] assms(1)
    by (auto simp: live_def [of now] split: option.splits if_splits)
  then show ?thesis
    using matches_fresh [of at t v] Some x by simp
qed

lemma tail_on_snapshot:
  assumes "1000000 \<le> now" and "now \<le> t" and "K k = snapped now b"
    and "matches t (live t b) (carry_out ms J k)" and "hits ms J"
  shows "matches t (live t b) (carry_out ms K k)"
proof (cases ms k rule: carry_out_kinds)
  case (const c)
  with assms(4) show ?thesis by simp
next
  case id
  with assms(3) matches_snapped [OF assms(1,2)] show ?thesis by simp
next
  case (retime e)
  obtain v d where J: "J k = Some (v, d)"
    using retime(2) [OF assms(5)] by auto
  then have m: "matches t (live t b) (Some (v, e))"
    using assms(4) retime(1) by simp
  show ?thesis
  proof (cases "live t b")
    case None
    with m have "live t (Some (v, e)) = None"
      by (simp add: matches_def)
    then have "live t (Some (v', e)) = None" for v'
      by (simp add: live_def split: if_splits)
    with None show ?thesis
      by (cases "K k") (auto simp: matches_def retime(1))
  next
    case (Some x)
    then have "live now b \<noteq> None"
      using live_live [OF assms(2), of b] by (metis live_None option.distinct(1))
    with Some m matches_snapped [OF assms(1,2), of b] show ?thesis
      using assms(3) by (auto simp: matches_def retime(1))
  qed
qed

section \<open>Commands are accounted for\<close>

text \<open>
  Whatever the connection's writer does, a handler that is called between \<open>lo\<close> and \<open>t\<close> changes
  the store by operations whose records account for the change, and leaves the counts of
  rewrites and connections alone.
\<close>

definition tracked :: "'w handler \<Rightarrow> bytes list \<Rightarrow> bool" where
  "tracked h args \<longleftrightarrow>
     (\<forall>E wr s w lo t. store_inv (keyspace_of s) \<longrightarrow> 1000000 \<le> lo \<longrightarrow> lo \<le> t \<longrightarrow>
        (\<forall>i. lo \<le> clk E i \<and> clk E i \<le> t) \<longrightarrow>
        accounted journal_append lo t (keyspace_of s) (keyspace_of (fst (snd (h E wr args s w)))) \<and>
        rewriteWG (fst (snd (h E wr args s w))) = rewriteWG s \<and>
        connections (fst (snd (h E wr args s w))) = connections s)"

lemma trackedI:
  assumes "\<And>E wr s w lo t. store_inv (keyspace_of s) \<Longrightarrow> 1000000 \<le> lo \<Longrightarrow> lo \<le> t \<Longrightarrow>
    (\<And>i. lo \<le> clk E i \<and> clk E i \<le> t) \<Longrightarrow>
    \<exists>s'. fst (snd (h E wr args s w)) = s' \<and> rewriteWG s' = rewriteWG s \<and> connections s' = connections s \<and>
      accounted journal_append lo t (keyspace_of s) (keyspace_of s')"
  shows "tracked h args"
  using assms unfolding tracked_def by blast

lemma accounted_refl: "store_inv s \<Longrightarrow> lo \<le> t \<Longrightarrow> accounted ap lo t s s"
  by (rule accounted_silent) simp_all

lemma accounted_store_op:
  assumes "store_inv s" and "1000000 \<le> lo" and "lo \<le> t" and "list_all (\<lambda>r. lo \<le> r \<and> r \<le> t) (op_times op)"
    and "op_ok op" and "run_op ap op s = s'"
  shows "accounted ap lo t s s'"
  using accounted_op [OF assms(1-5)] assms(6) by blast

lemma accounted_Get:
  "store_inv s \<Longrightarrow> lo \<le> t \<Longrightarrow> now' \<le> t \<Longrightarrow> accounted ap lo t s (snd (Get now now' k s))"
  using Get_journalled [of s ap now now' k]
  by (intro accounted_silent) (auto simp: Get_inv Get_visible journalled_def option.map_id)

lemma with_store_WG [simp]:
  "rewriteWG (with_store st s) = rewriteWG s" "connections (with_store st s) = connections s"
  by (simp_all add: with_store_def)

lemma tracked_plain:
  "tracked ping args" "tracked echo args" "tracked exists args" "tracked dbsize args" "tracked info args"
  "tracked configGet args" "tracked (ttlIn u) args"
  by (rule trackedI; simp add: ping_def echo_def exists_def dbsize_def info_def configGet_def ttlIn_def
      Let_def accounted_refl split: option.split prod.split TTLState.split)+

lemma tracked_get: "tracked get args"
  by (rule trackedI) (simp add: get_def case_prod_beta accounted_Get accounted_refl)

lemma tracked_strlen: "tracked strlen args"
proof (rule trackedI)
  fix E :: env and wr :: "'w writer" and s :: server and w :: 'w and lo t
  assume "store_inv (keyspace_of s)" and "lo \<le> t" and "\<And>i. lo \<le> clk E i \<and> clk E i \<le> t"
  moreover obtain v st where "Get (clk E 0) (clk E 1) (args ! 0) (keyspace_of s) = (v, st)"
    by (cases "Get (clk E 0) (clk E 1) (args ! 0) (keyspace_of s)")
  ultimately show "\<exists>s'. fst (snd (strlen E wr args s w)) = s' \<and> rewriteWG s' = rewriteWG s \<and> connections s' = connections s \<and>
      accounted journal_append lo t (keyspace_of s) (keyspace_of s')"
    using accounted_Get [of "keyspace_of s" lo t "clk E 1" journal_append "clk E 0" "args ! 0"]
    by (cases v) (simp_all add: strlen_def accounted_refl)
qed

lemma tracked_mget_loop:
  assumes "store_inv (keyspace_of s)" and "lo \<le> t" and "\<And>i. clk E i \<le> t"
  shows "accounted journal_append lo t (keyspace_of s) (keyspace_of (fst (snd (mget_loop E wr i args s w)))) \<and>
    rewriteWG (fst (snd (mget_loop E wr i args s w))) = rewriteWG s \<and>
    connections (fst (snd (mget_loop E wr i args s w))) = connections s"
  using assms(1,2)
proof (induction args arbitrary: i s w lo)
  case (Cons k args)
  let ?st = "snd (Get (clk E (2 * i)) (clk E (2 * i + 1)) k (keyspace_of s))"
  have "accounted journal_append lo t (keyspace_of s) ?st" "store_inv ?st"
    using accounted_Get [OF Cons.prems assms(3)] Get_inv [OF Cons.prems(1)] by simp_all
  with Cons.IH [of "with_store ?st s" t] show ?case
    by (auto simp: case_prod_beta intro: accounted_trans split: wres.split)
qed (simp add: accounted_refl)

lemma tracked_mget: "tracked mget args"
  by (rule trackedI) (simp add: mget_def case_prod_beta tracked_mget_loop accounted_refl split: wres.split)

lemma tracked_set: "tracked set_cmd args"
proof (rule trackedI)
  fix E :: env and wr :: "'w writer" and s :: server and w :: 'w and lo t
  assume a: "store_inv (keyspace_of s)" "1000000 \<le> lo" "lo \<le> t" "\<And>i. lo \<le> clk E i \<and> clk E i \<le> t"
  let ?st = "keyspace_of s" and ?k = "args ! 0" and ?v = "args ! 1"
  have "\<exists>s'. fst (snd (set_cmd E wr args s w)) = s' \<and>
    (s' = s \<or> s' = with_store (Set journal_append ?k ?v ?st) s \<or>
     (\<exists>n. s' = with_store (SetWithDeadline journal_append (clk E 0) (clk E 1) ?k ?v (epochPlus n) ?st) s) \<or>
     (\<exists>n. s' = with_store (SetWithTTL journal_append (clk E 0) ?k ?v n ?st) s))"
    by (auto simp: set_cmd_def Let_def split: option.split)
  moreover have "accounted journal_append lo t ?st (Set journal_append ?k ?v ?st)"
    using a by (intro accounted_store_op [where op = "OpSet ?k ?v"]) (simp_all add: op_ok_def)
  moreover have "accounted journal_append lo t ?st (SetWithDeadline journal_append (clk E 0) (clk E 1) ?k ?v at ?st)" for at
    using a by (intro accounted_store_op [where op = "OpSetWithDeadline (clk E 0) (clk E 1) ?k ?v at"])
      (simp_all add: op_ok_def)
  moreover have "accounted journal_append lo t ?st (SetWithTTL journal_append (clk E 0) ?k ?v n ?st)" for n
    using a by (intro accounted_store_op [where op = "OpSetWithTTL (clk E 0) ?k ?v n"]) (simp_all add: op_ok_def)
  ultimately show "\<exists>s'. fst (snd (set_cmd E wr args s w)) = s' \<and> rewriteWG s' = rewriteWG s \<and> connections s' = connections s \<and>
      accounted journal_append lo t (keyspace_of s) (keyspace_of s')"
    using accounted_refl [OF a(1,3)] by fastforce
qed

lemma tracked_mset: "tracked mset args"
  by (rule trackedI) (simp add: mset_def accounted_MSet accounted_refl)

lemma tracked_increment:
  fixes h :: "'w handler"
  assumes "in64 d" and "\<And>E wr s w. fst (snd (h E wr args s w)) = s \<or>
    fst (snd (h E wr args s w)) = fst (snd (increment E wr k d s w))"
  shows "tracked h args"
proof (rule trackedI)
  fix E :: env and wr :: "'w writer" and s :: server and w :: 'w and lo t
  assume a: "store_inv (keyspace_of s)" "1000000 \<le> lo" "lo \<le> t" "\<And>i. lo \<le> clk E i \<and> clk E i \<le> t"
  have "accounted journal_append lo t (keyspace_of s) (snd (Increment journal_append (clk E 0) k d (keyspace_of s)))"
    using a assms(1) by (intro accounted_store_op [where op = "OpIncrement (clk E 0) k d"]) (simp_all add: op_ok_def)
  moreover have "fst (snd (increment E wr k d s w)) =
      with_store (snd (Increment journal_append (clk E 0) k d (keyspace_of s))) s"
    by (auto simp: increment_def split: prod.split sum.split)
  ultimately show "\<exists>s'. fst (snd (h E wr args s w)) = s' \<and> rewriteWG s' = rewriteWG s \<and> connections s' = connections s \<and>
      accounted journal_append lo t (keyspace_of s) (keyspace_of s')"
    using assms(2) [of E wr s w] accounted_refl [OF a(1,3)] by auto
qed

lemma tracked_incr: "tracked incr args"
  by (rule tracked_increment [where k = "args ! 0" and d = 1])
    (simp_all add: incr_def in64_def minInt64_def maxInt64_def)

lemma tracked_decr: "tracked decr args"
  by (rule tracked_increment [where k = "args ! 0" and d = "- 1"])
    (simp_all add: decr_def in64_def minInt64_def maxInt64_def)

lemma tracked_append: "tracked append_cmd args"
proof (rule trackedI)
  fix E :: env and wr :: "'w writer" and s :: server and w :: 'w and lo t
  assume a: "store_inv (keyspace_of s)" "1000000 \<le> lo" "lo \<le> t" "\<And>i. lo \<le> clk E i \<and> clk E i \<le> t"
  then have "accounted journal_append lo t (keyspace_of s)
      (snd (Append journal_append (clk E 0) (args ! 0) (args ! 1) (keyspace_of s)))"
    by (intro accounted_store_op [where op = "OpAppend (clk E 0) (args ! 0) (args ! 1)"]) (simp_all add: op_ok_def)
  with accounted_refl [OF a(1,3)]
  show "\<exists>s'. fst (snd (append_cmd E wr args s w)) = s' \<and> rewriteWG s' = rewriteWG s \<and> connections s' = connections s \<and>
      accounted journal_append lo t (keyspace_of s) (keyspace_of s')"
    by (auto simp: append_cmd_def case_prod_beta)
qed

lemma tracked_del: "tracked del args"
  by (rule trackedI) (simp add: del_def case_prod_beta accounted_Del)

lemma tracked_expireIn: "tracked (expireIn u) args"
proof (rule trackedI)
  fix E :: env and wr :: "'w writer" and s :: server and w :: 'w and lo t
  assume a: "store_inv (keyspace_of s)" "1000000 \<le> lo" "lo \<le> t" "\<And>i. lo \<le> clk E i \<and> clk E i \<le> t"
  then have "accounted journal_append lo t (keyspace_of s)
      (snd (Expire journal_append (clk E 0) (clk E 1) (args ! 0) d (keyspace_of s)))" for d
    by (intro accounted_store_op [where op = "OpExpire (clk E 0) (clk E 1) (args ! 0) d"]) (simp_all add: op_ok_def)
  with accounted_refl [OF a(1,3)]
  show "\<exists>s'. fst (snd (expireIn u E wr args s w)) = s' \<and> rewriteWG s' = rewriteWG s \<and> connections s' = connections s \<and>
      accounted journal_append lo t (keyspace_of s) (keyspace_of s')"
    by (auto simp: expireIn_def case_prod_beta split: option.split)
qed

lemma tracked_expireAtIn: "tracked (expireAtIn u) args"
proof (rule trackedI)
  fix E :: env and wr :: "'w writer" and s :: server and w :: 'w and lo t
  assume a: "store_inv (keyspace_of s)" "1000000 \<le> lo" "lo \<le> t" "\<And>i. lo \<le> clk E i \<and> clk E i \<le> t"
  then have "accounted journal_append lo t (keyspace_of s)
      (snd (ExpireAt journal_append (clk E 0) (args ! 0) at (keyspace_of s)))" for at
    by (intro accounted_store_op [where op = "OpExpireAt (clk E 0) (args ! 0) at"]) (simp_all add: op_ok_def)
  with accounted_refl [OF a(1,3)]
  show "\<exists>s'. fst (snd (expireAtIn u E wr args s w)) = s' \<and> rewriteWG s' = rewriteWG s \<and> connections s' = connections s \<and>
      accounted journal_append lo t (keyspace_of s) (keyspace_of s')"
    by (auto simp: expireAtIn_def case_prod_beta split: option.split)
qed

lemmas tracked_handlers =
  tracked_plain tracked_get tracked_strlen tracked_mget tracked_set tracked_mset tracked_incr tracked_decr
  tracked_append tracked_del tracked_expireIn tracked_expireAtIn

lemma tracked_commands:
  "commands name = Some cmd \<Longrightarrow> tracked (fn cmd) args \<or> fn cmd = bgrewriteaof \<and> \<not> writes cmd"
  unfolding commands_def map_of.simps
  by (auto simp: tracked_handlers expire_def pexpire_def expireat_def pexpireat_def ttl_def pttl_def
      split: if_splits)

end
