(* ===== verification/Persistence.thy ===== *)
theory Persistence
  imports Startup Tracking
begin

text \<open>
  The running server and its log.  \<open>world\<close> is the server together with the goroutine that
  rewrites the log.  The steps are those of the goroutines of the process: a command of a
  connection from its dispatch to its reply; one operation of the store on its own, which is a
  cycle of active expiration or a part of a command that runs at the same time as others; a
  flush or fsync of the log; and the parts of \<^verbatim>\<open>bgrewriteaof\<close>'s goroutine, which reads one
  shard at a time while commands go on.  An operation of the store is one step because, with a
  journal attached, it holds the commit gate of the store from the change to its record (theory
  \<open>Interleaving\<close> has the operations cut into critical sections).

  Through any interleaving of these steps, and over any number of crashes and restarts, the log
  says what clients see (\<open>reachable_inv\<close>).
\<close>

section \<open>Definitions\<close>

text \<open>
  \<open>rw\<close> is where the rewriting goroutine is: how many shards its snapshot has, the reading of
  the clock the snapshot began with, and its records so far.
\<close>

record world =
  srv :: server
  rw :: "(nat \<times> time \<times> bytes list list) option"

abbreviation store_of :: "world \<Rightarrow> Log store" where
  "store_of w \<equiv> keyspace_of (srv w)"

definition with_log :: "Log \<Rightarrow> server \<Rightarrow> server" where
  "with_log l s = with_store ((keyspace_of s)\<lparr>journal := Some l\<rparr>) s"

text \<open>A step of one of the goroutines that begins after the instant \<open>lo\<close> and is over by \<open>t\<close>.\<close>

datatype actor = Connection | Housekeeping | Syncer | Rewriter

inductive step :: "time \<Rightarrow> world \<Rightarrow> actor \<Rightarrow> time \<Rightarrow> world \<Rightarrow> bool" where
  command: "step lo w Connection t (w\<lparr>srv := s'\<rparr>)"
    if "lo \<le> t" and "\<forall>i. lo \<le> clk E i \<and> clk E i \<le> t"
    and "dispatch E bufio_write args (srv w) b = (r, s', b')"
| operation: "step lo w Connection t (w\<lparr>srv := with_store (run_op journal_append op (store_of w)) (srv w)\<rparr>)"
    if "lo \<le> t" and "list_all (\<lambda>r. lo \<le> r \<and> r \<le> t) (op_times op)" and "op_ok op"
| expire: "step lo w Housekeeping t (w\<lparr>srv := with_store st (srv w)\<rparr>)"
    if "lo \<le> t" and "\<forall>i < activeExpireMaxRounds. lo \<le> now i \<and> now i \<le> t"
    and "activeExpireCycle pref now (store_of w) = (n, g, st)"
| sync: "step lo w Syncer t (w\<lparr>srv := with_log (snd (syncLocked fsync l)) (srv w)\<rparr>)"
    if "lo \<le> t" and "aof_of (srv w) = Some l"
| snapshot: "step lo w Rewriter t (w\<lparr>rw := Some (0, now, [])\<rparr>)"
    if "lo \<le> now" and "now \<le> t" and "rewriteWG (srv w) > 0" and "rw w = None"
| shard: "step lo w Rewriter t
      (w\<lparr>rw := Some (Suc i, now, recs @ shard_snapshot pref now (readShards (store_of w) ! i))\<rparr>)"
    if "lo \<le> t" and "rw w = Some (i, now, recs)" and "i < shardCount"
| install: "step lo w Rewriter t
      (w\<lparr>srv := (with_log l' (srv w))\<lparr>rewriteWG := rewriteWG (srv w) - 1\<rparr>, rw := None\<rparr>)"
    if "lo \<le> t" and "rw w = Some (shardCount, now, recs)" and "aof_of (srv w) = Some l"
    and "\<forall>tmp. created F = Inr tmp \<longrightarrow> written tmp = []" and "FinishRewrite F recs l = (r, l', f)"

text \<open>
  The records of a log that a server starting at the instants \<open>T\<close> replays without error and
  without losing a key.
\<close>

definition replayable :: "(nat \<Rightarrow> time) \<Rightarrow> bytes list list \<Rightarrow> bool" where
  "replayable T rs \<longleftrightarrow>
     list_all writable rs \<and> list_all (\<lambda>r. decode_rec r \<noteq> None) rs \<and>
     no_revival T 0 (map (the \<circ> decode_rec) rs) (\<lambda>_. None)"

text \<open>
  The states a server can get into, from an empty log, and over crashes: \<open>p\<close> is what the crash
  has left of the log's file.
\<close>

inductive reachable :: "time \<Rightarrow> world \<Rightarrow> bool" where
  start: "reachable t \<lparr>srv = s, rw = None\<rparr>"
    if "1000000 \<le> t" and "startup U Es X f = Inr s" and "appendOnly f"
    and "logfile X = NotExist" and "appender X = Inr d" and "written d = []"
| step: "reachable t' w'" if "reachable t w" and "step t w a t' w'"
| restart: "reachable (T n) \<lparr>srv = s, rw = None\<rparr>"
    if "reachable t w" and "aof_of (srv w) = Some l" and "log_err l = None"
    and "crash_file (bw_dev (bw l)) p" and "contents l = encode_log rs" and "replayable T rs"
    and "\<forall>i j. clk (Es i) j = T i" and "\<forall>i. T i \<le> T (Suc i)" and "t \<le> T 0"
    and "startup U Es X f = Inr s" and "appendOnly f" and "configured U f = Inr s0"
    and "logfile X = Opened p EOF" and "replay_fs X = calm_fs"
    and "ReplayAOF calm_fs Es (Opened p EOF) s0 = ((e, res, fl), n, s1)"
    and "appender X = Inr d" and "written d = fl"

section \<open>The invariant\<close>

text \<open>
  The log describes the keyspace, the tail of a rewrite describes what has happened since it
  began, and the tail carried out on the shards of the snapshot so far gives what clients see
  of their keys.
\<close>

definition snapshot_ok :: "time \<Rightarrow> Log store \<Rightarrow> mutation list \<Rightarrow> nat \<times> time \<times> bytes list list \<Rightarrow> bool" where
  "snapshot_ok t st ms x \<longleftrightarrow>
     (case x of
        (i, now, recs) \<Rightarrow>
          1000000 \<le> now \<and> now \<le> t \<and>
          (\<exists>sn. recs = map enc_mut sn \<and>
             (\<forall>k. sidx k < i \<longrightarrow> matches t (visible t st k) (carry_out ms (carry_out sn (\<lambda>_. None)) k)) \<and>
             (\<forall>k. i \<le> sidx k \<longrightarrow> carry_out sn (\<lambda>_. None) k = None)))"

definition log_ok :: "time \<Rightarrow> Log store \<Rightarrow> (nat \<times> time \<times> bytes list list) option \<Rightarrow> Log \<Rightarrow> bool" where
  "log_ok t st x l \<longleftrightarrow>
     (\<exists>ms. contents l = encode_log (map enc_mut ms) \<and> agree t st (carry_out ms (\<lambda>_. None))) \<and>
     (rewriting l \<longrightarrow>
        (\<exists>ms J. rewriteTail l = encode_log (map enc_mut ms) \<and> hits ms J \<and> agree t st (carry_out ms J) \<and>
           pred_option (snapshot_ok t st ms) x))"

definition world_inv :: "time \<Rightarrow> world \<Rightarrow> bool" where
  "world_inv t w \<longleftrightarrow>
     1000000 \<le> t \<and> store_inv (store_of w) \<and>
     (\<exists>l. aof_of (srv w) = Some l \<and> rewriteWG (srv w) = (if rewriting l then 1 else 0) \<and>
        (rw w \<noteq> None \<longrightarrow> rewriting l) \<and> (log_err l = None \<longrightarrow> log_ok t (store_of w) (rw w) l))"

section \<open>Every step keeps it\<close>

lemma rewriting_fold: "rewriting (fold journal_append rs l) = rewriting l"
proof (induction rs arbitrary: l)
  case (Cons r rs)
  then show ?case
    using log_Append_cases(3) [of r l] by (cases "log_Append r l") (simp add: journal_append_def)
qed simp

text \<open>What is known of some keys is kept for these keys.\<close>

lemma agree_some_keys:
  assumes "agree lo st J" and "\<forall>J. agree lo st J \<longrightarrow> agree t st' (carry_out ms J)"
    and "\<forall>k. P k \<longrightarrow> matches lo (visible lo st k) (K k)" and "P k"
  shows "matches t (visible t st' k) (carry_out ms K k)"
proof -
  let ?J = "\<lambda>k. if P k then K k else J k"
  have "agree lo st ?J"
    using assms(1,3) by (simp add: agree_def)
  then have "matches t (visible t st' k) (carry_out ms ?J k)"
    using assms(2) by (simp add: agree_def)
  moreover have "carry_out ms ?J k = carry_out ms K k"
    using assms(4) by (intro carry_out_local) simp
  ultimately show ?thesis by simp
qed

lemma snapshot_ok_extend:
  assumes "snapshot_ok lo st ms x" and "agree lo st J" and "lo \<le> t"
    and "\<forall>J. agree lo st J \<longrightarrow> agree t st' (carry_out ms' J)"
  shows "snapshot_ok t st' (ms @ ms') x"
proof -
  obtain i now recs sn where x: "x = (i, now, recs)" "1000000 \<le> now" "now \<le> lo" "recs = map enc_mut sn"
    "\<forall>k. sidx k < i \<longrightarrow> matches lo (visible lo st k) (carry_out ms (carry_out sn (\<lambda>_. None)) k)"
    "\<forall>k. i \<le> sidx k \<longrightarrow> carry_out sn (\<lambda>_. None) k = None"
    using assms(1) by (auto simp: snapshot_ok_def split: prod.splits)
  then show ?thesis
    using agree_some_keys [OF assms(2,4) x(5)] assms(3) by (auto simp: snapshot_ok_def)
qed

lemma log_ok_extend:
  assumes "log_ok lo st x l" and "lo \<le> t"
    and "\<forall>J. agree lo st J \<longrightarrow> hits ms J \<and> agree t st' (carry_out ms J)"
    and "contents l' = contents l @ encode_log (map enc_mut ms)" and "rewriting l' = rewriting l"
    and "rewriting l \<Longrightarrow> rewriteTail l' = rewriteTail l @ encode_log (map enc_mut ms)"
  shows "log_ok t st' x l'"
proof -
  obtain ms0 where "contents l = encode_log (map enc_mut ms0)" "agree lo st (carry_out ms0 (\<lambda>_. None))"
    using assms(1) by (auto simp: log_ok_def)
  then have "\<exists>ms. contents l' = encode_log (map enc_mut ms) \<and> agree t st' (carry_out ms (\<lambda>_. None))"
    using assms(3,4) by (intro exI [of _ "ms0 @ ms"]) simp
  moreover have "\<exists>ms J. rewriteTail l' = encode_log (map enc_mut ms) \<and> hits ms J \<and>
      agree t st' (carry_out ms J) \<and> pred_option (snapshot_ok t st' ms) x" if r: "rewriting l"
  proof -
    obtain ms1 J where m: "rewriteTail l = encode_log (map enc_mut ms1)" "hits ms1 J"
      "agree lo st (carry_out ms1 J)" "pred_option (snapshot_ok lo st ms1) x"
      using assms(1) r by (auto simp: log_ok_def)
    have "pred_option (snapshot_ok t st' (ms1 @ ms)) x"
      using m(4) snapshot_ok_extend [OF _ m(3) assms(2)] assms(3) by (cases x) auto
    then show ?thesis
      using m assms(3) assms(6) [OF r] by (intro exI [of _ "ms1 @ ms"] exI [of _ J]) (simp add: hits_append)
  qed
  ultimately show ?thesis
    using assms(5) by (simp add: log_ok_def)
qed

lemma accounted_world_inv:
  assumes "world_inv lo w" and "accounted journal_append lo t (store_of w) (keyspace_of s')"
    and "rewriteWG s' = rewriteWG (srv w)" and "lo \<le> t"
  shows "world_inv t (w\<lparr>srv := s'\<rparr>)"
proof -
  let ?st = "store_of w" and ?st' = "keyspace_of s'"
  obtain l where l: "aof_of (srv w) = Some l" "rewriteWG (srv w) = (if rewriting l then 1 else 0)"
    "rw w \<noteq> None \<longrightarrow> rewriting l" "log_err l = None \<longrightarrow> log_ok lo ?st (rw w) l" "1000000 \<le> lo"
    using assms(1) by (auto simp: world_inv_def)
  obtain ms where ms: "journalled journal_append (map enc_mut ms) ?st ?st'" "store_inv ?st'"
    "\<forall>J. agree lo ?st J \<longrightarrow> hits ms J \<and> agree t ?st' (carry_out ms J)"
    using assms(2) by (auto simp: accounted_def)
  define l' where "l' = fold journal_append (map enc_mut ms) l"
  have j: "aof_of s' = Some l'"
    using ms(1) l(1) by (simp add: journalled_def l'_def)
  have "log_ok t ?st' (rw w) l'" if ok: "log_err l' = None"
  proof -
    have f: "\<not> failed (fold journal_append (map enc_mut ms) l)"
      using ok by (simp add: l'_def)
    have "log_ok lo ?st (rw w) l"
      using l(4) aof.fold_not_failed [OF f] by simp
    then show ?thesis
      using aof.fold_append [OF f] rewriteTail_fold [OF _ f] rewriting_fold [of "map enc_mut ms" l]
      by (intro log_ok_extend [OF _ assms(4) ms(3)]) (simp_all add: l'_def)
  qed
  then show ?thesis
    using j ms(2) l assms(3,4) rewriting_fold [of "map enc_mut ms" l] by (simp add: world_inv_def l'_def)
qed

lemma world_inv_later: "world_inv lo w \<Longrightarrow> lo \<le> t \<Longrightarrow> world_inv t w"
  using accounted_world_inv [of lo w t "srv w"]
  by (simp add: accounted_refl world_inv_def)

text \<open>Changes to the log that keep what it says.\<close>

lemma with_log_simps [simp]:
  "aof_of (with_log l s) = Some l" "rewriteWG (with_log l s) = rewriteWG s"
  "store_inv (keyspace_of (with_log l s)) = store_inv (keyspace_of s)"
  "visible t (keyspace_of (with_log l s)) = visible t (keyspace_of s)"
  by (simp_all add: with_log_def)

lemma agree_with_log [simp]: "agree t (keyspace_of (with_log l s)) = agree t (keyspace_of s)"
  by (simp add: agree_def fun_eq_iff)

lemma snapshot_ok_with_log [simp]:
  "snapshot_ok t (keyspace_of (with_log l s)) = snapshot_ok t (keyspace_of s)"
  by (simp add: snapshot_ok_def fun_eq_iff)

lemma log_ok_with_log [simp]: "log_ok t (keyspace_of (with_log l s)) = log_ok t (keyspace_of s)"
  by (simp add: log_ok_def fun_eq_iff)

lemma world_inv_with_log:
  assumes "world_inv t w" and "aof_of (srv w) = Some l"
    and "contents l' = contents l" and "rewriting l' = rewriting l" and "rewriteTail l' = rewriteTail l"
    and "log_err l' = None \<Longrightarrow> log_err l = None"
  shows "world_inv t (w\<lparr>srv := with_log l' (srv w)\<rparr>)"
  using assms by (auto simp: world_inv_def log_ok_def)

lemma world_inv_sync:
  assumes "world_inv t w" and "aof_of (srv w) = Some l"
  shows "world_inv t (w\<lparr>srv := with_log (snd (syncLocked fsync l)) (srv w)\<rparr>)"
proof -
  obtain r l' where "syncLocked fsync l = (r, l')"
    by (cases "syncLocked fsync l")
  with world_inv_with_log [OF assms, of l'] syncLocked_cases [OF this] show ?thesis
    by fastforce
qed

text \<open>Commands.\<close>

lemma world_inv_settle:
  assumes "world_inv t w"
  shows "world_inv t (w\<lparr>srv := settle cmd (srv w)\<rparr>)"
proof -
  obtain l where l: "aof_of (srv w) = Some l"
    using assms by (auto simp: world_inv_def)
  show ?thesis
  proof (cases "writes cmd \<and> log_policy l = PolicyAlways")
    case True
    then have "settle cmd (srv w) = with_log (snd (syncLocked (log_policy l \<noteq> PolicyNo) l)) (srv w)"
      using l by (simp add: settle_def sync_reply_def SyncIfAlways_def Sync_def with_log_def)
    with world_inv_sync [OF assms l] show ?thesis by simp
  next
    case False
    then have "writes cmd \<Longrightarrow> settle cmd (srv w) = with_log l (srv w)"
      using l by (simp add: settle_def sync_reply_def SyncIfAlways_def with_log_def)
    with world_inv_with_log [OF assms l refl refl refl] assms show ?thesis
      by (cases "writes cmd") (simp_all add: settle_def)
  qed
qed

lemma world_inv_bgrewriteaof:
  assumes "world_inv t w"
  shows "world_inv t (w\<lparr>srv := fst (snd (bgrewriteaof E wr args (srv w) b))\<rparr>)"
proof -
  obtain l where l: "aof_of (srv w) = Some l"
    using assms by (auto simp: world_inv_def)
  obtain e l' where b: "BeginRewrite l = (e, l')"
    by (cases "BeginRewrite l")
  show ?thesis
  proof (cases e)
    case (Some m)
    then have "l' = l"
      using b by (auto simp: BeginRewrite_def split: if_splits)
    moreover have "fst (snd (bgrewriteaof E wr args (srv w) b)) = with_log l' (srv w)"
      using l b Some by (simp add: bgrewriteaof_def with_log_def)
    ultimately show ?thesis
      using world_inv_with_log [OF assms l, of l] by simp
  next
    case None
    then have c: "log_err l = None" "\<not> rewriting l" "l' = l\<lparr>rewriting := True, rewriteTail := []\<rparr>"
      using b by (auto simp: BeginRewrite_def split: if_splits)
    have s: "fst (snd (bgrewriteaof E wr args (srv w) b)) =
        (with_log l' (srv w))\<lparr>rewriteWG := rewriteWG (srv w) + 1\<rparr>"
      using l b None by (simp add: bgrewriteaof_def with_log_def)
    have i: "1000000 \<le> t" "store_inv (store_of w)" "rewriteWG (srv w) = 0" "rw w = None" "log_ok t (store_of w) None l"
      using assms l c by (cases "rw w"; simp add: world_inv_def)+
    then have "log_ok t (store_of w) None l'"
      unfolding log_ok_def c(3) using c(2) by (auto intro!: exI [of _ "[]"])
    with i c show ?thesis
      unfolding s world_inv_def by simp
  qed
qed

lemma admit_accounted:
  assumes "store_inv (keyspace_of s)" and "lo \<le> t" and "admit E cmd s = (ok, s1)"
  shows "accounted journal_append lo t (keyspace_of s) (keyspace_of s1)"
  using assms accounted_evictions [of "keyspace_of s" lo t journal_append "evict_order E"]
  by (auto simp: admit_def make_room_def counted_def accounted_refl split: if_splits prod.splits)

lemma world_inv_admit:
  assumes "world_inv lo w" and "admit E cmd (srv w) = (ok, s1)" and "lo \<le> t"
  shows "world_inv t (w\<lparr>srv := s1\<rparr>)"
proof (rule accounted_world_inv [OF assms(1) _ _ assms(3)])
  have "store_inv (store_of w)"
    using assms(1) by (simp add: world_inv_def)
  then show "accounted journal_append lo t (store_of w) (keyspace_of s1)"
    using admit_accounted [OF _ assms(3,2)] by blast
  show "rewriteWG s1 = rewriteWG (srv w)"
    using assms(2) by (auto simp: admit_def make_room_def counted_def split: if_splits prod.splits)
qed

lemma world_inv_handler:
  assumes "world_inv lo w" and "lo \<le> t" and "\<forall>i. lo \<le> clk E i \<and> clk E i \<le> t"
    and "commands name = Some cmd"
  shows "world_inv t (w\<lparr>srv := fst (snd (fn cmd E wr args (srv w) b))\<rparr>)"
  using tracked_commands [OF assms(4), of args]
proof
  assume "tracked (fn cmd) args"
  then show ?thesis
    using accounted_world_inv [OF assms(1) _ _ assms(2)] assms(1-3) unfolding tracked_def world_inv_def by blast
next
  assume "fn cmd = bgrewriteaof \<and> \<not> writes cmd"
  with world_inv_bgrewriteaof [OF world_inv_later [OF assms(1,2)]] show ?thesis
    by simp
qed

text \<open>The servers that a command can leave behind.\<close>

lemma dispatch_shapes:
  assumes "dispatch E wr args s (b :: 'w) = (r, s', b')"
  obtains (refused) "s' = counted s"
    | (full) cmd :: "'w command" and ok where "admit E cmd s = (ok, s')"
    | (ran) cmd :: "'w command" and name ok s1 where "commands name = Some cmd" and "admit E cmd s = (ok, s1)"
        and "s' = fst (snd (fn cmd E wr (tl args) s1 b)) \<or> s' = settle cmd (fst (snd (fn cmd E wr (tl args) s1 b)))"
proof (cases "args \<noteq> [] \<and> commands (ToUpper (unicode_of E) (args ! 0)) \<noteq> (None :: 'w command option)")
  case False
  then have "s' = counted s"
    using assms dispatch_unknown [of args E wr s b]
    by (cases "args = []") (auto simp: dispatch_def counted_def Let_def reply_def split: prod.splits)
  with refused show thesis .
next
  case True
  then obtain cmd :: "'w command" where cmd: "args \<noteq> []" "commands (ToUpper (unicode_of E) (args ! 0)) = Some cmd"
    by auto
  obtain ok s1 where a: "admit E cmd s = (ok, s1)"
    by (cases "admit E cmd s")
  have "s' = counted s \<or> s' = s1 \<or> s' = fst (snd (fn cmd E wr (tl args) s1 b)) \<or>
      s' = settle cmd (fst (snd (fn cmd E wr (tl args) s1 b)))"
    using assms unfolding dispatch_known [OF cmd] a
    by (auto simp: reply_def split: if_splits bool.splits prod.splits wres.splits)
  then show thesis
    using refused full [of cmd ok] ran [OF cmd(2) a] a by blast
qed

lemma world_inv_command:
  assumes "world_inv lo w" and "lo \<le> t" and "\<forall>i. lo \<le> clk E i \<and> clk E i \<le> t"
    and "dispatch E wr args (srv w) b = (r, s', b')"
  shows "world_inv t (w\<lparr>srv := s'\<rparr>)"
  using assms(4)
proof (cases rule: dispatch_shapes)
  case refused
  then show ?thesis
    using accounted_world_inv [OF assms(1), of t "counted (srv w)"] assms(1,2)
    by (simp add: counted_def accounted_refl world_inv_def)
next
  case full
  then show ?thesis
    using world_inv_admit [OF assms(1) _ assms(2)] by blast
next
  case (ran cmd name ok s1)
  let ?s2 = "fst (snd (fn cmd E wr (tl args) s1 b))"
  have "world_inv t (w\<lparr>srv := ?s2\<rparr>)"
    using world_inv_handler [OF world_inv_admit [OF assms(1) ran(2) order_refl] assms(2,3) ran(1), of wr "tl args" b]
    by simp
  with world_inv_settle [OF this, of cmd] ran(3) show ?thesis
    by auto
qed

lemma world_inv_operation:
  assumes "world_inv lo w" and "lo \<le> t" and "list_all (\<lambda>r. lo \<le> r \<and> r \<le> t) (op_times op)" and "op_ok op"
  shows "world_inv t (w\<lparr>srv := with_store (run_op journal_append op (store_of w)) (srv w)\<rparr>)"
proof (rule accounted_world_inv [OF assms(1) _ _ assms(2)])
  show "accounted journal_append lo t (store_of w)
      (keyspace_of (with_store (run_op journal_append op (store_of w)) (srv w)))"
    using assms by (simp add: accounted_op world_inv_def)
qed simp

text \<open>The snapshot of a shard.\<close>

lemma shard_snapshot_muts:
  assumes "store_inv st" and "i < shardCount"
  obtains sn where "shard_snapshot pref now (readShards st ! i) = map enc_mut sn"
    and "\<And>J k. carry_out sn J k = (if sidx k = i \<and> live now (view st k) \<noteq> None then snapped now (view st k) else J k)"
proof -
  let ?d = "data (readShards st ! i)"
  let ?e = "\<lambda>k. the (fmlookup ?d k)"
  let ?m = "\<lambda>k. MutSet k (val (?e k)) (expiresAt (?e k))"
  let ?ks = "filter (\<lambda>k. \<not> expired (?e k) now) (range_order pref (fmdom ?d))"
  have f: "carry_out (map ?m ks) J k =
      (if k \<in> set ks then Some (val (?e k), ms_floor (expiresAt (?e k))) else J k)" for ks J k
    by (induction ks arbitrary: J) auto
  have ks: "k \<in> set ?ks \<longleftrightarrow> sidx k = i \<and> live now (view st k) \<noteq> None" for k
  proof -
    have "k \<in> set ?ks \<longleftrightarrow> (\<exists>e. fmlookup ?d k = Some e \<and> \<not> expired e now)"
      by (auto simp: fmlookup_dom_iff)
    also have "\<dots> \<longleftrightarrow> sidx k = i \<and> live now (view st k) \<noteq> None"
      using shard_lookup [OF assms] by (auto simp: visible_live [symmetric] visible_def lookup_def shard_of_def
          split: option.splits)
    finally show ?thesis .
  qed
  have v: "snapped now (view st k) = Some (val (?e k), ms_floor (expiresAt (?e k)))" if "k \<in> set ?ks" for k
  proof -
    obtain e where "fmlookup ?d k = Some e" "\<not> expired e now"
      using \<open>k \<in> set ?ks\<close> by (auto simp: fmlookup_dom_iff)
    with shard_lookup(1) [OF assms this(1)] show ?thesis
      by (simp add: visible_live [symmetric] visible_def)
  qed
  show thesis
  proof (rule that [of "map ?m ?ks"])
    show "shard_snapshot pref now (readShards st ! i) = map enc_mut (map ?m ?ks)"
      by (auto simp: shard_snapshot_def snapshot_record_def set_record_def)
    show "carry_out (map ?m ?ks) J k =
        (if sidx k = i \<and> live now (view st k) \<noteq> None then snapped now (view st k) else J k)" for J k
    proof (cases "k \<in> set ?ks")
      case True
      from v [OF this] this show ?thesis
        unfolding f ks [symmetric] by (simp only: if_True)
    qed (unfold f ks [symmetric], simp only: if_False)
  qed
qed

lemma snapshot_ok_shard:
  assumes "snapshot_ok t st ms (i, now, recs)" and "store_inv st" and "i < shardCount"
    and "hits ms J" and "agree t st (carry_out ms J)"
  shows "snapshot_ok t st ms (Suc i, now, recs @ shard_snapshot pref now (readShards st ! i))"
proof -
  obtain sn where sn: "recs = map enc_mut sn" "1000000 \<le> now" "now \<le> t"
    "\<forall>k. sidx k < i \<longrightarrow> matches t (visible t st k) (carry_out ms (carry_out sn (\<lambda>_. None)) k)"
    "\<forall>k. i \<le> sidx k \<longrightarrow> carry_out sn (\<lambda>_. None) k = None"
    using assms(1) by (auto simp: snapshot_ok_def)
  obtain sn' where sn': "shard_snapshot pref now (readShards st ! i) = map enc_mut sn'"
    "\<And>J k. carry_out sn' J k = (if sidx k = i \<and> live now (view st k) \<noteq> None then snapped now (view st k) else J k)"
    using shard_snapshot_muts [OF assms(2,3)] by blast
  let ?K = "carry_out (sn @ sn') (\<lambda>_. None)"
  have "matches t (visible t st k) (carry_out ms ?K k)" if "sidx k < Suc i" for k
  proof (cases "sidx k = i")
    case True
    then have "?K k = snapped now (view st k)"
      using sn(5) by (cases "live now (view st k)") (simp_all add: sn'(2))
    then show ?thesis
      using tail_on_snapshot [OF sn(2,3) _ _ assms(4), of ?K k "view st k"] assms(5)
      by (simp add: agree_def visible_live)
  next
    case False
    then have "?K k = carry_out sn (\<lambda>_. None) k"
      by (simp add: sn'(2))
    then have "carry_out ms ?K k = carry_out ms (carry_out sn (\<lambda>_. None)) k"
      by (rule carry_out_local)
    with sn(4) False that show ?thesis
      by simp
  qed
  then show ?thesis
    using sn sn' by (auto simp: snapshot_ok_def intro!: exI [of _ "sn @ sn'"])
qed

lemma world_inv_snapshot:
  assumes "world_inv lo w" and "lo \<le> now" and "now \<le> t" and "rewriteWG (srv w) > 0" and "rw w = None"
  shows "world_inv t (w\<lparr>rw := Some (0, now, [])\<rparr>)"
proof -
  have w: "world_inv t w" "1000000 \<le> now"
    using world_inv_later [OF assms(1), of t] assms(1-3) by (simp_all add: world_inv_def)
  have "snapshot_ok t st ms (0, now, [])" for st ms
    using w(2) assms(3) by (auto simp: snapshot_ok_def)
  with w(1) assms(4,5) show ?thesis
    by (auto simp: world_inv_def log_ok_def split: if_splits)
qed

lemma world_inv_shard:
  assumes "world_inv t w" and "rw w = Some (i, now, recs)" and "i < shardCount"
  shows "world_inv t (w\<lparr>rw := Some (Suc i, now, recs @ shard_snapshot pref now (readShards (store_of w) ! i))\<rparr>)"
  using assms snapshot_ok_shard [of t "store_of w" _ i now recs]
  by (auto simp: world_inv_def log_ok_def) blast+

lemma FinishRewrite_log:
  assumes "FinishRewrite F recs l = (r, l', f)" and "\<forall>tmp. created F = Inr tmp \<longrightarrow> written tmp = []"
  shows "\<not> rewriting l' \<and> (log_err l' = None \<longrightarrow> log_err l = None \<and>
    (contents l' = contents l \<or> contents l' = encode_log recs @ rewriteTail l))"
proof (cases "rewrite_snapshot F recs")
  case (Inl e)
  then show ?thesis
    using assms(1) by (auto simp: FinishRewrite_def abortRewrite_def)
next
  case (Inr d)
  then have i: "rewrite_install F d l = (r, l', f)"
    using assms(1) by (simp add: FinishRewrite_def)
  obtain tmp where t: "created F = Inr tmp"
    using Inr by (auto simp: rewrite_snapshot_def split: sum.splits)
  with rewrite_snapshot_written [OF t Inr] assms(2) have "written d = encode_log recs"
    by simp
  with rewrite_install_cases [OF i] show ?thesis
    by (auto simp: bufio_content_def NewWriterSize_def split: if_splits option.splits)
qed

lemma world_inv_install:
  assumes "world_inv t w" and "rw w = Some (shardCount, now, recs)" and "aof_of (srv w) = Some l"
    and "FinishRewrite F recs l = (r, l', f)" and "\<forall>tmp. created F = Inr tmp \<longrightarrow> written tmp = []"
  shows "world_inv t (w\<lparr>srv := (with_log l' (srv w))\<lparr>rewriteWG := rewriteWG (srv w) - 1\<rparr>, rw := None\<rparr>)"
proof -
  have l: "rewriteWG (srv w) = 1" "log_err l = None \<longrightarrow> log_ok t (store_of w) (rw w) l" "rewriting l"
    "1000000 \<le> t" "store_inv (store_of w)"
    using assms(1-3) by (auto simp: world_inv_def)
  have f: "\<not> rewriting l'"
    "log_err l' = None \<Longrightarrow> log_err l = None \<and>
      (contents l' = contents l \<or> contents l' = encode_log recs @ rewriteTail l)"
    using FinishRewrite_log [OF assms(4,5)] by simp_all
  have "log_ok t (store_of w) None l'" if "log_err l' = None"
  proof -
    have k: "log_ok t (store_of w) (Some (shardCount, now, recs)) l"
      using l(2) f(2) [OF that] assms(2) by simp
    then obtain ms sn where m: "rewriteTail l = encode_log (map enc_mut ms)" "recs = map enc_mut sn"
      "\<forall>k. matches t (visible t (store_of w) k) (carry_out ms (carry_out sn (\<lambda>_. None)) k)"
      using l(3) by (auto simp: log_ok_def snapshot_ok_def)
    then have "agree t (store_of w) (carry_out (sn @ ms) (\<lambda>_. None))"
      by (simp add: agree_def)
    then have "\<exists>ms. contents l' = encode_log (map enc_mut ms) \<and> agree t (store_of w) (carry_out ms (\<lambda>_. None))"
      if "contents l' = encode_log recs @ rewriteTail l"
      using that m(1,2) by (intro exI [of _ "sn @ ms"]) simp
    then have "\<exists>ms. contents l' = encode_log (map enc_mut ms) \<and> agree t (store_of w) (carry_out ms (\<lambda>_. None))"
      using f(2) [OF that] k by (auto simp: log_ok_def)
    with f(1) show ?thesis
      by (simp add: log_ok_def)
  qed
  with f l show ?thesis
    by (simp add: world_inv_def)
qed

lemma step_inv:
  assumes "step lo w a t w'" and "world_inv lo w"
  shows "world_inv t w'"
  using assms
proof cases
  case command
  with assms(2) show ?thesis by (auto intro: world_inv_command)
next
  case operation
  with assms(2) show ?thesis by (auto intro: world_inv_operation)
next
  case (expire now pref n g st)
  then have "run_op journal_append (OpActiveExpireCycle pref now) (store_of w) = st"
    by simp
  with world_inv_operation [OF assms(2), of t "OpActiveExpireCycle pref now"] expire show ?thesis
    by (auto simp: list_all_iff op_ok_def)
next
  case sync
  with assms(2) show ?thesis by (auto intro: world_inv_sync world_inv_later)
next
  case snapshot
  with assms(2) show ?thesis by (auto intro: world_inv_snapshot)
next
  case shard
  with assms(2) show ?thesis by (auto intro: world_inv_shard world_inv_later)
next
  case install
  with world_inv_install [OF world_inv_later [OF assms(2) install(3)] install(4,5,7,6)] show ?thesis
    by simp
qed

text \<open>Only commands start rewrites, and no step changes the number of connections.\<close>

lemma handler_connections:
  assumes "world_inv lo w" and "lo \<le> t" and "\<forall>i. lo \<le> clk E i \<and> clk E i \<le> t" and "commands name = Some cmd"
  shows "connections (fst (snd (fn cmd E wr args (srv w) b))) = connections (srv w)"
  using tracked_commands [OF assms(4), of args]
proof
  assume "tracked (fn cmd) args"
  then show ?thesis
    using assms(1-3) unfolding tracked_def world_inv_def by blast
next
  assume "fn cmd = bgrewriteaof \<and> \<not> writes cmd"
  then show ?thesis
    by (simp add: bgrewriteaof_def reply_def with_store_def split: option.split prod.split)
qed

lemma command_connections:
  assumes "world_inv lo w" and "lo \<le> t" and "\<forall>i. lo \<le> clk E i \<and> clk E i \<le> t"
    and "dispatch E wr args (srv w) b = (r, s', b')"
  shows "connections s' = connections (srv w)"
proof -
  have a: "connections s1 = connections (srv w)" if "admit E cmd (srv w) = (ok, s1)" for cmd :: "'a command" and ok s1
    using that by (auto simp: admit_def make_room_def counted_def split: if_splits prod.splits)
  have st: "connections (settle cmd s) = connections s" for cmd :: "'a command" and s
    by (simp add: settle_def sync_reply_def split: option.split)
  from assms(4) show ?thesis
  proof (cases rule: dispatch_shapes)
    case (ran cmd name ok s1)
    then show ?thesis
      using handler_connections [OF world_inv_admit [OF assms(1) ran(2) order_refl] assms(2,3) ran(1), of wr "tl args" b]
        a [OF ran(2)] st by auto
  qed (use a in \<open>auto simp: counted_def\<close>)
qed

lemma step_counts:
  assumes "step lo w a t w'" and "world_inv lo w"
  shows "connections (srv w') = connections (srv w)" and "a \<noteq> Connection \<Longrightarrow> rewriteWG (srv w') \<le> rewriteWG (srv w)"
  using assms by (cases; auto simp: command_connections with_log_def)+

lemma step_time: "step lo w a t w' \<Longrightarrow> lo \<le> t"
  by (induction rule: step.induct) auto

section \<open>Reachable states\<close>

text \<open>Deadlines read from a log are whole milliseconds.\<close>

definition stamped :: "keymap \<Rightarrow> bool" where
  "stamped J \<longleftrightarrow> (\<forall>k v at. J k = Some (v, at) \<longrightarrow> ms_floor at = at)"

lemma ms_floor_idem: "ms_floor (ms_floor at) = ms_floor at"
  by (simp add: ms_floor_def minus_mod_eq_div_mult)

lemma ms_floor_fixed: "ms_floor at = at \<Longrightarrow> at = 0 \<or> 1000000 \<le> at"
  by (rule disjCI) (simp add: ms_floor_def not_le)

lemma stamped_bind_all: "stamped J \<Longrightarrow> stamped (bind_all ps J)"
proof (induction ps J rule: bind_all.induct)
  case (2 k v ps J)
  have "stamped (J(k \<mapsto> (v, 0)))"
    using 2(2) by (simp add: stamped_def)
  from 2(1) [OF this] show ?case
    by (simp only: bind_all.simps)
qed simp

lemma stamped_upd: "stamped J \<Longrightarrow> ms_floor at = at \<Longrightarrow> stamped (J(k \<mapsto> (v, at)))"
  by (simp add: stamped_def)

lemma stamped_mutate:
  assumes "stamped J"
  shows "stamped (mutate 0 (ms_mut m) J)"
proof -
  note f = ms_floor_idem
  show ?thesis
  proof (cases m)
    case (MutExpireAt k at)
    have "stamped (J(k := None))"
      using assms by (simp add: stamped_def)
    with MutExpireAt show ?thesis
      using assms stamped_upd [OF assms f] by (auto split: option.split)
  next
    case (MutDel ks)
    with assms show ?thesis
      by (simp add: stamped_def)
  qed (use assms in \<open>simp_all add: stamped_bind_all stamped_upd f\<close>)
qed

lemma stamped_carry_out: "stamped J \<Longrightarrow> stamped (carry_out ms J)"
  by (induction ms arbitrary: J) (simp_all add: stamped_mutate)

lemma matches_stamped:
  assumes "stamped J"
  shows "matches t (live t (J k)) (J k)"
proof (cases "J k")
  case (Some x)
  obtain v at where x: "x = (v, at)" by (cases x)
  with Some assms have f: "ms_floor at = at"
    by (simp add: stamped_def)
  with ms_floor_fixed [OF f] matches_fresh [of at t v] Some x show ?thesis
    by simp
qed simp

lemma world_inv_start:
  assumes "1000000 \<le> t" and "store_inv (keyspace_of s)" and "rewriteWG s = 0" and "\<not> rewriting l"
    and "contents l = encode_log (map enc_mut ms)"
    and "visible t (keyspace_of s) = (\<lambda>k. live t (carry_out ms (\<lambda>_. None) k))"
  shows "world_inv t \<lparr>srv = AttachAOF l s, rw = None\<rparr>"
proof -
  have "stamped (carry_out ms (\<lambda>_. None))"
    by (rule stamped_carry_out) (simp add: stamped_def)
  then have "agree t (keyspace_of s) (carry_out ms (\<lambda>_. None))"
    using matches_stamped assms(6) by (simp add: agree_def)
  then have "agree t (SetJournal l (keyspace_of s)) (carry_out ms (\<lambda>_. None))"
    by (simp add: agree_def SetJournal_def)
  with assms show ?thesis
    by (auto simp: world_inv_def AttachAOF_def log_ok_def SetJournal_def)
qed

text \<open>The replay of what a crash has left.\<close>

lemma restart_replays:
  assumes "log_ok t st x l" and "crash_file (bw_dev (bw l)) p" and "contents l = encode_log rs"
    and "replayable T rs" and "\<forall>i j. clk (Es i) j = T i" and "\<forall>i. T i \<le> T (Suc i)"
    and "keyspace_of s = SetMemoryLimit mem pol New"
  obtains n s' ms where "map enc_mut ms = rs" and "n \<le> length rs"
    and "agree t st (carry_out ms (\<lambda>_. None))"
    and "ReplayAOF calm_fs Es (Opened p EOF) s =
      ((None, \<lparr>Commands = n, Bytes = int (length (encode_log (take n rs))),
          Truncated = int (length p) - int (length (encode_log (take n rs)))\<rparr>,
        encode_log (take n rs)), n, s')"
    and "store_inv (keyspace_of s')" and "rewriteWG s' = rewriteWG s"
    and "visible (T n) (keyspace_of s') = (\<lambda>k. live (T n) (carry_out (take n ms) (\<lambda>_. None) k))"
    and "p = encode_log (take n rs) \<or> n < length rs \<and> strict_prefix p (encode_log (take (Suc n) rs))"
proof -
  obtain ms where "contents l = encode_log (map enc_mut ms)" and a: "agree t st (carry_out ms (\<lambda>_. None))"
    using assms(1) by (auto simp: log_ok_def)
  then have ms: "map enc_mut ms = rs"
    using assms(3) by (intro encode_log_inj) simp
  have w: "\<forall>r \<in> set rs. writable r" "no_revival T 0 (map (the \<circ> decode_rec) rs) (\<lambda>_. None)"
    "\<forall>r \<in> set rs. decode_rec r \<noteq> None"
    using assms(4) by (auto simp: replayable_def list_all_iff)
  have d: "map (the \<circ> decode_rec) rs = map ms_mut ms"
    using w(3) decode_enc unfolding ms [symmetric] by auto
  then have d': "map decode_rec rs = map Some (map ms_mut ms)"
    using w(3) unfolding d [symmetric] by auto
  have p: "prefix p (encode_log rs)"
    using assms(2) unfolding assms(3) [symmetric] bufio_content_def
    by (simp add: crash_file_def prefix_prefix)
  obtain n s' where r: "n \<le> length rs"
    "ReplayAOF calm_fs Es (Opened p EOF) s =
      ((None, \<lparr>Commands = n, Bytes = int (length (encode_log (take n rs))),
          Truncated = int (length p) - int (length (encode_log (take n rs)))\<rparr>,
        encode_log (take n rs)), n, s')"
    "store_inv (keyspace_of s')" "rewriteWG s' = rewriteWG s"
    "visible (T n) (keyspace_of s') = (\<lambda>k. live (T n) (replay_map (take n (map ms_mut ms)) k))"
    "p = encode_log (take n rs) \<or> n < length rs \<and> strict_prefix p (encode_log (take (Suc n) rs))"
    by (rule replay_restores [OF w(1) d' w(2) [unfolded d] assms(5-7) p])
  show thesis
    by (rule that [OF ms r(1) a r(2-4) _ r(6)]) (simp only: r(5) take_map)
qed

lemma startup_attached:
  assumes "startup U Es X f = Inr s" and "appendOnly f" and "configured U f = Inr s0"
    and "ReplayAOF (replay_fs X) Es (logfile X) s0 = ((e, res, fl), n, s1)" and "appender X = Inr d"
  obtains l where "s = AttachAOF l s1" and "contents l = written d" and "\<not> rewriting l" and "log_err l = None"
proof -
  obtain l pol where "s = AttachAOF l s1" "Open (Inr d) (filepath_Join [dir f, appendFilename f]) pol = Inr l"
    using startup_log [OF assms(1,2)] assms(3-5) by (metis Pair_inject sum.inject(2))
  then show thesis
    using that [of l] by (auto simp: Open_def bufio_content_def NewWriterSize_def)
qed

lemma reachable_inv: "reachable t w \<Longrightarrow> world_inv t w"
proof (induction rule: reachable.induct)
  case (start t U Es X f s d)
  obtain s0 mem pol where s0: "configured U f = Inr s0" "keyspace_of s0 = SetMemoryLimit mem pol New"
    "rewriteWG s0 = 0"
    using startup_log [OF start(2,3)] configured_server by metis
  obtain l where "s = AttachAOF l s0" "contents l = []" "\<not> rewriting l"
    using startup_attached [OF start(2,3) s0(1), of _ _ _ _ s0 d] start(4-6)
    by (auto simp: ReplayAOF_def Replay_def Let_def)
  with s0 start(1) show ?case
    using store_inv_New by (simp add: world_inv_start [where ms = "[]"] visible_def fun_eq_iff)
next
  case (step t w a t' w')
  then show ?case using step_inv by blast
next
  case (restart t w l p rs T Es U X f s s0 e res fl n s1 d)
  have inv: "world_inv t w"
    by (rule restart.IH)
  then have "1000000 \<le> T 0"
    using restart.hyps(9) by (simp add: world_inv_def)
  moreover have "T 0 \<le> T n"
    using lift_Suc_mono_le [of T 0 n] restart.hyps(8) by blast
  ultimately have t: "1000000 \<le> T n"
    by simp
  have l: "log_ok t (store_of w) (rw w) l"
    using inv restart.hyps(2,3) by (simp add: world_inv_def)
  obtain mem pol where s0: "keyspace_of s0 = SetMemoryLimit mem pol New" "rewriteWG s0 = 0"
    using configured_server [OF restart.hyps(12)] by blast
  obtain n' s2 ms where ms: "map enc_mut ms = rs" "n' \<le> length rs" "agree t (store_of w) (carry_out ms (\<lambda>_. None))"
    and r: "ReplayAOF calm_fs Es (Opened p EOF) s0 =
      ((None, \<lparr>Commands = n', Bytes = int (length (encode_log (take n' rs))),
          Truncated = int (length p) - int (length (encode_log (take n' rs)))\<rparr>,
        encode_log (take n' rs)), n', s2)"
    and s2: "store_inv (keyspace_of s2)" "rewriteWG s2 = rewriteWG s0"
    "visible (T n') (keyspace_of s2) = (\<lambda>k. live (T n') (carry_out (take n' ms) (\<lambda>_. None) k))"
    and "p = encode_log (take n' rs) \<or> n' < length rs \<and> strict_prefix p (encode_log (take (Suc n') rs))"
    by (rule restart_replays [OF l restart.hyps(4-8) s0(1)])
  have e: "n = n'" "s1 = s2" "fl = encode_log (take n' rs)"
    using trans [OF restart.hyps(15) [symmetric] r] by (simp_all only: prod.inject)
  obtain l' where l': "s = AttachAOF l' s1" "contents l' = fl" "\<not> rewriting l'"
    using startup_attached [OF restart.hyps(10-12) _ restart.hyps(16)] restart.hyps(13-15,17) by metis
  have m: "take n' rs = map enc_mut (take n' ms)"
    unfolding ms(1) [symmetric] by (rule take_map)
  show ?case
    using t s2 s0(2) l' unfolding e m by (simp add: world_inv_start [where ms = "take n' ms"])
qed

end
