(* ===== verification/Durability.thy ===== *)
theory Durability
  imports Persistence
begin

text \<open>
  What a crash can lose.  The log of a server in any state it can get into replays to what
  clients saw; under the policy always a crash loses nothing that was acknowledged while the log
  had not failed; and when an fsync fails, the command it was for is acknowledged all the same.
\<close>

section \<open>Definitions\<close>

text \<open>A writing command of a connection that is not refused.\<close>

definition carried_out :: "env \<Rightarrow> bytes list \<Rightarrow> server \<Rightarrow> bool" where
  "carried_out E args s \<longleftrightarrow>
     args \<noteq> [] \<and>
     (case (commands (ToUpper (unicode_of E) (args ! 0)) :: bufw command option) of
        None \<Rightarrow> False
      | Some cmd \<Rightarrow> writes cmd \<and> arity_ok cmd (tl args) \<and> \<not> aof_failed s \<and> fst (admit E cmd s))"

text \<open>What a log has room for of a binding.\<close>

abbreviation to_ms :: "binding \<Rightarrow> binding" where
  "to_ms b \<equiv> map_option (\<lambda>(v, at). (v, ms_floor at)) b"

section \<open>Replaying the whole log\<close>

lemma matches_live:
  assumes "matches t x y" and "t \<le> t'"
  shows "live t' y = live t' (to_ms x)"
proof (cases x)
  case None
  with assms(1) have "live t' (live t y) = None"
    by (simp add: matches_def)
  with None assms(2) show ?thesis
    by (simp add: live_live)
qed (use assms(1) in \<open>auto simp: matches_def\<close>)

lemma replay_complete:
  assumes "world_inv t w" and "aof_of (srv w) = Some l" and "log_err l = None"
    and "crash_file (bw_dev (bw l)) (encode_log rs)" and "contents l = encode_log rs" and "replayable T rs"
    and "\<forall>i j. clk (Es i) j = T i" and "\<forall>i. T i \<le> T (Suc i)" and "t \<le> T 0"
    and "keyspace_of s0 = SetMemoryLimit mem pol New"
  shows "\<exists>res s1. ReplayAOF calm_fs Es (Opened (encode_log rs) EOF) s0 = ((None, res, encode_log rs), length rs, s1) \<and>
    (\<forall>k. visible (T (length rs)) (keyspace_of s1) k =
       live (T (length rs)) (to_ms (visible t (store_of w) k)))"
proof -
  have l: "log_ok t (store_of w) (rw w) l"
    using assms(1-3) by (simp add: world_inv_def)
  obtain n s1 ms where ms: "map enc_mut ms = rs" "n \<le> length rs" "agree t (store_of w) (carry_out ms (\<lambda>_. None))"
    and r: "ReplayAOF calm_fs Es (Opened (encode_log rs) EOF) s0 =
      ((None, \<lparr>Commands = n, Bytes = int (length (encode_log (take n rs))),
          Truncated = int (length (encode_log rs)) - int (length (encode_log (take n rs)))\<rparr>,
        encode_log (take n rs)), n, s1)"
    and "store_inv (keyspace_of s1)" "rewriteWG s1 = rewriteWG s0"
    and v: "visible (T n) (keyspace_of s1) = (\<lambda>k. live (T n) (carry_out (take n ms) (\<lambda>_. None) k))"
    and p: "encode_log rs = encode_log (take n rs) \<or>
      n < length rs \<and> strict_prefix (encode_log rs) (encode_log (take (Suc n) rs))"
    by (rule restart_replays [OF l assms(4-8,10)])
  have "n = length rs"
  proof (rule ccontr)
    assume "n \<noteq> length rs"
    then have "length (encode_log (take n rs)) < length (encode_log rs)"
      and "length (encode_log (take (Suc n) rs)) \<le> length (encode_log rs)"
      using length_encode_log_take [of n "length rs" rs] ms(2)
        prefix_length_le [OF prefix_encode_log_take [of "Suc n" "length rs" rs]] by simp_all
    then show False
      using p by (auto dest: length_strict_prefix)
  qed
  moreover have "T 0 \<le> T n"
    using lift_Suc_mono_le [of T 0 n] assms(8) by blast
  then have "live (T n) (carry_out ms (\<lambda>_. None) k) = live (T n) (to_ms (visible t (store_of w) k))" for k
    using ms(3) assms(9) by (intro matches_live [where t = t]) (simp_all add: agree_def)
  moreover have "length ms = length rs"
    using ms(1) by (metis length_map)
  ultimately show ?thesis
    using r v by simp
qed

text \<open>Under the policy always a writing command returns with its records on the disk.\<close>

lemma carried_out_synced:
  assumes "carried_out E args s" and "dispatch E bufio_write args s b = (WOk, s', b')"
    and "aof_of s' = Some l" and "log_policy l = PolicyAlways" and "log_err l = None"
    and "crash_file (bw_dev (bw l)) p"
  shows "p = contents l"
proof -
  obtain cmd :: "bufw command" where c: "args \<noteq> []" "commands (ToUpper (unicode_of E) (args ! 0)) = Some cmd"
    "writes cmd" "arity_ok cmd (tl args)" "\<not> aof_failed s" "fst (admit E cmd s)"
    using assms(1) by (auto simp: carried_out_def split: option.splits)
  obtain s1 where "admit E cmd s = (True, s1)"
    using c(6) by (cases "admit E cmd s") auto
  then obtain s2 where s2: "s' = sync_reply s2"
    using assms(2) c(3-5) unfolding dispatch_known [OF c(1,2)]
    by (auto simp: settle_def split: prod.splits wres.splits)
  then obtain l2 where l2: "aof_of s2 = Some l2" "l = snd (SyncIfAlways l2)"
    using assms(3) by (cases "aof_of s2") (auto simp: sync_reply_def)
  obtain r l1 where l1: "syncLocked True l2 = (r, l1)"
    by (cases "syncLocked True l2")
  have p: "log_policy l2 = PolicyAlways"
    using l2(2) assms(4) syncLocked_cases(3) [OF l1]
    by (auto simp: SyncIfAlways_def Sync_def PolicyAlways_def PolicyNo_def split: if_splits)
  then have "l = l1"
    using l2(2) l1 by (simp add: SyncIfAlways_def Sync_def PolicyAlways_def PolicyNo_def)
  with l1 assms(5) syncLocked_cases(1) [OF l1] have s: "syncLocked True l2 = (None, l)"
    by simp
  have "on_disk (bw_dev (bw l)) = contents l" "written (bw_dev (bw l)) = contents l"
    using synced_on_disk [OF s] syncLocked_cases(2,7) [OF s] by (simp_all add: bufio_content_def)
  with assms(6) show ?thesis
    by (auto simp: crash_file_def intro: prefix_order.antisym)
qed

section \<open>What is on the disk after a failure\<close>

text \<open>Writing to a file puts nothing on the disk: that takes an fsync.\<close>

definition disk_kept :: "dev \<Rightarrow> dev \<Rightarrow> bool" where
  "disk_kept d d' \<longleftrightarrow> durable d' = durable d \<and> prefix (written d) (written d')"

lemma disk_kept_refl [simp]: "disk_kept d d"
  by (simp add: disk_kept_def)

lemma disk_kept_trans [trans]: "disk_kept d d' \<Longrightarrow> disk_kept d' d'' \<Longrightarrow> disk_kept d d''"
  by (auto simp: disk_kept_def)

lemma disk_kept_on_disk:
  assumes "disk_kept d d'" and "durable d \<le> length (written d)"
  shows "on_disk d' = on_disk d" and "crash_file d' (on_disk d)"
proof -
  obtain x where x: "written d' = written d @ x" "durable d' = durable d"
    using assms(1) by (auto simp: disk_kept_def prefix_def)
  then show "on_disk d' = on_disk d"
    using assms(2) by (simp add: on_disk_def)
  then show "crash_file d' (on_disk d)"
    by (auto simp: crash_file_def on_disk_def x take_is_prefix)
qed

lemma dev_write_kept: "dev_write d p = (n, ok, d') \<Longrightarrow> disk_kept d d'"
  by (simp add: disk_kept_def dev_write_cases(1,4))

lemma bufio_flush_kept: "disk_kept (bw_dev b) (bw_dev (snd (bufio_flush b)))"
  by (auto simp: bufio_flush_def disk_kept_def dev_write_cases(1,4) split: prod.split bool.split)

lemma bufio_write_kept: "disk_kept (bw_dev b) (bw_dev (snd (bufio_write b p)))"
proof (induction b p rule: bufio_write.induct)
  case (1 b p)
  let ?b = "b\<lparr>bw_buf := bw_buf b @ take (bw_size b - length (bw_buf b)) p\<rparr>"
  obtain f b1 where fl: "bufio_flush ?b = (f, b1)"
    by (cases "bufio_flush ?b")
  then have "disk_kept (bw_dev b) (bw_dev b1)"
    using bufio_flush_kept [of ?b] by simp
  then show ?case
    using 1 fl by (subst bufio_write.simps)
      (auto simp: Let_def intro: dev_write_kept disk_kept_trans split: prod.splits bool.splits)
qed

text \<open>What every write keeps, writing a record keeps.\<close>

lemma w_then_kept:
  assumes "R w (snd r)" and "\<And>w. R w (snd (f w))" and "\<And>x y z. R x y \<Longrightarrow> R y z \<Longrightarrow> R x z"
  shows "R w (snd (w_then r f))"
  using assms by (cases r; cases "fst r") (auto simp: w_then_def)

lemma writeCommand_kept:
  assumes "\<And>w p. R w (snd (wr w p))" and "\<And>x. R x x" and "\<And>x y z. R x y \<Longrightarrow> R y z \<Longrightarrow> R x z"
  shows "R w (snd (writeCommand wr args w))"
proof -
  have p: "R w (snd (io_put wr p w))" for w p
    using assms(1) [of w p] by (cases "wr w p") (simp add: io_put_def)
  note seq = w_then_kept [where R = R, OF _ _ assms(3)]
  have b: "R w (snd (WriteBulkString wr p w))" for w p
    unfolding WriteBulkString_def writeCountLine_def by (rule seq [OF p seq [OF p p]])
  have "R w (snd (writeBulks wr args w))" for w
  proof (induction args arbitrary: w)
    case (Cons a as)
    then show ?case
      using seq [OF b Cons.IH] by simp
  qed (simp add: assms(2))
  then show ?thesis
    unfolding writeCommand_def WriteArrayHeader_def writeCountLine_def by (rule seq [OF p])
qed

lemma journal_append_kept: "disk_kept (bw_dev (bw l)) (bw_dev (bw (journal_append args l)))"
proof -
  have "disk_kept (bw_dev (bw l)) (bw_dev (snd (writeCommand bufio_write args (bw l))))"
    by (rule writeCommand_kept [where R = "\<lambda>b b'. disk_kept (bw_dev b) (bw_dev b')"])
      (auto intro: bufio_write_kept disk_kept_trans)
  then show ?thesis
    by (auto simp: journal_append_def log_Append_def log_fail_def Let_def split: prod.splits wres.splits)
qed

lemma fold_append_kept: "disk_kept (bw_dev (bw l)) (bw_dev (bw (fold journal_append rs l)))"
  by (induction rs arbitrary: l) (auto intro: journal_append_kept disk_kept_trans)

lemma failed_sync_kept:
  assumes "log_err (snd (SyncIfAlways l)) \<noteq> None"
  shows "disk_kept (bw_dev (bw l)) (bw_dev (bw (snd (SyncIfAlways l))))"
proof -
  have k: "disk_kept (bw_dev (bw l)) (bw_dev (bw l'))" if s: "syncLocked fsync l = (r, l')" "log_err l' \<noteq> None" for fsync r l'
  proof -
    obtain ok b where f: "bufio_flush (bw l) = (ok, b)"
      by (cases "bufio_flush (bw l)")
    then have "disk_kept (bw_dev (bw l)) (bw_dev b)"
      using bufio_flush_kept [of "bw l"] by simp
    then show ?thesis
      using s f dev_sync_cases(4) [of "bw_dev b"]
      by (auto simp: syncLocked_def log_fail_def split: if_splits bool.splits prod.splits)
  qed
  then show ?thesis
    using assms by (cases "syncLocked True l")
      (auto simp: SyncIfAlways_def Sync_def PolicyAlways_def PolicyNo_def split: if_splits)
qed

lemma accounted_kept:
  assumes "accounted journal_append lo t s s'" and "journal s = Some l"
  shows "\<exists>l'. journal s' = Some l' \<and> disk_kept (bw_dev (bw l)) (bw_dev (bw l'))"
  using assms by (auto simp: accounted_def journalled_def intro: fold_append_kept)

lemma settle_kept:
  assumes "aof_of s = Some l" and "aof_of (settle cmd s) = Some l'" and "log_err l' \<noteq> None"
  shows "disk_kept (bw_dev (bw l)) (bw_dev (bw l'))"
  using assms failed_sync_kept [of l] by (auto simp: settle_def sync_reply_def split: if_splits)

lemma handler_kept:
  assumes "commands name = Some cmd" and "store_inv (keyspace_of s)" and "1000000 \<le> lo" and "lo \<le> t"
    and "\<forall>i. lo \<le> clk E i \<and> clk E i \<le> t" and "aof_of s = Some l"
  shows "\<exists>l'. aof_of (fst (snd (fn cmd E wr args s b))) = Some l' \<and> disk_kept (bw_dev (bw l)) (bw_dev (bw l'))"
  using tracked_commands [OF assms(1), of args]
proof
  assume "tracked (fn cmd) args"
  then have "accounted journal_append lo t (keyspace_of s) (keyspace_of (fst (snd (fn cmd E wr args s b))))"
    using assms(2-5) unfolding tracked_def by blast
  then show ?thesis
    using accounted_kept assms(6) by blast
next
  assume "fn cmd = bgrewriteaof \<and> \<not> writes cmd"
  with assms(6) show ?thesis
    by (auto simp: bgrewriteaof_def BeginRewrite_def reply_def split: prod.splits)
qed

text \<open>A command during which the log fails leaves on the disk what was there before it.\<close>

lemma dispatch_kept:
  assumes "store_inv (keyspace_of s)" and "1000000 \<le> lo" and "lo \<le> t" and "\<forall>i. lo \<le> clk E i \<and> clk E i \<le> t"
    and "dispatch E wr args s b = (r, s', b')" and "aof_of s = Some l" and "aof_of s' = Some l'" and "log_err l' \<noteq> None"
  shows "disk_kept (bw_dev (bw l)) (bw_dev (bw l'))"
  using assms(5)
proof (cases rule: dispatch_shapes)
  case refused
  with assms(6,7) show ?thesis by simp
next
  case full
  with accounted_kept [OF admit_accounted [OF assms(1,3)] assms(6)] assms(7) show ?thesis
    by fastforce
next
  case (ran cmd name ok s1)
  note a = admit_accounted [OF assms(1,3) ran(2)]
  then have "store_inv (keyspace_of s1)"
    by (simp add: accounted_def)
  moreover obtain l1 where l1: "aof_of s1 = Some l1" "disk_kept (bw_dev (bw l)) (bw_dev (bw l1))"
    using accounted_kept [OF a assms(6)] by blast
  ultimately obtain l2 where l2: "aof_of (fst (snd (fn cmd E wr (tl args) s1 b))) = Some l2"
    "disk_kept (bw_dev (bw l1)) (bw_dev (bw l2))"
    using handler_kept [OF ran(1) _ assms(2-4)] by blast
  have "disk_kept (bw_dev (bw l2)) (bw_dev (bw l'))"
    using ran(3) l2(1) assms(7,8) by (auto intro: settle_kept)
  with l1(2) l2(2) show ?thesis
    by (blast intro: disk_kept_trans)
qed

section \<open>An example\<close>

text \<open>A server started with \<^verbatim>\<open>-appendonly -appendfsync always\<close> on the disk \<open>d\<close>.\<close>

definition demo_unicode :: unicode where
  "demo_unicode = \<lparr>uUpper = id, uLower = id, uTrim = id, uTrimRight = id\<rparr>"

definition demo_env :: "time \<Rightarrow> env" where
  "demo_env t = \<lparr>clk = \<lambda>_. t, evict_order = \<lambda>_ _. [], unicode_of = demo_unicode\<rparr>"

definition demo_flags :: flags where
  "demo_flags = default_flags\<lparr>appendOnly := True, appendFsync := ''always''\<rparr>"

definition demo_os :: "dev \<Rightarrow> startup_env" where
  "demo_os d = \<lparr>listened = None, logfile = NotExist, replay_fs = calm_fs, appender = Inr d\<rparr>"

definition demo_log :: "dev \<Rightarrow> Log" where
  "demo_log d = \<lparr>bw = NewWriterSize aofBufSize d, log_policy = PolicyAlways, path = ''appendonly.aof'',
     rewriting = False, rewriteTail = [], log_err = None\<rparr>"

definition demo_server :: "dev \<Rightarrow> server" where
  "demo_server d = AttachAOF (demo_log d)
     (with_store (SetMemoryLimit 0 PolicyNoEviction New)
       (Configure \<lparr>AppendOnly = True, AppendFsync = ''always'', AppendFilename = ''appendonly.aof'', Dir = ''.''\<rparr>
         server_New))"

lemma demo_startup: "startup demo_unicode Es (demo_os d) demo_flags = Inr (demo_server d)"
proof -
  have "ParseMemory demo_unicode ''0'' = Inr 0" "ParseEvictionPolicy demo_unicode ''noeviction'' = Some PolicyNoEviction"
    "ParsePolicy ''always'' = Some PolicyAlways" "filepath_Join [''.'', ''appendonly.aof''] = ''appendonly.aof''"
    by code_simp+
  then show ?thesis
    by (simp add: startup_def configured_def demo_os_def demo_flags_def default_flags_def Let_def
        ReplayAOF_def Replay_def Open_def demo_server_def demo_log_def server_New_def Configure_def)
qed

lemma demo_reachable: "1000000 \<le> t \<Longrightarrow> written d = [] \<Longrightarrow> reachable t \<lparr>srv = demo_server d, rw = None\<rparr>"
  using demo_startup
  by (rule reachable.start [rotated]) (simp_all add: demo_flags_def demo_os_def)

abbreviation demo_conn :: bufw where
  "demo_conn \<equiv> NewWriterSize writeBufSize fresh_dev"

lemma demo_set:
  obtains s' b' where "dispatch (demo_env t) bufio_write [''SET'', ''a'', ''x''] (demo_server d) demo_conn = (WOk, s', b')"
    and "bufio_content b' = enc_simple ''OK''"
    and "aof_of s' = Some (snd (SyncIfAlways (journal_append [''SET'', ''a'', ''x''] (demo_log d))))"
    and "visible u (keyspace_of s') = [''a'' \<mapsto> (''x'', 0)]"
    and "carried_out (demo_env t) [''SET'', ''a'', ''x''] (demo_server d)"
proof -
  let ?s = "demo_server d" and ?c = "\<lparr>minArgs = 2, maxArgs = 4, writes = True, fn = set_cmd\<rparr> :: bufw command"
  let ?st = "Set journal_append ''a'' ''x'' (keyspace_of ?s)"
  have k: "keyspace_of ?s = SetJournal (demo_log d) (SetMemoryLimit 0 PolicyNoEviction New)"
    by (simp add: demo_server_def AttachAOF_def)
  have m: "maxMemory (keyspace_of ?s) = 0"
    by (simp add: k SetJournal_def SetMemoryLimit_def)
  have i: "store_inv (keyspace_of ?s)" "visible u (keyspace_of ?s) = (\<lambda>_. None)"
    unfolding k using store_inv_New by (simp_all add: SetJournal_def visible_def fun_eq_iff)
  have a: "admit (demo_env t) ?c ?s = (True, counted ?s)"
    by (simp add: admit_def make_room_def EnforceMemoryLimit_def m with_store_def counted_def)
  have n: "\<not> aof_failed ?s"
    by (simp add: aof_failed_def demo_server_def AttachAOF_def SetJournal_def Err_def demo_log_def)
  have "fst (WriteSimpleString bufio_write ''OK'' demo_conn) = WOk"
    "bufio_content (snd (WriteSimpleString bufio_write ''OK'' demo_conn)) = enc_simple ''OK''"
    by code_simp+
  then obtain b' where w: "WriteSimpleString bufio_write ''OK'' demo_conn = (WOk, b')"
    "bufio_content b' = enc_simple ''OK''"
    by (cases "WriteSimpleString bufio_write ''OK'' demo_conn") simp
  have c: "commands (ToUpper (unicode_of (demo_env t)) ([''SET'', ''a'', ''x''] ! 0)) = Some ?c"
    by (simp add: record_commands)
  have d: "dispatch (demo_env t) bufio_write [''SET'', ''a'', ''x''] ?s demo_conn =
      (WOk, settle ?c (with_store ?st (counted ?s)), b')"
    using n a w(1) by (subst dispatch_known [OF _ c]) (simp_all add: arity_ok_def set_cmd_def reply_def)
  have "journal ?st = Some (journal_append [''SET'', ''a'', ''x''] (demo_log d))"
    using setLocked_journalled [of journal_append "''a''" "''x''" 0 "keyspace_of ?s"]
    by (simp add: Set_def set_store_def journalled_def k set_record_def cmdSET_def SetJournal_def)
  then have "aof_of (settle ?c (with_store ?st (counted ?s))) =
      Some (snd (SyncIfAlways (journal_append [''SET'', ''a'', ''x''] (demo_log d))))"
    by (simp add: settle_def sync_reply_def)
  moreover have "visible u (keyspace_of (settle ?c (with_store ?st (counted ?s)))) = [''a'' \<mapsto> (''x'', 0)]"
    using i by (simp add: Set_def set_store_def setLocked_visible live_def)
  moreover have "carried_out (demo_env t) [''SET'', ''a'', ''x''] ?s"
    using n a c by (simp add: carried_out_def arity_ok_def)
  ultimately show thesis
    using that d w(2) by blast
qed

section \<open>Properties\<close>



text \<open>
  C2: acknowledged writes survive.  Under the policy always, when a writing command has been
  carried out and the log has not failed, whatever a crash leaves of the log's file is replayed
  without loss, and after the restart clients see exactly what they saw after the command, less
  what has expired.  This is for a log that is replayable: its records are within the parser's
  limits, with deadlines in its range, and none moves a deadline from before the restart to after it.
\<close>

theorem acknowledged_write_survives:
  assumes "reachable t0 w" and "t0 \<le> t" and "\<forall>i. t0 \<le> clk E i \<and> clk E i \<le> t"
    and "carried_out E args (srv w)" and "dispatch E bufio_write args (srv w) b = (WOk, s', b')"
    and "aof_of s' = Some l" and "log_policy l = PolicyAlways" and "log_err l = None"
    and "crash_file (bw_dev (bw l)) p" and "contents l = encode_log rs" and "replayable T rs"
    and "\<forall>i j. clk (Es i) j = T i" and "\<forall>i. T i \<le> T (Suc i)" and "t \<le> T 0"
    and "keyspace_of s0 = SetMemoryLimit mem pol New"
  shows "\<exists>res s1. ReplayAOF calm_fs Es (Opened p EOF) s0 = ((None, res, p), length rs, s1) \<and>
    (\<forall>k. visible (T (length rs)) (keyspace_of s1) k =
       live (T (length rs)) (to_ms (visible t (keyspace_of s') k)))"
proof -
  have "world_inv t (w\<lparr>srv := s'\<rparr>)"
    using world_inv_command [OF reachable_inv [OF assms(1)] assms(2,3,5)] .
  moreover have p: "p = encode_log rs"
    using carried_out_synced [OF assms(4-9)] assms(10) by simp
  ultimately show ?thesis
    using replay_complete [of t "w\<lparr>srv := s'\<rparr>" l rs T Es s0 mem pol] assms(6,8-15) by simp
qed

theorem acknowledged_write_survives_witness:
  "\<exists>s' b' l res s1.
     dispatch (demo_env 5000000) bufio_write [''SET'', ''a'', ''x''] (demo_server fresh_dev) demo_conn = (WOk, s', b') \<and>
     aof_of s' = Some l \<and> contents l = enc_command [''SET'', ''a'', ''x''] \<and>
     ReplayAOF calm_fs (\<lambda>_. demo_env 6000000) (Opened (contents l) EOF) server_New = ((None, res, contents l), 1, s1) \<and>
     visible 6000000 (keyspace_of s1) ''a'' = Some (''x'', 0)"
proof -
  let ?w = "\<lparr>srv = demo_server fresh_dev, rw = None\<rparr>" and ?rs = "[[''SET'', ''a'', ''x'']]"
  obtain s' b' l where d: "dispatch (demo_env 5000000) bufio_write [''SET'', ''a'', ''x''] (srv ?w) demo_conn = (WOk, s', b')"
    "carried_out (demo_env 5000000) [''SET'', ''a'', ''x''] (srv ?w)"
    and l: "aof_of s' = Some l" "l = snd (SyncIfAlways (journal_append [''SET'', ''a'', ''x''] (demo_log fresh_dev)))"
    and v: "visible 5000000 (keyspace_of s') = [''a'' \<mapsto> (''x'', 0)]"
    using demo_set [of 5000000 fresh_dev 5000000] by simp metis
  have r: "reachable 5000000 ?w"
    by (rule demo_reachable) (simp_all add: fresh_dev_def)
  have c: "contents l = encode_log ?rs" "log_policy l = PolicyAlways" "log_err l = None"
    "on_disk (bw_dev (bw l)) = encode_log ?rs" "written (bw_dev (bw l)) = encode_log ?rs"
    unfolding l(2) by code_simp+
  have "crash_file (bw_dev (bw l)) (encode_log ?rs)"
    by (simp add: crash_file_def c)
  moreover have "replayable (\<lambda>_. 6000000) ?rs"
    by (simp add: replayable_def writable_def within_limits_def MaxArrayLength_def MaxBulkLength_def decode_rec_def
        cmdSET_def revives_def)
  moreover have "keyspace_of server_New = SetMemoryLimit 0 (policy New) New"
    by (simp add: server_New_def SetMemoryLimit_def New_def)
  ultimately obtain res s1 where "ReplayAOF calm_fs (\<lambda>_. demo_env 6000000) (Opened (encode_log ?rs) EOF) server_New =
      ((None, res, encode_log ?rs), length ?rs, s1)"
    "visible 6000000 (keyspace_of s1) ''a'' = live 6000000 (to_ms (visible 5000000 (keyspace_of s') ''a''))"
    using acknowledged_write_survives [OF r _ _ d(2,1) l(1) c(2,3), of 5000000 "encode_log ?rs" ?rs "\<lambda>_. 6000000"
        "\<lambda>_. demo_env 6000000" server_New 0 "policy New"] c(1)
    by (auto simp: demo_env_def)
  with d(1) l(1) c(1) show ?thesis
    by (auto simp: v live_def)
qed

text \<open>
  C39: the policy always does not keep its promise when the disk fails.  If the log fails while a
  command is carried out, at the fsync before the reply or at an earlier write, the client is sent
  the very reply that the command's specification gives, as if nothing had happened, and other
  clients see its effect; but nothing of it is on the disk, and a crash can leave the file as it was
  on the disk before the command.  Only the next writing command is refused.
\<close>

theorem failed_sync_acknowledged:
  assumes "store_inv (keyspace_of s)" and "1000000 \<le> now" and "\<forall>i. clk E i = now"
    and "accepted E args s s1" and "specs (ToUpper (unicode_of E) (args ! 0)) = Some f"
    and "f (unicode_of E) now (tl args) (visible now (keyspace_of s1)) = (v, m)"
    and "aof_of s = Some l" and "durable (bw_dev (bw l)) \<le> length (written (bw_dev (bw l)))"
    and "dispatch E bufio_write args s b = (WOk, s', b')" and "aof_of s' = Some l'" and "log_err l' \<noteq> None"
  shows "bufio_content b' = bufio_content b @ enc_reply v \<and> visible now (keyspace_of s') = m \<and>
    on_disk (bw_dev (bw l')) = on_disk (bw_dev (bw l)) \<and>
    crash_file (bw_dev (bw l')) (on_disk (bw_dev (bw l))) \<and> aof_failed s'"
proof -
  have k: "disk_kept (bw_dev (bw l)) (bw_dev (bw l'))"
    using dispatch_kept [OF assms(1,2) order_refl _ assms(9,7,10,11)] assms(3) by simp
  obtain s2 where s2: "answer E args s = (WOk, s2, enc_reply v)" "visible now (keyspace_of s2) = m"
    using accepted_meets [OF assms(1,3-6)] by blast
  obtain r s3 q where "\<forall>b. dispatch E buffer_write args s b = (r, s3, b @ q)"
    "bufio_w.runs_as (dispatch E bufio_write args s) r s3 q"
    using bufio_w.mirrors_dispatch [of E args s] unfolding bufio_w.mirrors_def by blast
  then have "s' = s2" "bufio_content b' = bufio_content b @ enc_reply v"
    using bufio_w.runs_as_ok [where f = "dispatch E bufio_write args s" and w = b] assms(9) s2(1)
    by (auto simp: answer_def)
  then show ?thesis
    using s2(2) disk_kept_on_disk [OF k assms(8)] assms(10,11) by (simp add: aof_failed_def Err_def)
qed

theorem failed_sync_acknowledged_witness:
  "\<exists>s' b' l. dispatch (demo_env 5000000) bufio_write [''SET'', ''a'', ''x''] (demo_server (fresh_dev\<lparr>syncs := Some 0\<rparr>))
       demo_conn = (WOk, s', b') \<and>
     bufio_content b' = enc_simple ''OK'' \<and> visible 5000000 (keyspace_of s') = [''a'' \<mapsto> (''x'', 0)] \<and>
     aof_of s' = Some l \<and> log_policy l = PolicyAlways \<and> log_err l = Some ''EIO'' \<and> crash_file (bw_dev (bw l)) []"
proof -
  let ?d = "fresh_dev\<lparr>syncs := Some 0\<rparr>" and ?E = "demo_env 5000000" and ?args = "[''SET'', ''a'', ''x'']"
  let ?s = "demo_server ?d"
  let ?l = "snd (SyncIfAlways (journal_append ?args (demo_log ?d)))"
  have l: "log_policy ?l = PolicyAlways" "log_err ?l = Some ''EIO''" "on_disk (bw_dev (bw (demo_log ?d))) = []"
    "durable (bw_dev (bw (demo_log ?d))) \<le> length (written (bw_dev (bw (demo_log ?d))))"
    by code_simp+
  obtain s' b' where d: "dispatch ?E bufio_write ?args ?s demo_conn = (WOk, s', b')" "aof_of s' = Some ?l"
    using demo_set [of 5000000 ?d 5000000] by metis
  have i: "store_inv (keyspace_of ?s)" "visible 5000000 (keyspace_of (counted ?s)) = (\<lambda>_. None)" "aof_of ?s = Some (demo_log ?d)"
    using store_inv_New
    by (simp_all add: demo_server_def AttachAOF_def SetJournal_def visible_def fun_eq_iff)
  have "accepted ?E ?args ?s (counted ?s)"
    by (simp add: accepted_def record_commands arity_ok_def admit_def make_room_def EnforceMemoryLimit_def aof_failed_def
        demo_server_def AttachAOF_def SetJournal_def SetMemoryLimit_def Err_def demo_log_def with_store_def counted_def)
  moreover have "specs (ToUpper (unicode_of ?E) (?args ! 0)) = Some spec_set"
    by (simp add: specs_def)
  moreover have "spec_set (unicode_of ?E) 5000000 (tl ?args) (\<lambda>_. None) = (RSimple ''OK'', [''a'' \<mapsto> (''x'', 0)])"
    by (simp add: spec_set_def)
  moreover have "bufio_content demo_conn = []"
    by code_simp
  ultimately show ?thesis
    using failed_sync_acknowledged [OF i(1) _ _ _ _ _ i(3) l(4) d] i(2) d l
    by (auto simp: demo_env_def)
qed

end
