(* ===== verification/Lifecycle.thy ===== *)
theory Lifecycle
  imports Durability
begin

text \<open>
  The life of the process: accepting connections, and the orderly shutdown.  This is \<^verbatim>\<open>Serve\<close>,
  \<^verbatim>\<open>Drain\<close>, \<^verbatim>\<open>WaitBackground\<close> and \<^verbatim>\<open>StartBackgroundTasks\<close> of \<^verbatim>\<open>internal/server/server.go\<close> and
  the second part of \<^verbatim>\<open>main\<close>.  The main goroutine is at one of the points of \<open>phase\<close>; every
  connection has a handler goroutine, which leaves in the three deferred steps of \<^verbatim>\<open>Serve\<close>; and
  the steps of theory \<open>Persistence\<close> happen in between.

  \<^verbatim>\<open>main\<close> closes the log after the last handler and the last rewrite are gone, so an orderly
  shutdown loses nothing; and the shutdown always comes to an end.
\<close>

section \<open>Definitions\<close>

datatype phase = Serving | Draining | Forced | Waiting | Closing | Finished | Died

text \<open>How far a handler goroutine is: in \<^verbatim>\<open>HandleConn\<close>, or after one or two deferred calls.\<close>

datatype exit_pc = Running | Deleted | Discounted

text \<open>
  \<open>hung_up\<close> are the connections that the server has closed, \<open>departed\<close> those whose client has left,
  has sent bytes that are no command, or cannot be written to.
\<close>

record process =
  wld :: world
  phase :: phase
  conns :: "nat set"
  hung_up :: "nat set"
  departed :: "nat set"
  handlers :: "nat \<rightharpoonup> exit_pc"
  connWG :: nat
  close_err :: "bytes option"

text \<open>The goroutines that \<^verbatim>\<open>StartBackgroundTasks\<close> launches.\<close>

definition StartBackgroundTasks :: "server \<Rightarrow> actor set" where
  "StartBackgroundTasks s = {Housekeeping} \<union> (if aof_of s \<noteq> None then {Syncer} else {})"

definition add_connections :: "int \<Rightarrow> process \<Rightarrow> process" where
  "add_connections d P =
     P\<lparr>wld := (wld P)\<lparr>srv := (srv (wld P))\<lparr>connections := connections (srv (wld P)) + d\<rparr>\<rparr>\<rparr>"

text \<open>
  The outcome of \<^verbatim>\<open>Accept\<close>: a connection, or an error, which is that the listener is closed or
  is a timeout or neither.  One turn of the loop of \<^verbatim>\<open>Serve\<close>, with what \<^verbatim>\<open>main\<close> does when it
  returns: \<^verbatim>\<open>Fatalf\<close> ends the process at once, deferred calls and all.  The three counts of a new
  connection go up in one step: only \<^verbatim>\<open>Drain\<close>, which begins after \<^verbatim>\<open>Serve\<close> has returned, waits
  for the second and the third.
\<close>

datatype accept_result = NewConn nat | AcceptFailed bool bool

definition Serve :: "accept_result \<Rightarrow> process \<Rightarrow> process" where
  "Serve r P =
     (case r of
        AcceptFailed isClosed isTimeout \<Rightarrow>
          (if isClosed then P\<lparr>phase := Draining\<rparr>
           else if isTimeout then P
           else P\<lparr>phase := Died\<rparr>)
      | NewConn c \<Rightarrow>
          (add_connections 1 P)
            \<lparr>conns := insert c (conns P), connWG := connWG P + 1, handlers := (handlers P)(c \<mapsto> Running)\<rparr>)"

text \<open>
  The loop of \<^verbatim>\<open>HandleConn\<close> waits for the next command and returns when the read or the write of a
  reply fails: because of the client, or because \<^verbatim>\<open>Drain\<close> has closed the connection.  What is left
  to a handler that has returned is its deferred calls, one in each step.
\<close>

definition may_return :: "nat \<Rightarrow> process \<Rightarrow> bool" where
  "may_return c P \<longleftrightarrow>
     (case handlers P c of
        None \<Rightarrow> False
      | Some Running \<Rightarrow> c \<in> departed P \<or> c \<in> hung_up P
      | Some _ \<Rightarrow> True)"

definition handler_exit :: "nat \<Rightarrow> process \<Rightarrow> process" where
  "handler_exit c P =
     (case handlers P c of
        None \<Rightarrow> P
      | Some Running \<Rightarrow> P\<lparr>conns := conns P - {c}, handlers := (handlers P)(c \<mapsto> Deleted)\<rparr>
      | Some Deleted \<Rightarrow> (add_connections (- 1) P)\<lparr>handlers := (handlers P)(c \<mapsto> Discounted)\<rparr>
      | Some Discounted \<Rightarrow> P\<lparr>connWG := connWG P - 1, handlers := (handlers P)(c := None)\<rparr>)"

text \<open>\<^verbatim>\<open>Drain\<close>: what it waits for, and what it does when its timeout elapses first.\<close>

definition Drain_done :: "process \<Rightarrow> bool" where
  "Drain_done P \<longleftrightarrow> connWG P = 0"

definition Drain_timeout :: "process \<Rightarrow> process" where
  "Drain_timeout P = P\<lparr>phase := Forced, hung_up := hung_up P \<union> conns P\<rparr>"

definition WaitBackground :: "process \<Rightarrow> bool" where
  "WaitBackground P \<longleftrightarrow> rewriteWG (srv (wld P)) = 0"

definition ConnectedClients :: "process \<Rightarrow> int" where
  "ConnectedClients P = connections (srv (wld P))"

text \<open>The deferred \<^verbatim>\<open>l.Close()\<close> of \<^verbatim>\<open>main\<close>; \<open>ce\<close> is the outcome of closing the file.\<close>

definition close_log :: "bytes option \<Rightarrow> process \<Rightarrow> process" where
  "close_log ce P =
     (case aof_of (srv (wld P)) of
        None \<Rightarrow> P\<lparr>phase := Finished\<rparr>
      | Some l \<Rightarrow>
          (case Close ce l of
             (e, l') \<Rightarrow>
               P\<lparr>phase := Finished, close_err := e, wld := (wld P)\<lparr>srv := with_log l' (srv (wld P))\<rparr>\<rparr>))"

abbreviation alive :: "process \<Rightarrow> bool" where
  "alive P \<equiv> phase P \<noteq> Finished \<and> phase P \<noteq> Died"

text \<open>
  The steps that the process takes of its own: handlers that return, the main goroutine, and a
  rewrite.  The others are a new connection, a command, the background tasks, and a client that
  goes away.
\<close>

inductive own_step :: "time \<Rightarrow> process \<Rightarrow> time \<Rightarrow> process \<Rightarrow> bool" where
  leave: "own_step t P t (handler_exit c P)"
    if "alive P" and "may_return c P"
| drained: "own_step t P t (P\<lparr>phase := Waiting\<rparr>)"
    if "phase P = Draining \<or> phase P = Forced" and "Drain_done P"
| timeout: "own_step t P t (Drain_timeout P)"
    if "phase P = Draining"
| background: "own_step t P t (P\<lparr>phase := Closing\<rparr>)"
    if "phase P = Waiting" and "WaitBackground P"
| finish: "own_step t P t (close_log ce P)"
    if "phase P = Closing"
| rewrite: "own_step lo P t (P\<lparr>wld := w\<rparr>)"
    if "alive P" and "step lo (wld P) Rewriter t w"

inductive life_step :: "time \<Rightarrow> process \<Rightarrow> time \<Rightarrow> process \<Rightarrow> bool" where
  accept: "life_step t P t (Serve r P)"
    if "phase P = Serving" and "\<forall>c. r = NewConn c \<longrightarrow> handlers P c = None \<and> c \<notin> departed P \<and> c \<notin> hung_up P"
| work: "life_step lo P t (P\<lparr>wld := w\<rparr>)"
    if "alive P" and "step lo (wld P) a t w" and "a = Connection \<longrightarrow> (\<exists>c. handlers P c = Some Running)"
    and "a \<in> {Connection} \<union> StartBackgroundTasks (srv (wld P))"
| depart: "life_step t P t (P\<lparr>departed := insert c (departed P)\<rparr>)"
    if "alive P" and "handlers P c = Some Running"
| own: "life_step t P t' P'"
    if "own_step t P t' P'"

text \<open>
  A process with a log, from when it begins to serve, with no connection and no rewrite.
\<close>

definition fresh_process :: "world \<Rightarrow> process" where
  "fresh_process w = \<lparr>wld = w, phase = Serving, conns = {}, hung_up = {}, departed = {}, handlers = Map.empty, connWG = 0,
     close_err = None\<rparr>"

inductive life :: "time \<Rightarrow> process \<Rightarrow> bool" where
  boot: "life t (fresh_process w)"
    if "reachable t w" and "rw w = None" and "connections (srv w) = 0"
| next_step: "life t' P'" if "life t P" and "life_step t P t' P'"

text \<open>\<open>n\<close> steps of the process's own.\<close>

inductive own_steps :: "nat \<Rightarrow> time \<Rightarrow> process \<Rightarrow> time \<Rightarrow> process \<Rightarrow> bool" where
  none: "own_steps 0 t P t P"
| more: "own_steps (Suc n) t P t'' P''" if "own_step t P t' P'" and "own_steps n t' P' t'' P''"

section \<open>The invariant\<close>

definition counts_ok :: "process \<Rightarrow> bool" where
  "counts_ok P \<longleftrightarrow>
     finite (dom (handlers P)) \<and> connWG P = card (dom (handlers P)) \<and>
     conns P = {c. handlers P c = Some Running} \<and>
     connections (srv (wld P)) = int (card {c. handlers P c = Some Running \<or> handlers P c = Some Deleted})"

definition phase_ok :: "process \<Rightarrow> bool" where
  "phase_ok P \<longleftrightarrow>
     (phase P = Forced \<longrightarrow> conns P \<subseteq> hung_up P) \<and>
     (phase P \<in> {Waiting, Closing, Finished} \<longrightarrow> dom (handlers P) = {}) \<and>
     (phase P \<in> {Closing, Finished} \<longrightarrow> rewriteWG (srv (wld P)) = 0) \<and>
     (phase P = Finished \<longrightarrow> close_err P = None \<longrightarrow>
        (\<exists>l. aof_of (srv (wld P)) = Some l \<and> log_err l = None \<and>
           on_disk (bw_dev (bw l)) = contents l \<and> written (bw_dev (bw l)) = contents l))"

definition life_inv :: "time \<Rightarrow> process \<Rightarrow> bool" where
  "life_inv t P \<longleftrightarrow>
     world_inv t (wld P) \<and> counts_ok P \<and> phase_ok P \<and>
     (case rw (wld P) of None \<Rightarrow> True | Some (i, _) \<Rightarrow> i \<le> shardCount)"

lemma add_connections_simps [simp]:
  "phase (add_connections d P) = phase P" "handlers (add_connections d P) = handlers P"
  "conns (add_connections d P) = conns P" "hung_up (add_connections d P) = hung_up P"
  "departed (add_connections d P) = departed P" "connWG (add_connections d P) = connWG P"
  "rw (wld (add_connections d P)) = rw (wld P)" "close_err (add_connections d P) = close_err P"
  "store_of (wld (add_connections d P)) = store_of (wld P)"
  "rewriteWG (srv (wld (add_connections d P))) = rewriteWG (srv (wld P))"
  "connections (srv (wld (add_connections d P))) = connections (srv (wld P)) + d"
  by (simp_all add: add_connections_def)

lemma world_inv_add_connections [simp]: "world_inv t (wld (add_connections d P)) = world_inv t (wld P)"
  by (simp add: world_inv_def)

lemma life_inv_accept:
  assumes "life_inv t P" and "phase P = Serving" and "\<forall>c. r = NewConn c \<longrightarrow> handlers P c = None"
  shows "life_inv t (Serve r P)"
proof (cases r)
  case (NewConn c)
  then have n: "handlers P c = None"
    using assms(3) by simp
  let ?h = "handlers P" and ?h' = "(handlers P)(c \<mapsto> Running)"
  have "{x. ?h' x = Some Running \<or> ?h' x = Some Deleted} = insert c {x. ?h x = Some Running \<or> ?h x = Some Deleted}"
    and "{x. ?h' x = Some Running} = insert c {x. ?h x = Some Running}"
    using n by auto
  moreover have "finite {x. ?h x = Some Running \<or> ?h x = Some Deleted}" if "finite (dom ?h)"
    using that by (rule rev_finite_subset) auto
  moreover have "c \<notin> dom ?h"
    using n by auto
  ultimately have "counts_ok (Serve r P)"
    using assms(1) n unfolding life_inv_def counts_ok_def NewConn by (simp add: Serve_def)
  with assms(1,2) NewConn show ?thesis
    by (simp add: life_inv_def phase_ok_def Serve_def)
next
  case AcceptFailed
  with assms(1,2) show ?thesis
    by (simp add: life_inv_def counts_ok_def phase_ok_def Serve_def)
qed

lemma counts_ok_leave:
  assumes "counts_ok P" and "handlers P c = Some pc"
  shows "counts_ok (handler_exit c P)"
proof -
  let ?h = "handlers P" and ?A = "{x. handlers P x = Some Running \<or> handlers P x = Some Deleted}"
  have i: "finite (dom ?h)" "connWG P = card (dom ?h)" "conns P = {c. ?h c = Some Running}"
    "connections (srv (wld P)) = int (card ?A)"
    using assms(1) by (simp_all add: counts_ok_def)
  have "finite ?A"
    using i(1) by (rule rev_finite_subset) auto
  have d: "c \<in> dom ?h"
    using assms(2) by auto
  show ?thesis
  proof (cases pc)
    case Running
    have e: "handler_exit c P = P\<lparr>conns := conns P - {c}, handlers := ?h(c \<mapsto> Deleted)\<rparr>"
      using assms(2) Running by (simp add: handler_exit_def)
    have "{x. (?h(c \<mapsto> Deleted)) x = Some Running \<or> (?h(c \<mapsto> Deleted)) x = Some Deleted} = ?A"
      and "{x. (?h(c \<mapsto> Deleted)) x = Some Running} = conns P - {c}"
      using assms(2) Running i(3) by auto
    then show ?thesis
      using i(1,2,4) d unfolding counts_ok_def e by (simp add: insert_absorb del: fun_upd_apply)
  next
    case Deleted
    have e: "handler_exit c P = (add_connections (- 1) P)\<lparr>handlers := ?h(c \<mapsto> Discounted)\<rparr>"
      using assms(2) Deleted by (simp add: handler_exit_def)
    have c: "c \<in> ?A"
      using assms(2) Deleted by simp
    have "{x. (?h(c \<mapsto> Discounted)) x = Some Running \<or> (?h(c \<mapsto> Discounted)) x = Some Deleted} = ?A - {c}"
      and "{x. (?h(c \<mapsto> Discounted)) x = Some Running} = conns P"
      using assms(2) Deleted i(3) by auto
    moreover have "int (card (?A - {c})) = int (card ?A) - 1"
      using card_Suc_Diff1 [OF \<open>finite ?A\<close> c] by linarith
    ultimately show ?thesis
      using i(1,2,4) d unfolding counts_ok_def e by (simp add: insert_absorb del: fun_upd_apply)
  next
    case Discounted
    have e: "handler_exit c P = P\<lparr>connWG := connWG P - 1, handlers := ?h(c := None)\<rparr>"
      using assms(2) Discounted by (simp add: handler_exit_def)
    have "{x. (?h(c := None)) x = Some Running \<or> (?h(c := None)) x = Some Deleted} = ?A"
      and "{x. (?h(c := None)) x = Some Running} = conns P"
      using assms(2) Discounted i(3) by auto
    then show ?thesis
      using i(1,2,4) d unfolding counts_ok_def e by (simp add: del: fun_upd_apply)
  qed
qed

lemma life_inv_leave:
  assumes "life_inv t P" and "alive P" and "handlers P c = Some pc"
  shows "life_inv t (handler_exit c P)"
proof -
  have "counts_ok (handler_exit c P)"
    using assms(1,3) by (auto simp: life_inv_def intro: counts_ok_leave)
  moreover have "phase P \<notin> {Waiting, Closing, Finished}"
    using assms(1,3) by (auto simp: life_inv_def phase_ok_def)
  ultimately show ?thesis
    using assms(1) by (cases pc) (auto simp: life_inv_def phase_ok_def handler_exit_def assms(3))
qed

lemma step_snapshot_bound:
  assumes "step lo w a t w'" and "case rw w of None \<Rightarrow> True | Some (i, _) \<Rightarrow> i \<le> shardCount"
  shows "case rw w' of None \<Rightarrow> True | Some (i, _) \<Rightarrow> i \<le> shardCount"
  using assms by cases auto

lemma life_inv_work:
  assumes "life_inv lo P" and "alive P" and "step lo (wld P) a t w"
    and "a = Connection \<longrightarrow> (\<exists>c. handlers P c = Some Running)"
  shows "life_inv t (P\<lparr>wld := w\<rparr>)"
proof -
  have w: "world_inv lo (wld P)"
    using assms(1) by (simp add: life_inv_def)
  have "rewriteWG (srv w) = 0" if "phase P = Closing" "rewriteWG (srv (wld P)) = 0" "dom (handlers P) = {}"
    using step_counts(2) [OF assms(3) w] assms(4) that by (cases a) auto
  then show ?thesis
    using assms(1,2) step_inv [OF assms(3) w] step_counts(1) [OF assms(3) w] step_snapshot_bound [OF assms(3)]
    by (auto simp: life_inv_def counts_ok_def phase_ok_def)
qed

lemma life_inv_finish:
  assumes "life_inv t P" and "phase P = Closing"
  shows "life_inv t (close_log ce P)"
proof -
  obtain l where l: "aof_of (srv (wld P)) = Some l"
    using assms(1) by (auto simp: life_inv_def world_inv_def)
  obtain r l' where s: "syncLocked True l = (r, l')"
    by (cases "syncLocked True l")
  have e: "close_log ce P = P\<lparr>phase := Finished, close_err := (if r \<noteq> None then r else ce),
      wld := (wld P)\<lparr>srv := with_log l' (srv (wld P))\<rparr>\<rparr>"
    using l s by (simp add: close_log_def Close_def)
  have w: "world_inv t ((wld P)\<lparr>srv := with_log l' (srv (wld P))\<rparr>)"
    using world_inv_sync [of t "wld P" l True] assms(1) l s by (simp add: life_inv_def)
  have c: "connections (with_log l' x) = connections x" for x
    by (simp add: with_log_def)
  have "on_disk (bw_dev (bw l')) = contents l'" "written (bw_dev (bw l')) = contents l'" "log_err l' = None" if "r = None"
    using synced_on_disk [of l l'] syncLocked_cases [OF s] s that by (simp_all add: bufio_content_def)
  with w c assms show ?thesis
    unfolding e life_inv_def counts_ok_def phase_ok_def by (auto split: if_splits)
qed

lemma may_return_handler: "may_return c P \<Longrightarrow> \<exists>pc. handlers P c = Some pc"
  by (auto simp: may_return_def split: option.splits)

lemma own_step_inv:
  assumes "own_step t P t' P'" and "life_inv t P"
  shows "life_inv t' P'"
  using assms
proof cases
  case leave
  with assms(2) show ?thesis by (auto intro: life_inv_leave dest: may_return_handler)
next
  case rewrite
  with assms(2) show ?thesis by (auto intro: life_inv_work)
next
  case finish
  with assms(2) show ?thesis by (auto intro: life_inv_finish)
qed (use assms(2) in \<open>auto simp: life_inv_def counts_ok_def phase_ok_def Drain_done_def Drain_timeout_def WaitBackground_def\<close>)

lemma life_step_inv:
  assumes "life_step t P t' P'" and "life_inv t P"
  shows "life_inv t' P'"
  using assms
proof cases
  case accept
  with assms(2) show ?thesis by (auto intro: life_inv_accept)
next
  case work
  with assms(2) show ?thesis by (auto intro: life_inv_work)
next
  case depart
  with assms(2) show ?thesis by (auto simp: life_inv_def counts_ok_def phase_ok_def)
next
  case own
  with assms(2) show ?thesis by (auto intro: own_step_inv)
qed

lemma life_life_inv: "life t P \<Longrightarrow> life_inv t P"
proof (induction rule: life.induct)
  case (boot t w)
  then show ?case
    using reachable_inv [OF boot(1)] by (simp add: life_inv_def counts_ok_def phase_ok_def fresh_process_def)
next
  case (next_step t P t' P')
  then show ?case
    using life_step_inv by blast
qed

section \<open>The shutdown comes to an end\<close>

definition stopping :: "process \<Rightarrow> bool" where
  "stopping P \<longleftrightarrow> phase P \<in> {Draining, Forced, Waiting, Closing}"

text \<open>What is left to be done: by the main goroutine, by the handlers, by the rewrite.\<close>

fun phase_rank :: "phase \<Rightarrow> nat" where
  "phase_rank Serving = 5" | "phase_rank Draining = 4" | "phase_rank Forced = 3" | "phase_rank Waiting = 2"
| "phase_rank Closing = 1" | "phase_rank Finished = 0" | "phase_rank Died = 0"

fun exit_rank :: "exit_pc option \<Rightarrow> nat" where
  "exit_rank None = 0" | "exit_rank (Some Running) = 3" | "exit_rank (Some Deleted) = 2"
| "exit_rank (Some Discounted) = 1"

definition rewrite_rank :: "world \<Rightarrow> nat" where
  "rewrite_rank w =
     (if rewriteWG (srv w) = 0 then 0
      else (case rw w of None \<Rightarrow> shardCount + 2 | Some (i, _) \<Rightarrow> Suc shardCount - i))"

definition todo :: "process \<Rightarrow> nat" where
  "todo P = phase_rank (phase P) + (\<Sum>c \<in> dom (handlers P). exit_rank (handlers P c)) + rewrite_rank (wld P)"

lemma leave_progress:
  assumes "finite (dom (handlers P))" and "handlers P c = Some pc"
  shows "todo (handler_exit c P) < todo P"
proof -
  let ?h = "handlers P" and ?D = "dom (handlers P) - {c}"
  have d: "dom ?h = insert c ?D" "finite ?D"
    using assms by auto
  have s: "(\<Sum>x \<in> dom ?h. exit_rank (?h x)) = exit_rank (Some pc) + (\<Sum>x \<in> ?D. exit_rank (?h x))"
    using assms sum.remove [OF assms(1), of c "\<lambda>x. exit_rank (?h x)"] by auto
  have u: "(\<Sum>x \<in> dom (?h(c := y)). exit_rank ((?h(c := y)) x)) = exit_rank y + (\<Sum>x \<in> ?D. exit_rank (?h x))" for y
  proof -
    have e: "(\<Sum>x \<in> ?D. exit_rank ((?h(c := y)) x)) = (\<Sum>x \<in> ?D. exit_rank (?h x))"
      by (rule sum.cong) auto
    show ?thesis
    proof (cases y)
      case None
      then have "dom (?h(c := y)) = ?D"
        by simp
      then show ?thesis
        unfolding e [symmetric] using None by simp
    next
      case (Some a)
      then have "dom (?h(c := y)) = insert c ?D"
        by auto
      then show ?thesis
        unfolding e [symmetric] using sum.insert [OF d(2), of c "\<lambda>x. exit_rank ((?h(c := y)) x)"] by simp
    qed
  qed
  show ?thesis
    using assms(2) u [of "Some Deleted"] u [of "Some Discounted"] u [of None] s
    by (cases pc) (simp_all add: todo_def handler_exit_def rewrite_rank_def del: fun_upd_apply)
qed

lemma rewriter_progress:
  assumes "step lo w Rewriter t w'" and "world_inv lo w"
  shows "rewrite_rank w' < rewrite_rank w"
  using assms by cases (auto simp: rewrite_rank_def world_inv_def split: if_splits)

text \<open>Every step of the process's own leaves less to be done.\<close>

lemma own_step_progress:
  assumes "own_step t P t' P'" and "life_inv t P" and "stopping P"
  shows "todo P' < todo P \<and> (stopping P' \<or> phase P' = Finished)"
  using assms(1)
proof cases
  case (leave c)
  then have "todo P' < todo P"
    using leave_progress assms(2) by (auto simp: life_inv_def counts_ok_def dest!: may_return_handler)
  moreover have "phase P' = phase P"
    using leave by (simp add: handler_exit_def split: option.split exit_pc.split)
  ultimately show ?thesis
    using assms(3) by (simp add: stopping_def)
next
  case (finish ce)
  have "rewriteWG (srv (wld P)) = 0"
    using assms(2) finish by (simp add: life_inv_def phase_ok_def)
  moreover have "rewriteWG (srv (wld (close_log ce P))) = rewriteWG (srv (wld P))"
    "phase (close_log ce P) = Finished" "handlers (close_log ce P) = handlers P"
    by (simp_all add: close_log_def split: option.split prod.split)
  ultimately show ?thesis
    using finish by (simp add: todo_def rewrite_rank_def)
next
  case (rewrite w)
  then show ?thesis
    using rewriter_progress [of t "wld P" t' w] assms(2,3) by (simp add: life_inv_def todo_def stopping_def)
qed (use assms(3) in \<open>auto simp: stopping_def todo_def Drain_timeout_def\<close>)

lemma own_steps_bounded:
  assumes "own_steps n t P t' P'" and "life_inv t P" and "stopping P"
  shows "n + todo P' \<le> todo P \<and> life_inv t' P' \<and> (stopping P' \<or> phase P' = Finished)"
  using assms
proof (induction rule: own_steps.induct)
  case (more t P t' P' n t'' P'')
  have p: "todo P' < todo P" "stopping P' \<or> phase P' = Finished" "life_inv t' P'"
    using own_step_progress [OF more(1)] own_step_inv [OF more(1)] more.prems by simp_all
  show ?case
  proof (cases "stopping P'")
    case True
    then show ?thesis
      using more.IH p by simp
  next
    case False
    with p(2) have f: "phase P' = Finished" by simp
    have "n = 0 \<and> t'' = t' \<and> P'' = P'"
      using more(2) by cases (use f in \<open>auto elim: own_step.cases\<close>)
    with p f show ?thesis by simp
  qed
qed simp

text \<open>A rewrite that is waited for has a next step.\<close>

lemma rewrite_can_go_on:
  assumes "life_inv t P" and "rewriteWG (srv (wld P)) \<noteq> 0"
  shows "\<exists>w. step t (wld P) Rewriter t w"
proof -
  obtain l where l: "aof_of (srv (wld P)) = Some l"
    using assms(1) by (auto simp: life_inv_def world_inv_def)
  show ?thesis
  proof (cases "rw (wld P)")
    case None
    then show ?thesis
      using step.snapshot [of t t t "wld P"] assms(2) by blast
  next
    case (Some x)
    obtain i now recs where x: "x = (i, now, recs)" by (cases x)
    show ?thesis
    proof (cases "i < shardCount")
      case True
      then show ?thesis
        using step.shard [of t t "wld P" i now recs "[]"] Some x by blast
    next
      case False
      then have i: "rw (wld P) = Some (shardCount, now, recs)"
        using assms(1) Some x by (simp add: life_inv_def)
      let ?F = "\<lparr>created = Inl [], closed = None, renamed = None, reopened = None\<rparr>"
      obtain r l' f where "FinishRewrite ?F recs l = (r, l', f)"
        by (cases "FinishRewrite ?F recs l")
      from step.install [OF order_refl i l _ this] show ?thesis
        by auto
    qed
  qed
qed

text \<open>
  A shutdown is never stuck: in particular, once the connections have been closed every handler
  that is left can return.
\<close>

lemma forced_can_go_on:
  assumes "life_inv t P" and "phase P = Forced"
  shows "Drain_done P \<or> (\<exists>c. may_return c P)"
proof (cases "dom (handlers P) = {}")
  case True
  then show ?thesis
    using assms(1) by (simp add: Drain_done_def life_inv_def counts_ok_def)
next
  case False
  then obtain c pc where c: "handlers P c = Some pc" by blast
  moreover have "c \<in> hung_up P" if "pc = Running"
    using assms c that by (auto simp: life_inv_def counts_ok_def phase_ok_def)
  ultimately have "may_return c P"
    by (cases pc) (auto simp: may_return_def)
  then show ?thesis by blast
qed

lemma stopping_can_go_on:
  assumes "life_inv t P" and "stopping P"
  shows "\<exists>P'. own_step t P t P'"
proof -
  consider "phase P = Draining" | "phase P = Forced" | "phase P = Waiting" | "phase P = Closing"
    using assms(2) unfolding stopping_def by blast
  then show ?thesis
  proof cases
    case 1
    then show ?thesis by (blast intro: own_step.timeout)
  next
    case 2
    then have "alive P" by simp
    with forced_can_go_on [OF assms(1) 2] 2 show ?thesis
      by (blast intro: own_step.drained own_step.leave)
  next
    case 3
    then have "alive P" by simp
    moreover have "WaitBackground P \<or> (\<exists>w. step t (wld P) Rewriter t w)"
      using rewrite_can_go_on [OF assms(1)] by (auto simp: WaitBackground_def)
    ultimately show ?thesis
      using 3 by (blast intro: own_step.background own_step.rewrite)
  next
    case 4
    then show ?thesis by (blast intro: own_step.finish)
  qed
qed

section \<open>An example\<close>

text \<open>The server of theory \<open>Durability\<close> after a \<^verbatim>\<open>SET\<close>, shut down.\<close>

abbreviation demo_synced :: Log where
  "demo_synced \<equiv> snd (SyncIfAlways (journal_append [''SET'', ''a'', ''x''] (demo_log fresh_dev)))"

lemma demo_life:
  obtains w where "life 5000000 (fresh_process w)" and "aof_of (srv w) = Some demo_synced"
    and "rewriteWG (srv w) = 0" and "visible 5000000 (store_of w) = [''a'' \<mapsto> (''x'', 0)]"
proof -
  let ?w = "\<lparr>srv = demo_server fresh_dev, rw = None\<rparr>"
  have r: "reachable 5000000 ?w"
    by (rule demo_reachable) (simp_all add: fresh_dev_def)
  obtain s' b' where d: "dispatch (demo_env 5000000) bufio_write [''SET'', ''a'', ''x''] (srv ?w) demo_conn = (WOk, s', b')"
    and l: "aof_of s' = Some demo_synced" and v: "visible 5000000 (keyspace_of s') = [''a'' \<mapsto> (''x'', 0)]"
    using demo_set [of 5000000 fresh_dev 5000000] by simp metis
  have "connections s' = 0"
    using command_connections [OF reachable_inv [OF r] order_refl _ d]
    by (simp add: demo_env_def) (simp add: demo_server_def AttachAOF_def Configure_def server_New_def)
  moreover have "step 5000000 ?w Connection 5000000 (?w\<lparr>srv := s'\<rparr>)"
    using d by (intro step.command) (simp_all add: demo_env_def)
  then have w: "reachable 5000000 (?w\<lparr>srv := s'\<rparr>)"
    using r by (rule reachable.step [rotated])
  ultimately have "life 5000000 (fresh_process (?w\<lparr>srv := s'\<rparr>))"
    by (intro life.boot) simp_all
  moreover have "\<not> rewriting demo_synced"
    by code_simp
  then have "rewriteWG s' = 0"
    using reachable_inv [OF w] l by (simp add: world_inv_def)
  ultimately show thesis
    using that [of "?w\<lparr>srv := s'\<rparr>"] l v by simp
qed

lemma demo_shutdown:
  obtains P where "life 5000000 P" and "phase P = Finished" and "close_err P = None"
    and "aof_of (srv (wld P)) = Some (snd (syncLocked True demo_synced))"
    and "visible 5000000 (store_of (wld P)) = [''a'' \<mapsto> (''x'', 0)]"
proof -
  obtain w where w: "life 5000000 (fresh_process w)" "aof_of (srv w) = Some demo_synced" "rewriteWG (srv w) = 0"
    "visible 5000000 (store_of w) = [''a'' \<mapsto> (''x'', 0)]"
    using demo_life by blast
  let ?P1 = "(fresh_process w)\<lparr>phase := Draining\<rparr>"
  have "life 5000000 ?P1"
    using life.next_step [OF w(1) life_step.accept [of "fresh_process w" "AcceptFailed True False"]]
    by (simp add: fresh_process_def Serve_def)
  then have "life 5000000 (?P1\<lparr>phase := Waiting\<rparr>)"
    by (rule life.next_step) (rule life_step.own, rule own_step.drained, simp_all add: Drain_done_def fresh_process_def)
  then have "life 5000000 (?P1\<lparr>phase := Waiting, phase := Closing\<rparr>)"
    by (rule life.next_step) (rule life_step.own, rule own_step.background, simp_all add: WaitBackground_def fresh_process_def w(3))
  then have "life 5000000 (close_log None (?P1\<lparr>phase := Waiting, phase := Closing\<rparr>))"
    by (rule life.next_step) (rule life_step.own, rule own_step.finish, simp)
  moreover have "fst (syncLocked True demo_synced) = None"
    by code_simp
  ultimately show thesis
    using that w(2,4) by (auto simp: close_log_def Close_def fresh_process_def split: prod.splits)
qed

section \<open>Properties\<close>

text \<open>
  C15: the bookkeeping of connections and the order of the shutdown.  In every state of the process
  the number of connected clients that \<^verbatim>\<open>INFO\<close> reports is that of the handlers that have not given
  it back, the wait group counts the handlers that are not gone, and the map of connections has
  those that are served; once \<^verbatim>\<open>Drain\<close> has returned there is no handler any more, and when the log
  is closed no rewrite either.
\<close>

theorem lifecycle_bookkeeping:
  assumes "life t P"
  shows "ConnectedClients P = int (card {c. handlers P c = Some Running \<or> handlers P c = Some Deleted}) \<and>
    connWG P = card (dom (handlers P)) \<and> conns P = {c. handlers P c = Some Running} \<and>
    (phase P = Waiting \<or> phase P = Closing \<or> phase P = Finished \<longrightarrow> handlers P = Map.empty) \<and>
    (phase P = Closing \<or> phase P = Finished \<longrightarrow> WaitBackground P)"
  using life_life_inv [OF assms]
  by (auto simp: life_inv_def counts_ok_def phase_ok_def ConnectedClients_def WaitBackground_def)

theorem lifecycle_bookkeeping_witness:
  "\<exists>P. life 5000000 P \<and> phase P = Finished \<and> ConnectedClients P = 0 \<and> handlers P = Map.empty \<and> WaitBackground P"
proof -
  obtain P where P: "life 5000000 P" "phase P = Finished"
    using demo_shutdown by blast
  with lifecycle_bookkeeping [OF P(1)] show ?thesis
    by (intro exI [of _ P]) simp
qed

text \<open>
  C14: an orderly shutdown loses nothing.  When the process has finished and closing the log has
  reported no error, under any policy, the log's file is complete and on the disk, and a server
  that starts on it shows clients exactly what they saw, less what has expired, provided that the log
  is replayable.
\<close>

theorem orderly_shutdown_preserves:
  assumes "life t P" and "phase P = Finished" and "close_err P = None" and "aof_of (srv (wld P)) = Some l"
    and "crash_file (bw_dev (bw l)) p" and "contents l = encode_log rs" and "replayable T rs"
    and "\<forall>i j. clk (Es i) j = T i" and "\<forall>i. T i \<le> T (Suc i)" and "t \<le> T 0"
    and "keyspace_of s0 = SetMemoryLimit mem pol New"
  shows "\<exists>res s1. ReplayAOF calm_fs Es (Opened p EOF) s0 = ((None, res, p), length rs, s1) \<and>
    (\<forall>k. visible (T (length rs)) (keyspace_of s1) k =
       live (T (length rs)) (to_ms (visible t (store_of (wld P)) k)))"
proof -
  have i: "world_inv t (wld P)" "log_err l = None" "on_disk (bw_dev (bw l)) = contents l"
    "written (bw_dev (bw l)) = contents l"
    using life_life_inv [OF assms(1)] assms(2-4) by (auto simp: life_inv_def phase_ok_def)
  then have p: "p = encode_log rs"
    using assms(5,6) by (auto simp: crash_file_def intro: prefix_order.antisym)
  show ?thesis
    using replay_complete [OF i(1) assms(4) i(2) _ assms(6-11)] assms(5) unfolding p by blast
qed

theorem orderly_shutdown_preserves_witness:
  "\<exists>P res s1. life 5000000 P \<and> phase P = Finished \<and>
     ReplayAOF calm_fs (\<lambda>_. demo_env 6000000) (Opened (enc_command [''SET'', ''a'', ''x'']) EOF) server_New =
       ((None, res, enc_command [''SET'', ''a'', ''x'']), 1, s1) \<and>
     visible 6000000 (keyspace_of s1) ''a'' = Some (''x'', 0)"
proof -
  let ?rs = "[[''SET'', ''a'', ''x'']]" and ?l = "snd (syncLocked True demo_synced)"
  obtain P where P: "life 5000000 P" "phase P = Finished" "close_err P = None" "aof_of (srv (wld P)) = Some ?l"
    "visible 5000000 (store_of (wld P)) = [''a'' \<mapsto> (''x'', 0)]"
    using demo_shutdown by blast
  have c: "contents ?l = encode_log ?rs" "on_disk (bw_dev (bw ?l)) = encode_log ?rs"
    "written (bw_dev (bw ?l)) = encode_log ?rs"
    by code_simp+
  then have "crash_file (bw_dev (bw ?l)) (encode_log ?rs)"
    by (simp add: crash_file_def)
  moreover have "replayable (\<lambda>_. 6000000) ?rs"
    by (simp add: replayable_def writable_def within_limits_def MaxArrayLength_def MaxBulkLength_def decode_rec_def
        cmdSET_def revives_def)
  moreover have "keyspace_of server_New = SetMemoryLimit 0 (policy New) New"
    by (simp add: server_New_def SetMemoryLimit_def New_def)
  ultimately obtain res s1 where "ReplayAOF calm_fs (\<lambda>_. demo_env 6000000) (Opened (encode_log ?rs) EOF) server_New =
      ((None, res, encode_log ?rs), length ?rs, s1)"
    "visible 6000000 (keyspace_of s1) ''a'' = live 6000000 (to_ms (visible 5000000 (store_of (wld P)) ''a''))"
    using orderly_shutdown_preserves [OF P(1-4) _ c(1), of "encode_log ?rs" "\<lambda>_. 6000000"
        "\<lambda>_. demo_env 6000000" server_New 0 "policy New"]
    by (auto simp: demo_env_def)
  with P show ?thesis
    by (intro exI [of _ P] exI [of _ res] exI [of _ s1]) (simp add: live_def)
qed

text \<open>
  C16: a shutdown that has begun comes to its end, even if no client ever leaves by itself.  From
  any state of a shutdown there is a bound on the steps that the handlers, the main goroutine and a
  rewrite can take, whatever their order; and after any of them the process has finished or one of
  them can take another step.  So once these are all that happens every run ends with the process
  finished; it is never left waiting for a handler, a rewrite or the log.
\<close>

theorem shutdown_completes:
  assumes "life t P" and "phase P = Draining \<or> phase P = Forced \<or> phase P = Waiting \<or> phase P = Closing"
  shows "\<exists>N. \<forall>n t' P'. own_steps n t P t' P' \<longrightarrow>
    n \<le> N \<and> (phase P' = Finished \<or> (\<exists>P''. own_step t' P' t' P''))"
proof (intro exI [of _ "todo P"] allI impI)
  fix n t' P' assume r: "own_steps n t P t' P'"
  have "stopping P"
    using assms(2) by (auto simp: stopping_def)
  then have "n + todo P' \<le> todo P" "life_inv t' P'" "stopping P' \<or> phase P' = Finished"
    using own_steps_bounded [OF r life_life_inv [OF assms(1)]] by blast+
  then show "n \<le> todo P \<and> (phase P' = Finished \<or> (\<exists>P''. own_step t' P' t' P''))"
    using stopping_can_go_on by auto
qed

theorem shutdown_completes_witness:
  "\<exists>P P'. life 5000000 P \<and> phase P = Draining \<and> handlers P 7 = Some Running \<and> departed P = {} \<and>
     own_steps 1 5000000 P 5000000 P' \<and> phase P' = Forced \<and> (\<exists>P''. own_step 5000000 P' 5000000 P'')"
proof -
  obtain w where w: "life 5000000 (fresh_process w)"
    using demo_life by blast
  let ?Q = "Serve (NewConn 7) (fresh_process w)"
  let ?P = "?Q\<lparr>phase := Draining\<rparr>"
  have "life_step 5000000 (fresh_process w) 5000000 ?Q"
    by (rule life_step.accept) (simp_all add: fresh_process_def)
  from life.next_step [OF w this] have l0: "life 5000000 ?Q" .
  have "life_step 5000000 ?Q 5000000 ?P"
    using life_step.accept [of ?Q "AcceptFailed True False" 5000000] by (simp add: Serve_def fresh_process_def)
  from life.next_step [OF l0 this] have l: "life 5000000 ?P" .
  have r: "own_steps 1 5000000 ?P 5000000 (Drain_timeout ?P)"
    using own_steps.more [OF own_step.timeout [of ?P 5000000] own_steps.none] by simp
  have f: "phase (Drain_timeout ?P) = Forced"
    by (simp add: Drain_timeout_def)
  obtain N where "\<forall>n t' P'. own_steps n 5000000 ?P t' P' \<longrightarrow>
      n \<le> N \<and> (phase P' = Finished \<or> (\<exists>P''. own_step t' P' t' P''))"
    using shutdown_completes [OF l] by auto
  then have "\<exists>P''. own_step 5000000 (Drain_timeout ?P) 5000000 P''"
    using r f by fastforce
  moreover have "phase ?P = Draining" "handlers ?P 7 = Some Running" "departed ?P = {}"
    by (simp_all add: Serve_def fresh_process_def)
  ultimately show ?thesis
    using l r f by blast
qed

end
