(* ===== verification/Locks.thy ===== *)
theory Locks
  imports Shards
begin

text \<open>
  The locks of the store: the commit gate \<^verbatim>\<open>commitMu\<close> and the read-write lock of each shard.  The
  method calls of \<^verbatim>\<open>Store\<close> are lists of lock operations, in the order \<^verbatim>\<open>internal/store\<close> makes
  them, and any number of goroutines make such calls one after the other.  As every call takes
  its locks in ascending order, the gate first, the goroutines never deadlock.
\<close>

section \<open>Definitions\<close>

subsection \<open>Locks and goroutines\<close>

datatype mutex = CommitMu | ShardMu nat

datatype lock_call = Lock mutex | Unlock mutex | RLock nat | RUnlock nat

text \<open>A goroutine: the locks it holds, \<open>True\<close> for writing, and the operations it has still to make.\<close>

record goroutine =
  holds :: "(mutex \<times> bool) list"
  script :: "lock_call list"

text \<open>
  Whether goroutine \<open>i\<close> can make its next operation.  The locks are not reentrant, and a
  \<^verbatim>\<open>sync.RWMutex\<close> does not admit a reader while a writer waits for it.
\<close>

definition waits_for :: "mutex \<Rightarrow> goroutine \<Rightarrow> bool" where
  "waits_for m g \<longleftrightarrow> (case script g of Lock m' # _ \<Rightarrow> m' = m | _ \<Rightarrow> False)"

definition enabled :: "goroutine list \<Rightarrow> nat \<Rightarrow> bool" where
  "enabled gs i \<longleftrightarrow>
     (case script (gs ! i) of
        [] \<Rightarrow> False
      | Lock m # _ \<Rightarrow> list_all (\<lambda>g. (m, True) \<notin> set (holds g) \<and> (m, False) \<notin> set (holds g)) gs
      | RLock n # _ \<Rightarrow> list_all (\<lambda>g. (ShardMu n, True) \<notin> set (holds g) \<and> \<not> waits_for (ShardMu n) g) gs
      | _ \<Rightarrow> True)"

fun after :: "lock_call \<Rightarrow> (mutex \<times> bool) list \<Rightarrow> (mutex \<times> bool) list" where
  "after (Lock m) H = (m, True) # H"
| "after (Unlock m) H = remove1 (m, True) H"
| "after (RLock n) H = (ShardMu n, False) # H"
| "after (RUnlock n) H = remove1 (ShardMu n, False) H"

definition proceed :: "goroutine \<Rightarrow> goroutine" where
  "proceed g = \<lparr>holds = after (hd (script g)) (holds g), script = tl (script g)\<rparr>"

text \<open>
  The states \<open>n\<close> goroutines can reach when they make the calls that \<open>ok\<close> allows.
\<close>

inductive lock_state :: "(lock_call list \<Rightarrow> bool) \<Rightarrow> nat \<Rightarrow> goroutine list \<Rightarrow> bool" for ok n where
  idle: "lock_state ok n (replicate n \<lparr>holds = [], script = []\<rparr>)"
| call: "lock_state ok n (gs[i := (gs ! i)\<lparr>script := c\<rparr>])"
    if "lock_state ok n gs" and "i < n" and "script (gs ! i) = []" and "ok c"
| go: "lock_state ok n (gs[i := proceed (gs ! i)])"
    if "lock_state ok n gs" and "i < n" and "enabled gs i"

subsection \<open>The calls of the store\<close>

definition lockDurableMutation :: "bool \<Rightarrow> lock_call list" where
  "lockDurableMutation durable = (if durable then [Lock CommitMu] else [])"

definition unlockDurableMutation :: "bool \<Rightarrow> lock_call list" where
  "unlockDurableMutation durable = (if durable then [Unlock CommitMu] else [])"

abbreviation reading :: "nat \<Rightarrow> lock_call list" where
  "reading n \<equiv> [RLock n, RUnlock n]"

abbreviation writing :: "nat \<Rightarrow> lock_call list" where
  "writing n \<equiv> [Lock (ShardMu n), Unlock (ShardMu n)]"

abbreviation shards :: "nat \<Rightarrow> (nat \<Rightarrow> lock_call list) \<Rightarrow> lock_call list" where
  "shards n f \<equiv> concat (map f [0 ..< n])"

text \<open>
  A call, with what decides which locks it takes: whether it finds an expired entry, whether it
  writes, and how many shards its loop visits before it stops.  \<open>SweepCall\<close> is one of \<^verbatim>\<open>Len\<close>,
  \<^verbatim>\<open>DBSize\<close>, \<^verbatim>\<open>Used\<close> and \<^verbatim>\<open>AOFSnapshot\<close>; an \<open>EnforceCall\<close>, made when there is a
  limit, stops after the first \<^verbatim>\<open>Used\<close> or has the shards the sampling of each round visits with the
  victim's key, and the shards of a last sampling that finds no victim.
\<close>

datatype store_call =
    GetCall key bool
  | TTLCall key
  | ExistsCall "key list"
  | SweepCall
  | SetCall key
  | MSetCall "key list"
  | IncrementCall key bool bool
  | AppendCall key bool
  | ExpireAtCall key
  | DelCall "key list"
  | EnforceCall "(nat \<times> key) list" "nat option"
  | SampleCall nat

fun calls :: "bool \<Rightarrow> store_call \<Rightarrow> lock_call list" where
  "calls d (GetCall k stale) = reading (sidx k) @ (if stale then writing (sidx k) else [])"
| "calls d (TTLCall k) = reading (sidx k)"
| "calls d (ExistsCall ks) = concat (map (\<lambda>k. reading (sidx k)) ks)"
| "calls d SweepCall = shards shardCount reading"
| "calls d (SetCall k) = lockDurableMutation d @ writing (sidx k) @ unlockDurableMutation d"
| "calls d (MSetCall ks) =
     lockDurableMutation d @ map (\<lambda>i. Lock (ShardMu (unat i))) (lockWriteShards ks) @
     unlockDurableMutation d @ map (\<lambda>i. Unlock (ShardMu (unat i))) (unlockWriteShards (lockWriteShards ks))"
| "calls d (IncrementCall k stale ok) =
     lockDurableMutation d @ reading (sidx k) @ (if stale then writing (sidx k) else []) @
     (if ok then writing (sidx k) else []) @ unlockDurableMutation d"
| "calls d (AppendCall k stale) =
     lockDurableMutation d @ reading (sidx k) @ (if stale then writing (sidx k) else []) @
     writing (sidx k) @ unlockDurableMutation d"
| "calls d (ExpireAtCall k) = lockDurableMutation d @ writing (sidx k) @ unlockDurableMutation d"
| "calls d (DelCall ks) =
     lockDurableMutation d @ map (\<lambda>i. Lock (ShardMu (unat i))) (lockWriteShards ks) @
     unlockDurableMutation d @ map (\<lambda>i. Unlock (ShardMu (unat i))) (unlockWriteShards (lockWriteShards ks))"
| "calls d (EnforceCall rounds scanned) =
     lockDurableMutation d @ shards shardCount reading @
     (case scanned of
        None \<Rightarrow> unlockDurableMutation d
      | Some m \<Rightarrow>
          concat (map (\<lambda>(n, k). shards shardCount reading @ shards n reading @ writing (sidx k)) rounds) @
          shards shardCount reading @ shards m reading @ unlockDurableMutation d)"
| "calls d (SampleCall n) = shards n writing"

text \<open>The calls of a store with (\<open>d\<close>) or without a journal.\<close>

definition store_calls :: "bool \<Rightarrow> lock_call list \<Rightarrow> bool" where
  "store_calls d c \<longleftrightarrow> c \<in> range (calls d)"

section \<open>Lock order\<close>

fun rank :: "mutex \<Rightarrow> nat" where
  "rank CommitMu = 0"
| "rank (ShardMu n) = Suc n"

definition below :: "(mutex \<times> bool) list \<Rightarrow> mutex \<Rightarrow> bool" where
  "below H m \<longleftrightarrow> (\<forall>h \<in> set H. rank (fst h) < rank m)"

text \<open>
  The discipline: a lock is taken when all that are held come before it, what is released is held,
  and nothing is held in the end.
\<close>

fun ordered :: "(mutex \<times> bool) list \<Rightarrow> lock_call list \<Rightarrow> bool" where
  "ordered H [] \<longleftrightarrow> H = []"
| "ordered H (Lock m # c) \<longleftrightarrow> below H m \<and> ordered ((m, True) # H) c"
| "ordered H (RLock n # c) \<longleftrightarrow> below H (ShardMu n) \<and> ordered ((ShardMu n, False) # H) c"
| "ordered H (Unlock m # c) \<longleftrightarrow> (m, True) \<in> set H \<and> ordered (remove1 (m, True) H) c"
| "ordered H (RUnlock n # c) \<longleftrightarrow> (ShardMu n, False) \<in> set H \<and> ordered (remove1 (ShardMu n, False) H) c"

definition wants :: "lock_call \<Rightarrow> mutex option" where
  "wants a = (case a of Lock m \<Rightarrow> Some m | RLock n \<Rightarrow> Some (ShardMu n) | _ \<Rightarrow> None)"

lemma ordered_step: "ordered H (a # c) \<Longrightarrow> ordered (after a H) c"
  by (cases a) simp_all

lemma ordered_wants: "ordered H (a # c) \<Longrightarrow> wants a = Some m \<Longrightarrow> below H m"
  by (cases a) (simp_all add: wants_def)

definition disciplined :: "goroutine list \<Rightarrow> bool" where
  "disciplined gs \<longleftrightarrow> (\<forall>g \<in> set gs. ordered (holds g) (script g))"

text \<open>Nobody holds a lock that another one holds for writing.\<close>

definition exclusive :: "goroutine list \<Rightarrow> bool" where
  "exclusive gs \<longleftrightarrow>
     (\<forall>i < length gs. \<forall>j < length gs. \<forall>m b. i \<noteq> j \<longrightarrow> (m, True) \<in> set (holds (gs ! i)) \<longrightarrow> (m, b) \<notin> set (holds (gs ! j)))"

text \<open>A goroutine that is blocked wants a lock that somebody has.\<close>

lemma blocked_cases:
  assumes "script (gs ! i) \<noteq> []" and "\<not> enabled gs i" and "\<forall>j < length gs. \<not> enabled gs j"
  obtains m j where "wants (hd (script (gs ! i))) = Some m" and "j < length gs" and "m \<in> fst ` set (holds (gs ! j))"
proof (cases "hd (script (gs ! i))")
  case (Lock m)
  then have "\<exists>j < length gs. m \<in> fst ` set (holds (gs ! j))"
    using assms(1,2) by (cases "script (gs ! i)") (force simp: enabled_def list_all_length)+
  with Lock that show ?thesis by (auto simp: wants_def)
next
  case (RLock n)
  then have "\<exists>j < length gs. (ShardMu n, True) \<in> set (holds (gs ! j)) \<or> waits_for (ShardMu n) (gs ! j)"
    using assms(1,2) by (cases "script (gs ! i)") (auto simp: enabled_def list_all_length)
  then obtain j where j: "j < length gs" "(ShardMu n, True) \<in> set (holds (gs ! j)) \<or> waits_for (ShardMu n) (gs ! j)"
    by blast
  have "\<exists>k < length gs. ShardMu n \<in> fst ` set (holds (gs ! k))"
  proof (cases "waits_for (ShardMu n) (gs ! j)")
    case True
    then obtain c where "script (gs ! j) = Lock (ShardMu n) # c"
      by (auto simp: waits_for_def split: list.splits lock_call.splits)
    then show ?thesis
      using assms(3) j(1) by (force simp: enabled_def list_all_length)
  next
    case False
    with j show ?thesis by force
  qed
  with RLock that show ?thesis by (auto simp: wants_def)
qed (use assms(1,2) in \<open>cases "script (gs ! i)"; simp add: enabled_def\<close>)+

text \<open>
  Progress: among the blocked goroutines take the one that wants the greatest lock.  Who holds
  that lock is not finished, so it is blocked too, and wants a greater one.
\<close>

lemma blocked_chain:
  assumes "disciplined gs" and "\<forall>j < length gs. \<not> enabled gs j" and "i < length gs" and "script (gs ! i) \<noteq> []"
  obtains m j m' where "wants (hd (script (gs ! i))) = Some m" and "j < length gs" and "script (gs ! j) \<noteq> []"
    and "wants (hd (script (gs ! j))) = Some m'" and "rank m < rank m'"
proof -
  obtain m j where m: "wants (hd (script (gs ! i))) = Some m" and j: "j < length gs" "m \<in> fst ` set (holds (gs ! j))"
    using blocked_cases [OF assms(4) _ assms(2)] assms(2,3) by metis
  have o: "ordered (holds (gs ! j)) (script (gs ! j))"
    using assms(1) j(1) by (simp add: disciplined_def)
  then obtain a c where a: "script (gs ! j) = a # c"
    using j(2) by (cases "script (gs ! j)") auto
  then obtain m' where m': "wants a = Some m'"
    using blocked_cases [of gs j] assms(2) j(1) by (metis list.sel(1) list.simps(3))
  have "rank m < rank m'"
    using ordered_wants [OF o [unfolded a] m'] j(2) by (auto simp: below_def)
  with that m m' j(1) a show thesis by simp
qed

lemma disciplined_progress:
  assumes "disciplined gs" and "i < length gs" and "script (gs ! i) \<noteq> []"
  shows "\<exists>j < length gs. enabled gs j"
proof (rule ccontr)
  assume "\<not> ?thesis"
  then have stuck: "\<forall>j < length gs. \<not> enabled gs j" by blast
  let ?R = "\<lambda>j. rank (the (wants (hd (script (gs ! j)))))" and ?B = "{j. j < length gs \<and> script (gs ! j) \<noteq> []}"
  have "finite ?B" "i \<in> ?B"
    using assms(2,3) by simp_all
  then have "\<forall>j. j \<in> ?B \<longrightarrow> ?R j < Suc (Max (?R ` ?B))"
    by (auto simp: less_Suc_eq_le intro: Max_ge)
  from ex_has_greatest_nat [OF \<open>i \<in> ?B\<close> this]
  obtain k where k: "k \<in> ?B" and max: "\<And>j. j \<in> ?B \<Longrightarrow> ?R j \<le> ?R k"
    by blast
  have "k < length gs" "script (gs ! k) \<noteq> []"
    using k by simp_all
  then obtain m j m' where m: "wants (hd (script (gs ! k))) = Some m" and j: "j < length gs" "script (gs ! j) \<noteq> []"
    and m': "wants (hd (script (gs ! j))) = Some m'" and "rank m < rank m'"
    by (rule blocked_chain [OF assms(1) stuck])
  with max [of j] show False
    by simp
qed

section \<open>A store's calls keep to the order\<close>

locale lock_discipline =
  fixes ok :: "lock_call list \<Rightarrow> bool"
  assumes ok_ordered: "ok c \<Longrightarrow> ordered [] c"
begin

lemma state_length: "lock_state ok n gs \<Longrightarrow> length gs = n"
  by (induction rule: lock_state.induct) simp_all

lemma state_disciplined:
  assumes "lock_state ok n gs"
  shows "disciplined gs"
  using assms
proof (induction rule: lock_state.induct)
  case (call gs i c)
  have "holds (gs ! i) = []"
    using call state_length [OF call(1)] by (auto simp: disciplined_def dest!: nth_mem)
  with call ok_ordered show ?case
    by (auto simp: disciplined_def dest!: set_update_subset_insert [THEN subsetD])
next
  case (go gs i)
  obtain a c where "script (gs ! i) = a # c"
    using go(3) by (cases "script (gs ! i)") (simp_all add: enabled_def)
  moreover have "gs ! i \<in> set gs"
    using go(2) state_length [OF go(1)] by simp
  ultimately have "ordered (holds (proceed (gs ! i))) (script (proceed (gs ! i)))"
    using go.IH ordered_step [of "holds (gs ! i)" a c] by (auto simp: disciplined_def proceed_def)
  with go.IH show ?case
    by (auto simp: disciplined_def dest!: set_update_subset_insert [THEN subsetD])
qed (simp add: disciplined_def)

lemma state_progress:
  assumes "lock_state ok n gs" and "i < n" and "script (gs ! i) \<noteq> []"
  shows "\<exists>j < n. enabled gs j"
  using disciplined_progress [OF state_disciplined [OF assms(1)]] state_length [OF assms(1)] assms(2,3) by auto

lemma state_exclusive:
  assumes "lock_state ok n gs"
  shows "exclusive gs"
  using assms
proof (induction rule: lock_state.induct)
  case (call gs i c)
  then have "holds (gs[i := (gs ! i)\<lparr>script := c\<rparr>] ! x) = holds (gs ! x)" for x
    using state_length by (cases "x = i") simp_all
  with call.IH show ?case
    by (simp add: exclusive_def)
next
  case (go gs i)
  obtain a c where s: "script (gs ! i) = a # c"
    using go(3) by (cases "script (gs ! i)") (simp_all add: enabled_def)
  have sub: "(m, b) \<in> set (holds (gs ! i)) \<or>
      (\<forall>j < length gs. (m, True) \<notin> set (holds (gs ! j)) \<and> (b \<longrightarrow> (m, False) \<notin> set (holds (gs ! j))))"
    if "(m, b) \<in> set (after a (holds (gs ! i)))" for m b
    using go(3) s that by (cases a) (auto simp: enabled_def list_all_length dest: notin_set_remove1)
  have h: "holds (gs[i := proceed (gs ! i)] ! x) = (if x = i then after a (holds (gs ! i)) else holds (gs ! x))" for x
    using go(2) s state_length [OF go(1)] by (simp add: proceed_def)
  show ?case
    unfolding exclusive_def
  proof (intro allI impI)
    fix x y m b
    assume "x < length (gs[i := proceed (gs ! i)])" "y < length (gs[i := proceed (gs ! i)])" and ne: "x \<noteq> y"
      and x: "(m, True) \<in> set (holds (gs[i := proceed (gs ! i)] ! x))"
    then have len: "x < length gs" "y < length gs" by simp_all
    have IH: "(m, True) \<notin> set (holds (gs ! x)) \<or> (m, b) \<notin> set (holds (gs ! y))"
      using go.IH len ne unfolding exclusive_def by blast
    consider "x = i" "y \<noteq> i" | "y = i" "x \<noteq> i" | "x \<noteq> i" "y \<noteq> i"
      using ne by blast
    then show "(m, b) \<notin> set (holds (gs[i := proceed (gs ! i)] ! y))"
    proof cases
      case 1
      then show ?thesis
        using sub [of m True] x len IH unfolding h by (cases b) auto
    next
      case 2
      then show ?thesis
        using sub [of m b] x len IH unfolding h by auto
    next
      case 3
      then show ?thesis
        using x IH unfolding h by simp
    qed
  qed
qed (simp add: exclusive_def)

end

lemma below_Nil [simp]: "below [] m"
  by (simp add: below_def)

lemma below_gate [simp]: "below [(CommitMu, True)] (ShardMu n)"
  by (simp add: below_def)

lemma ordered_reading:
  assumes "\<And>n. below H (ShardMu n)" and "ordered H c"
  shows "ordered H (concat (map reading ns) @ c)"
  using assms by (induction ns) simp_all

lemma ordered_writing:
  assumes "\<And>n. below H (ShardMu n)" and "ordered H c"
  shows "ordered H (concat (map writing ns) @ c)"
  using assms by (induction ns) simp_all

lemma ordered_gate:
  "ordered (if d then [(CommitMu, True)] else []) c \<Longrightarrow> ordered [] (lockDurableMutation d @ c)"
  by (simp add: lockDurableMutation_def split: if_splits)

lemma ordered_ungate: "ordered (if d then [(CommitMu, True)] else []) (unlockDurableMutation d)"
  by (simp add: unlockDurableMutation_def)

lemma below_gates: "below (if d then [(CommitMu, True)] else []) (ShardMu n)"
  by simp

text \<open>All the locks of a multi-key call, taken in ascending order and released in descending order.\<close>

lemma ordered_locks:
  assumes "sorted_wrt (<) ns" and "\<forall>n \<in> set ns. below H (ShardMu n)"
  shows "ordered H (map (\<lambda>n. Lock (ShardMu n)) ns @ c) \<longleftrightarrow> ordered (rev (map (\<lambda>n. (ShardMu n, True)) ns) @ H) c"
  using assms by (induction ns arbitrary: H) (auto simp: below_def)

lemma ordered_unlocks:
  "ordered (map (\<lambda>n. (ShardMu n, True)) ns) (map (\<lambda>n. Unlock (ShardMu n)) ns)"
  by (induction ns) simp_all

lemma ordered_multi:
  assumes "sorted_wrt (<) ns"
  shows "ordered [] (lockDurableMutation d @ map (\<lambda>n. Lock (ShardMu n)) ns @ unlockDurableMutation d @
    map (\<lambda>n. Unlock (ShardMu n)) (rev ns))"
proof (rule ordered_gate)
  have r: "remove1 (CommitMu, True) (rev (map (\<lambda>n. (ShardMu n, True)) ns) @ [(CommitMu, True)]) =
      map (\<lambda>n. (ShardMu n, True)) (rev ns)"
    by (simp add: remove1_append rev_map image_iff)
  show "ordered (if d then [(CommitMu, True)] else []) (map (\<lambda>n. Lock (ShardMu n)) ns @ unlockDurableMutation d @
      map (\<lambda>n. Unlock (ShardMu n)) (rev ns))"
    using ordered_unlocks [of "rev ns"] r
    by (simp add: ordered_locks [OF assms] unlockDurableMutation_def rev_map)
qed

lemma ordered_write_shards:
  "ordered [] (lockDurableMutation d @ map (\<lambda>i. Lock (ShardMu (unat i))) (lockWriteShards ks) @
     unlockDurableMutation d @ map (\<lambda>i. Unlock (ShardMu (unat i))) (unlockWriteShards (lockWriteShards ks)))"
proof -
  have "sorted_wrt (<) (map unat (lockWriteShards ks))"
    using lockWriteShards_props(2,3) [of ks] by (simp add: sorted_wrt_map word_less_nat_alt [symmetric] strict_sorted_iff)
  from ordered_multi [OF this, of d] show ?thesis
    by (simp add: unlockWriteShards_def rev_map comp_def)
qed

lemma ordered_rounds:
  assumes "\<And>n. below H (ShardMu n)" and "ordered H c"
  shows "ordered H (concat (map (\<lambda>(n, k). shards shardCount reading @ shards n reading @ writing (sidx k)) rounds) @ c)"
  using assms by (induction rounds) (auto intro!: ordered_reading)

lemma calls_ordered: "ordered [] (calls d c)"
proof (cases c)
  case (ExistsCall ks)
  then show ?thesis
    using ordered_reading [of "[]" "[]" "map sidx ks"] by (simp add: comp_def)
next
  case SweepCall
  then show ?thesis
    using ordered_reading [of "[]" "[]" "[0 ..< shardCount]"] by simp
next
  case (SampleCall n)
  then show ?thesis
    using ordered_writing [of "[]" "[]" "[0 ..< n]"] by simp
next
  case (EnforceCall rounds n)
  show ?thesis
    unfolding EnforceCall calls.simps
    by (cases n; simp only: option.case; intro ordered_gate ordered_reading ordered_rounds ordered_ungate below_gates)
qed (simp_all add: ordered_write_shards ordered_gate ordered_ungate)

interpretation ld: lock_discipline "store_calls d"
  by unfold_locales (auto simp: store_calls_def calls_ordered)

section \<open>Properties\<close>

text \<open>
  C11: the store does not deadlock.  However many goroutines call the methods of the store, on
  whatever keys in whatever order, with a journal or without, some goroutine can go on as long as
  one of them is in a call; and nobody holds a lock that another goroutine holds for writing.
\<close>

theorem store_deadlock_free:
  assumes "lock_state (store_calls d) n gs"
  shows "(\<forall>i < n. script (gs ! i) \<noteq> [] \<longrightarrow> (\<exists>j < n. enabled gs j)) \<and>
    (\<forall>i < n. \<forall>j < n. \<forall>m b. i \<noteq> j \<longrightarrow> (m, True) \<in> set (holds (gs ! i)) \<longrightarrow> (m, b) \<notin> set (holds (gs ! j)))"
  using ld.state_progress [OF assms] ld.state_exclusive [OF assms] ld.state_length [OF assms]
  by (simp add: exclusive_def)

text \<open>Two commands that name their keys in opposite orders, each half way through taking its locks.\<close>

theorem store_deadlock_free_witness:
  "\<exists>gs. lock_state (store_calls False) 2 gs \<and> script (gs ! 0) \<noteq> [] \<and> script (gs ! 1) \<noteq> [] \<and>
     holds (gs ! 0) \<noteq> [] \<and> (\<exists>j < 2. enabled gs j)"
proof -
  define a b where "a = calls False (DelCall [''a'', ''b''])" and "b = calls False (DelCall [''b'', ''a''])"
  define gs where "gs = [\<lparr>holds = after (hd a) [], script = tl a\<rparr>, \<lparr>holds = [], script = b\<rparr>]"
  have ok: "store_calls False a" "store_calls False b"
    by (simp_all add: store_calls_def a_def b_def del: calls.simps)
  have c: "enabled [\<lparr>holds = [], script = a\<rparr>, \<lparr>holds = [], script = b\<rparr>] 0" "tl a \<noteq> []" "b \<noteq> []" "after (hd a) [] \<noteq> []"
    unfolding a_def b_def by code_simp+
  have "lock_state (store_calls False) 2 [\<lparr>holds = [], script = []\<rparr>, \<lparr>holds = [], script = []\<rparr>]"
    using lock_state.idle [of "store_calls False" 2] by (simp add: numeral_2_eq_2)
  from lock_state.call [OF this, of 0 a]
  have "lock_state (store_calls False) 2 [\<lparr>holds = [], script = a\<rparr>, \<lparr>holds = [], script = []\<rparr>]"
    using ok(1) by simp
  from lock_state.call [OF this, of 1 b]
  have "lock_state (store_calls False) 2 [\<lparr>holds = [], script = a\<rparr>, \<lparr>holds = [], script = b\<rparr>]"
    using ok(2) by simp
  from lock_state.go [OF this, of 0] have g: "lock_state (store_calls False) 2 gs"
    using c(1) by (simp add: gs_def proceed_def)
  have "\<exists>j < 2. enabled gs j"
    using conjunct1 [OF store_deadlock_free [OF g], rule_format, of 0] c(2) by (simp add: gs_def)
  with g c(2-4) show ?thesis
    by (intro exI [of _ gs]) (simp add: gs_def)
qed

end
