(* ===== verification/Interleaving.thy ===== *)
theory Interleaving
  imports Journal Expire
begin

text \<open>
  The store under concurrency.  The methods of \<^verbatim>\<open>Store\<close> are cut into their critical sections, the
  stretches they run under a shard's lock or the write to the journal, and any number of
  goroutines interleave them.  With a journal attached the mutating methods hold the commit gate
  \<^verbatim>\<open>commitMu\<close> from the first section to the last; without one they do not.

  A section is atomic here because the shards it touches are locked for it (theory \<open>Locks\<close>).
  What a method reads of the clock it reads when it is called, before it waits for the gate, as the
  code does: the reading can be old when the first section begins.  With a journal the journalled
  records describe the keyspace at every moment, and increments add up.  Without one neither
  \<^verbatim>\<open>Increment\<close> nor \<^verbatim>\<open>Append\<close> is atomic, and updates are lost.
\<close>

section \<open>Definitions\<close>

datatype call =
    CGet key
  | CSet key bytes time
  | CMSet "Pair list"
  | CDel "key list"
  | CIncrement key int
  | CAppend key bytes
  | CExpireAt key time
  | CEnforce
  | CSample nat

text \<open>The methods that begin with \<^verbatim>\<open>lockDurableMutation\<close>.\<close>

fun gated :: "call \<Rightarrow> bool" where
  "gated (CGet k) = False"
| "gated (CSample n) = False"
| "gated _ = True"

datatype answer =
    Found "bytes option"
  | Done
  | Count nat
  | Flag bool
  | Number "store_error + int"

text \<open>
  Where a goroutine is: \<open>Called\<close> is before the gate, with the reading of the clock; \<open>Inside\<close> is before
  the first section; the others are between two sections, with the variables that are live there.
\<close>

datatype pc =
    Idle
  | Called call time
  | Inside call time
  | Collecting key
  | Dropping call time
  | Computing call "entry option"
  | Journalling call key bytes time answer
  | Evicting key
  | Evicted key
  | Sweeping nat time nat nat
  | Leaving call answer

text \<open>What \<^verbatim>\<open>Increment\<close> makes of the entry it has read: the sum, or the error.\<close>

definition increment_value :: "int \<Rightarrow> entry option \<Rightarrow> store_error + int" where
  "increment_value delta found =
     (case (case found of None \<Rightarrow> Inr 0 | Some e \<Rightarrow> ParseInt (val e)) of
        Inl _ \<Rightarrow> Inl ErrNotInteger
      | Inr n \<Rightarrow>
          (if (delta > 0 \<and> n > wrap64 (maxInt64 - delta)) \<or> (delta < 0 \<and> n < wrap64 (- maxInt64 - 1 - delta))
           then Inl ErrNotInteger else Inr (wrap64 (n + delta))))"

definition kept_deadline :: "entry option \<Rightarrow> time" where
  "kept_deadline found = (case found of None \<Rightarrow> 0 | Some e \<Rightarrow> expiresAt e)"

definition kept_value :: "entry option \<Rightarrow> bytes" where
  "kept_value found = (case found of None \<Rightarrow> [] | Some e \<Rightarrow> val e)"

fun key_of :: "call \<Rightarrow> key" where
  "key_of (CIncrement k d) = k"
| "key_of (CAppend k suf) = k"
| "key_of _ = []"

text \<open>
  The next section of a goroutine, at time \<open>t\<close>.  \<open>ord\<close> is the order in which a loop over a shard's
  index meets the keys.  \<open>victim\<close> is what \<^verbatim>\<open>EnforceMemoryLimit\<close> decides next: it adds up the shards
  and samples them one after the other while others change them, so which key it evicts, and
  when it stops, is an input.
\<close>

definition found_by :: "call \<Rightarrow> time \<Rightarrow> key \<Rightarrow> 'j store \<Rightarrow> pc" where
  "found_by c now k s =
     (case fmlookup (data (shard_of s k)) k of
        None \<Rightarrow> Computing c None
      | Some e \<Rightarrow> (if expired e now then Dropping c now else Computing c (Some e)))"

fun critical :: "(bytes list \<Rightarrow> 'j \<Rightarrow> 'j) \<Rightarrow> time \<Rightarrow> key list \<Rightarrow> key option \<Rightarrow> pc \<Rightarrow> 'j store \<Rightarrow> pc \<times> 'j store" where
  "critical ap t ord victim (Inside (CGet k) now) s =
     (case Get_read now k s of
        (Missing, s') \<Rightarrow> (Leaving (CGet k) (Found None), s')
      | (Hit v, s') \<Rightarrow> (Leaving (CGet k) (Found (Some v)), s')
      | (Stale, s') \<Rightarrow> (Collecting k, s'))"
| "critical ap t ord victim (Collecting k) s = (Leaving (CGet k) (Found None), Get_collect t k s)"
| "critical ap t ord victim (Inside (CSet k v at) now) s =
     (Journalling (CSet k v at) k v at Done, setLockedInWriteLockedShard k v at s)"
| "critical ap t ord victim (Inside (CMSet ps) now) s = (Leaving (CMSet ps) Done, MSet ap ps s)"
| "critical ap t ord victim (Inside (CDel ks) now) s =
     (case Del ap now ks s of (n, s') \<Rightarrow> (Leaving (CDel ks) (Count n), s'))"
| "critical ap t ord victim (Inside (CExpireAt k at) now) s =
     (case ExpireAt ap now k at s of (b, s') \<Rightarrow> (Leaving (CExpireAt k at) (Flag b), s'))"
| "critical ap t ord victim (Inside (CIncrement k d) now) s = (found_by (CIncrement k d) now k s, s)"
| "critical ap t ord victim (Inside (CAppend k suf) now) s = (found_by (CAppend k suf) now k s, s)"
| "critical ap t ord victim (Dropping c now) s = (Computing c None, deleteLocked (key_of c) s)"
| "critical ap t ord victim (Computing (CIncrement k d) found) s =
     (case increment_value d found of
        Inl e \<Rightarrow> (Leaving (CIncrement k d) (Number (Inl e)), s)
      | Inr n \<Rightarrow>
          (Journalling (CIncrement k d) k (formatInt n) (kept_deadline found) (Number (Inr n)),
           setLockedInWriteLockedShard k (formatInt n) (kept_deadline found) s))"
| "critical ap t ord victim (Computing (CAppend k suf) found) s =
     (let v = kept_value found @ suf in
      (Journalling (CAppend k suf) k v (kept_deadline found) (Count (length v)),
       setLockedInWriteLockedShard k v (kept_deadline found) s))"
| "critical ap t ord victim (Journalling c k v at r) s = (Leaving c r, propagateSetLocked ap k v at s)"
| "critical ap t ord victim (Inside CEnforce now) s =
     (case victim of None \<Rightarrow> Leaving CEnforce Done | Some k \<Rightarrow> Evicting k, s)"
| "critical ap t ord victim (Evicting k) s =
     (Evicted k,
      (deleteLocked k s)\<lparr>stats := (stats s)\<lparr>EvictedKeys := EvictedKeys (stats s) + 1\<rparr>\<rparr>)"
| "critical ap t ord victim (Evicted k) s = (Inside CEnforce t, propagate ap [cmdDEL, k] s)"
| "critical ap t ord victim (Inside (CSample n) now) s = (Sweeping n now 0 0, tick s)"
| "critical ap t ord victim (Sweeping n now i seen) s =
     (if shardCount \<le> i \<or> seen = n then (Leaving (CSample n) Done, s)
      else
        (case expire_keys now n i (range_order ord (expiring (readShards s ! i))) seen 0 s of
           (seen', _, s') \<Rightarrow> (Sweeping n now (Suc i) seen', s')))"
| "critical ap t ord victim p s = (p, s)"

text \<open>
  The store, who holds the gate, where each goroutine is, and the answers so far, the last one
  first.
\<close>

record 'j machine =
  mem :: "'j store"
  commitMu :: "nat option"
  pcs :: "nat \<Rightarrow> pc"
  answers :: "(call \<times> answer) list"

definition machine_New :: "'j store \<Rightarrow> 'j machine" where
  "machine_New s = \<lparr>mem = s, commitMu = None, pcs = (\<lambda>_. Idle), answers = []\<rparr>"

text \<open>What happens to goroutine \<open>i\<close>: it is given a call, or gets to run, if the gate lets it.\<close>

datatype input = Invoke call | Run "key list" "key option"

fun machine_step :: "(bytes list \<Rightarrow> 'j \<Rightarrow> 'j) \<Rightarrow> nat \<times> time \<times> input \<Rightarrow> 'j machine \<Rightarrow> 'j machine" where
  "machine_step ap (i, t, Invoke c) M =
     (if pcs M i = Idle then M\<lparr>pcs := (pcs M)(i := Called c t)\<rparr> else M)"
| "machine_step ap (i, t, Run ord victim) M =
     (case pcs M i of
        Idle \<Rightarrow> M
      | Called c now \<Rightarrow>
          (if \<not> gated c \<or> journal (mem M) = None then M\<lparr>pcs := (pcs M)(i := Inside c now)\<rparr>
           else if commitMu M = None then M\<lparr>commitMu := Some i, pcs := (pcs M)(i := Inside c now)\<rparr>
           else M)
      | Leaving c r \<Rightarrow>
          M\<lparr>commitMu := (if gated c \<and> journal (mem M) \<noteq> None then None else commitMu M),
            pcs := (pcs M)(i := Idle), answers := (c, r) # answers M\<rparr>
      | p \<Rightarrow>
          (case critical ap t ord victim p (mem M) of
             (p', s') \<Rightarrow> M\<lparr>mem := s', pcs := (pcs M)(i := p')\<rparr>))"

definition machine_run :: "(bytes list \<Rightarrow> 'j \<Rightarrow> 'j) \<Rightarrow> (nat \<times> time \<times> input) list \<Rightarrow> 'j machine \<Rightarrow> 'j machine" where
  "machine_run ap es M = fold (machine_step ap) es M"

text \<open>The clock does not go back, and the deadlines clients give are after the first millisecond.\<close>

fun call_ok :: "call \<Rightarrow> bool" where
  "call_ok (CSet k v at) = (at = 0 \<or> 1000000 \<le> at)"
| "call_ok _ = True"

fun timely :: "time \<Rightarrow> (nat \<times> time \<times> input) list \<Rightarrow> bool" where
  "timely lo [] = True"
| "timely lo ((i, t, a) # es) = (lo \<le> t \<and> (case a of Invoke c \<Rightarrow> call_ok c | _ \<Rightarrow> True) \<and> timely t es)"

fun end_time :: "time \<Rightarrow> (nat \<times> time \<times> input) list \<Rightarrow> time" where
  "end_time lo [] = lo"
| "end_time lo ((i, t, a) # es) = end_time t es"

text \<open>The mutation that is in the memory and on its way to the journal.\<close>

fun pending_of :: "pc \<Rightarrow> mutation list" where
  "pending_of (Journalling c k v at r) = [MutSet k v at]"
| "pending_of (Evicted k) = [MutDel [k]]"
| "pending_of _ = []"

definition pending :: "'j machine \<Rightarrow> mutation list" where
  "pending M = (case commitMu M of None \<Rightarrow> [] | Some i \<Rightarrow> pending_of (pcs M i))"

section \<open>What the journal says of the memory\<close>

text \<open>
  Every entry in memory is in the map, expired or not; and what is in the map and not in memory is
  past its deadline.  Unlike \<open>agree\<close> this does not depend on a reading of the clock that an
  operation made long ago.
\<close>

abbreviation at_ok :: "time \<Rightarrow> bool" where
  "at_ok at \<equiv> at = 0 \<or> 1000000 \<le> at"

definition held :: "time \<Rightarrow> binding \<Rightarrow> binding \<Rightarrow> bool" where
  "held t x y \<longleftrightarrow>
     (case x of None \<Rightarrow> live t y = None | Some (v, at) \<Rightarrow> y = Some (v, ms_floor at) \<and> at_ok at)"

definition tracks :: "time \<Rightarrow> 'j store \<Rightarrow> keymap \<Rightarrow> bool" where
  "tracks t s J \<longleftrightarrow> (\<forall>k. held t (view s k) (J k))"

text \<open>A step that journals nothing and only removes what has expired.\<close>

definition quiet :: "time \<Rightarrow> 'j store \<Rightarrow> 'j store \<Rightarrow> bool" where
  "quiet t s s' \<longleftrightarrow>
     store_inv s' \<and> journal s' = journal s \<and>
     (\<forall>k. view s' k = view s k \<or> view s' k = None \<and> live t (view s k) = None)"

lemma held_simps [simp]:
  "held t None y \<longleftrightarrow> live t y = None"
  "held t (Some (v, at)) y \<longleftrightarrow> y = Some (v, ms_floor at) \<and> at_ok at"
  by (simp_all add: held_def)

lemma held_later: "held t x y \<Longrightarrow> t \<le> t' \<Longrightarrow> held t' x y"
  using live_live [of t t' y] by (auto simp: held_def split: option.splits)

lemma held_matches: "held t x y \<Longrightarrow> matches t (live t x) y"
  using matches_fresh [of _ t] by (cases x) (auto simp: matches_def [of t None] simp del: matches_None)

lemma held_drop: "held t x y \<Longrightarrow> live t x = None \<Longrightarrow> held t None y"
  using live_floor [of _ t] by (cases x) auto

lemma tracks_later: "tracks t s J \<Longrightarrow> t \<le> t' \<Longrightarrow> tracks t' s J"
  unfolding tracks_def by (blast intro: held_later)

lemma tracks_agree: "tracks t s J \<Longrightarrow> agree t s J"
  by (simp add: tracks_def agree_def visible_live held_matches)

lemma tracks_quiet: "tracks t s J \<Longrightarrow> quiet t s s' \<Longrightarrow> tracks t s' J"
  unfolding tracks_def quiet_def by (metis held_drop)

lemma quiet_live: "quiet t s s' \<Longrightarrow> live t (view s' k) = live t (view s k)"
  unfolding quiet_def by (metis live_None)

lemma live_later_None: "live t x = None \<Longrightarrow> t \<le> t' \<Longrightarrow> live t' x = None"
  by (metis live_None live_live)

lemma live_later_eq: "live t x = live t y \<Longrightarrow> t \<le> t' \<Longrightarrow> live t' x = live t' y"
  by (metis live_live)

lemma tracks_upd:
  assumes "tracks t s J" and "view s' = (view s)(k \<mapsto> (v, at))" and "at_ok at"
  shows "tracks t s' (J(k \<mapsto> (v, ms_floor at)))"
  using assms by (simp add: tracks_def)

lemma tracks_del:
  assumes "tracks t s J" and "view s' = (\<lambda>k. if k \<in> K then None else view s k)" and "L \<subseteq> K"
    and "\<And>k. k \<in> K - L \<Longrightarrow> view s k = None"
  shows "tracks t s' (\<lambda>k. if k \<in> L then None else J k)"
  unfolding tracks_def
proof
  fix k
  show "held t (view s' k) (if k \<in> L then None else J k)"
    using assms(1) [unfolded tracks_def, rule_format, of k] assms(2-4) by (cases "k \<in> K"; cases "k \<in> L") auto
qed

lemma tracks_bind_all:
  assumes "tracks t s J" and "view s' = bind_all ps (view s)"
  shows "tracks t s' (bind_all ps J)"
proof -
  have "\<forall>k. held t (bind_all ps m k) (bind_all ps J k)" if "\<forall>k. held t (m k) (J k)" for m J
    using that
  proof (induction ps m arbitrary: J rule: bind_all.induct)
    case (2 k v ps m)
    have "\<forall>j. held t ((m(k \<mapsto> (v, 0))) j) ((J(k \<mapsto> (v, 0))) j)"
      using 2(2) by simp
    from 2(1) [OF this] show ?case
      by (simp del: fun_upd_apply)
  qed simp
  with assms show ?thesis
    by (simp add: tracks_def)
qed

lemma tracks_propagate [simp]: "tracks t (propagate ap r s) J = tracks t s J"
  by (simp add: tracks_def view_def)

lemma view_stats [simp]: "view (s\<lparr>stats := st\<rparr>) = view s"
  by (simp add: view_def fun_eq_iff)

subsection \<open>The sections outside the gate\<close>

lemma quiet_refl: "store_inv s \<Longrightarrow> quiet t s s"
  by (simp add: quiet_def)

lemma quiet_Get_read: "store_inv s \<Longrightarrow> quiet t s (snd (Get_read now k s))"
  by (simp add: quiet_def Get_read_cases)

lemma expired_live: "lookup s k = Some e \<Longrightarrow> expired e now \<Longrightarrow> now \<le> t \<Longrightarrow> live t (view s k) = None"
  by (auto simp: view_def live_def expired_def IsZero_def)

lemma quiet_Get_collect:
  assumes "store_inv s"
  shows "quiet t s (Get_collect t k s)"
  using assms expired_live [of s k _ t t]
  by (auto simp: quiet_def Get_collect_inv Get_collect_frame view_def Get_collect_lookup split: option.splits)

lemma quiet_delete:
  assumes "store_inv s" and "live t (view s k) = None"
  shows "quiet t s (deleteLocked k s)"
  using assms by (auto simp: quiet_def deleteLocked_def store_inv_delete view_def lookup_delete)

lemma quiet_tick: "store_inv s \<Longrightarrow> quiet t s (tick s)"
  using tick_inv [of s] by (simp add: quiet_def) (simp add: tick_def view_def lookup_def shard_of_def)

lemma quiet_reaps:
  assumes "reaps now s ds s'" and "now \<le> t"
  shows "quiet t s s'"
  using assms expired_live [of s _ _ now t]
  by (auto simp: quiet_def reaps_def gone_at_def view_def split: option.splits)

lemma quiet_sweep:
  assumes "store_inv s" and "i < shardCount" and "seen \<le> n" and "now \<le> t"
    and "expire_keys now n i (range_order ord (expiring (readShards s ! i))) seen 0 s = (seen', g, s')"
  shows "quiet t s s' \<and> seen' \<le> n"
  using expire_keys_result [OF assms(1-3), of "range_order ord (expiring (readShards s ! i))" now 0] assms(3-5)
  by (auto intro: quiet_reaps)

section \<open>The gate\<close>

text \<open>Where a goroutine holds the gate, if there is a journal.\<close>

fun owns :: "pc \<Rightarrow> bool" where
  "owns (Inside c now) = gated c"
| "owns (Leaving c r) = gated c"
| "owns (Dropping c now) = True"
| "owns (Computing c found) = True"
| "owns (Journalling c k v at r) = True"
| "owns (Evicting k) = True"
| "owns (Evicted k) = True"
| "owns _ = False"

fun pc_ok :: "time \<Rightarrow> pc \<Rightarrow> bool" where
  "pc_ok t (Called c now) = (now \<le> t \<and> 1000000 \<le> now \<and> call_ok c)"
| "pc_ok t (Inside c now) = (now \<le> t \<and> 1000000 \<le> now \<and> call_ok c)"
| "pc_ok t (Dropping c now) = gated c"
| "pc_ok t (Computing c found) = gated c"
| "pc_ok t (Journalling c k v at r) = gated c"
| "pc_ok t (Sweeping n now i seen) = (now \<le> t \<and> seen \<le> n)"
| "pc_ok t _ = True"

text \<open>What the holder of the gate has read still stands.\<close>

fun stands :: "time \<Rightarrow> 'j store \<Rightarrow> pc \<Rightarrow> bool" where
  "stands t s (Dropping c now) = (live t (view s (key_of c)) = None)"
| "stands t s (Computing c found) =
     (at_ok (kept_deadline found) \<and>
      live t (view s (key_of c)) = live t (map_option (\<lambda>e. (val e, expiresAt e)) found))"
| "stands t s _ = True"

lemma pc_ok_later: "pc_ok t p \<Longrightarrow> t \<le> t' \<Longrightarrow> pc_ok t' p"
  by (cases p) auto

lemma stands_later: "stands t s p \<Longrightarrow> t \<le> t' \<Longrightarrow> stands t' s p"
  by (cases p) (simp_all, (blast intro: live_later_eq live_later_None)+)

lemma stands_quiet: "stands t s p \<Longrightarrow> quiet t s s' \<Longrightarrow> stands t s' p"
  by (cases p) (auto simp: quiet_live)

lemma free_section:
  assumes "store_inv s" and "\<not> owns p" and "pc_ok t p" and "critical ap t ord victim p s = (p', s')"
    and "p \<noteq> Idle" and "\<And>c now. p \<noteq> Called c now" and "\<And>c r. p \<noteq> Leaving c r"
  shows "quiet t s s' \<and> \<not> owns p' \<and> pc_ok t p'"
proof (cases p)
  case (Inside c now)
  with assms(2) consider k where "c = CGet k" | n where "c = CSample n"
    by (cases c) auto
  then show ?thesis
  proof cases
    case (1 k)
    obtain r s1 where "Get_read now k s = (r, s1)" by (cases "Get_read now k s")
    with 1 Inside assms(3,4) quiet_Get_read [OF assms(1), of t now k] show ?thesis
      by (auto split: get_result.splits)
  next
    case (2 n)
    with Inside assms(3,4) quiet_tick [OF assms(1)] show ?thesis by auto
  qed
next
  case (Collecting k)
  with assms quiet_Get_collect show ?thesis by auto
next
  case (Sweeping n now i seen)
  show ?thesis
  proof (cases "shardCount \<le> i \<or> seen = n")
    case True
    with Sweeping assms(3,4) quiet_refl [OF assms(1)] show ?thesis by auto
  next
    case False
    obtain a b s1 where e: "expire_keys now n i (range_order ord (expiring (readShards s ! i))) seen 0 s = (a, b, s1)"
      by (metis prod_cases3)
    with False Sweeping assms(3,4) quiet_sweep [OF assms(1) _ _ _ e, of t] show ?thesis by auto
  qed
qed (use assms in auto)

text \<open>
  A section of the holder of the gate: what it hands to the journal, together with what is then
  pending, keeps the journal's map in step with the memory.
\<close>

definition logs :: "(bytes list \<Rightarrow> 'j \<Rightarrow> 'j) \<Rightarrow> time \<Rightarrow> keymap \<Rightarrow> 'j store \<Rightarrow> pc \<Rightarrow> 'j store \<Rightarrow> bool" where
  "logs ap t J s p' s' \<longleftrightarrow>
     store_inv s' \<and> owns p' \<and> pc_ok t p' \<and> stands t s' p' \<and>
     (\<exists>ms. journalled ap (map enc_mut ms) s s' \<and> hits (ms @ pending_of p') J \<and>
        tracks t s' (carry_out (ms @ pending_of p') J))"

lemma logs_nothing:
  assumes "store_inv s" and "tracks t s J" and "owns p'" and "pc_ok t p'" and "stands t s p'" and "pending_of p' = []"
  shows "logs ap t J s p' s"
  unfolding logs_def using assms by (intro conjI exI [of _ "[]"]) (simp_all add: journalled_nil)

lemma logs_write:
  assumes "store_inv s" and "tracks t s J" and "at_ok at" and "gated c"
  shows "logs ap t J s (Journalling c k v at r) (setLockedInWriteLockedShard k v at s)"
proof -
  have "view (setLockedInWriteLockedShard k v at s) = (view s)(k \<mapsto> (v, at))"
    using assms(1) by (simp add: view_def lookup_set fun_eq_iff)
  from tracks_upd [OF assms(2) this assms(3)] show ?thesis
    unfolding logs_def using assms(1,4) by (intro conjI exI [of _ "[]"]) (simp_all add: journalled_nil store_inv_set)
qed

lemma logs_record:
  assumes "store_inv s" and "tracks t s (carry_out (pending_of p) J)" and "hits (pending_of p) J"
    and "owns p'" and "pc_ok t p'" and "stands t s' p'" and "pending_of p' = []"
    and "pending_of p = [m]" and "s' = propagate ap (enc_mut m) s"
  shows "logs ap t J s p' s'"
  unfolding logs_def using assms
  by (intro conjI exI [of _ "[m]"]) (simp_all add: journalled_propagate)

lemma logs_evict:
  assumes "store_inv s" and "tracks t s J"
  shows "logs ap t J s (Evicted k) ((deleteLocked k s)\<lparr>stats := st\<rparr>)"
proof -
  have "view ((deleteLocked k s)\<lparr>stats := st\<rparr>) = (\<lambda>x. if x \<in> {k} then None else view s x)"
    using assms(1) by (auto simp: view_def deleteLocked_def lookup_delete fun_eq_iff)
  from tracks_del [OF assms(2) this, of "{k}"] show ?thesis
    unfolding logs_def using assms(1)
    by (intro conjI exI [of _ "[]"]) (simp_all add: journalled_nil deleteLocked_def store_inv_delete)
qed

lemma logs_MSet:
  assumes "store_inv s" and "tracks t s J"
  shows "logs ap t J s (Leaving (CMSet ps) r) (MSet ap ps s)"
proof -
  have "visible 0 s = view s" for s :: "'a store"
    by (simp add: fun_eq_iff visible_live)
  then have "view (MSet ap ps s) = bind_all (map (\<lambda>p. (Key p, Value p)) ps) (view s)"
    using MSet_visible [OF assms(1), of 0 ap ps] by simp
  moreover have "journalled ap (map enc_mut [MutMSet (map (\<lambda>p. (Key p, Value p)) ps)]) s (MSet ap ps s)"
    using MSet_journalled [of ap ps s] by (simp add: comp_def)
  ultimately show ?thesis
    unfolding logs_def using assms tracks_bind_all
    by (intro conjI exI [of _ "[MutMSet (map (\<lambda>p. (Key p, Value p)) ps)]"]) (simp_all add: MSet_inv)
qed

lemma logs_Del:
  assumes "store_inv s" and "tracks t s J"
  shows "logs ap t J s (Leaving (CDel ks) r) (snd (Del ap now ks s))"
proof -
  let ?p = "present ks (lookup s)" and ?ms = "if present ks (lookup s) = [] then [] else [MutDel (present ks (lookup s))]"
  have v: "view (snd (Del ap now ks s)) = (\<lambda>k. if k \<in> set ks then None else view s k)"
    using Del_result(2) [OF assms(1)] by (simp add: view_def fun_eq_iff)
  have "tracks t (snd (Del ap now ks s)) (\<lambda>k. if k \<in> set ?p then None else J k)"
    by (rule tracks_del [OF assms(2) v]) (auto simp: set_present view_def)
  then have "tracks t (snd (Del ap now ks s)) (carry_out ?ms J)"
    by (cases "?p = []") simp_all
  moreover have "journalled ap (map enc_mut ?ms) s (snd (Del ap now ks s))"
    using Del_result(4) [OF assms(1), where ap = ap and now = now and ks = ks] by (simp split: if_splits)
  ultimately show ?thesis
    unfolding logs_def by (intro conjI exI [of _ ?ms]) (simp_all add: Del_result(1) [OF assms(1)])
qed

lemma logs_ExpireAt:
  assumes "store_inv s" and "tracks t s J" and "1000000 \<le> now"
  shows "logs ap t J s (Leaving (CExpireAt k at) r) (snd (ExpireAt ap now k at s))"
proof (cases "lookup s k")
  case None
  then have "snd (ExpireAt ap now k at s) = s"
    by (simp add: ExpireAt_def lookup_def)
  with assms show ?thesis
    by (simp add: logs_nothing)
next
  case (Some e)
  let ?s = "snd (ExpireAt ap now k at s)"
  have inv: "store_inv ?s"
    using assms(1) by (rule ExpireAt_inv)
  have J: "J k = Some (val e, ms_floor (expiresAt e))"
    using assms(2) [unfolded tracks_def, rule_format, of k] Some by (simp add: view_def)
  note j = ExpireAt_journalled [where ap = ap and s = s and k = k and now = now and at = at]
  show ?thesis
  proof (cases "\<not> expired e now \<and> now < at")
    case True
    then have "view ?s = (view s)(k \<mapsto> (val e, at))"
      using ExpireAt_cases(3) [OF assms(1), of now k "val e" "expiresAt e" at ap] Some
      by (simp add: visible_def view_def fun_eq_iff)
    from tracks_upd [OF assms(2) this] have "tracks t ?s (carry_out [MutExpireAt k at] J)"
      using J True assms(3) ms_floor_pos [of at] by simp
    then show ?thesis
      unfolding logs_def using j Some True inv J by (intro conjI exI [of _ "[MutExpireAt k at]"]) simp_all
  next
    case False
    then have "lookup ?s = (lookup s)(k := None)"
      using ExpireAt_cases(1,2) [OF assms(1), where now = now and k = k and at = at and ap = ap] Some
      by (cases "expired e now") (auto simp: visible_def not_less)
    then have "view ?s = (\<lambda>x. if x \<in> {k} then None else view s x)"
      by (auto simp: view_def fun_eq_iff)
    from tracks_del [OF assms(2) this, of "{k}"] show ?thesis
      unfolding logs_def using j Some False inv by (intro conjI exI [of _ "[MutDel [k]]"]) simp_all
  qed
qed

lemma found_by_ok:
  assumes "store_inv s" and "tracks t s J" and "gated c" and "now \<le> t" and "key_of c = k"
  shows "logs ap t J s (found_by c now k s) s"
proof (rule logs_nothing [OF assms(1,2)])
  have h: "held t (view s k) (J k)"
    using assms(2) by (simp add: tracks_def)
  show "stands t s (found_by c now k s)"
    using h assms(4,5) expired_live [of s k _ now t]
    by (auto simp: found_by_def lookup_def [symmetric] view_def kept_deadline_def split: option.splits)
qed (use assms in \<open>auto simp: found_by_def split: option.splits\<close>)

lemma owner_inside:
  assumes "store_inv s" and "tracks t s J" and "gated c" and "pc_ok t (Inside c now)"
    and "critical ap t ord victim (Inside c now) s = (p', s')"
  shows "logs ap t J s p' s'"
proof (cases c)
  case (CDel ks)
  then show ?thesis
    using assms(5) logs_Del [OF assms(1,2), where ap = ap and now = now and ks = ks] by (auto split: prod.splits)
next
  case (CExpireAt k at)
  then show ?thesis
    using assms(4,5) logs_ExpireAt [OF assms(1,2), where ap = ap and now = now and k = k and at = at]
    by (auto split: prod.splits)
qed (use assms in \<open>auto intro: logs_write logs_MSet logs_nothing found_by_ok split: option.splits\<close>)

lemma owner_dropping:
  assumes "store_inv s" and "tracks t s J" and "gated c" and "live t (view s (key_of c)) = None"
  shows "logs ap t J s (Computing c None) (deleteLocked (key_of c) s)"
proof -
  have q: "quiet t s (deleteLocked (key_of c) s)"
    using assms(1,4) by (rule quiet_delete)
  have "logs ap t J (deleteLocked (key_of c) s) (Computing c None) (deleteLocked (key_of c) s)"
    using logs_nothing [OF _ tracks_quiet [OF assms(2) q], of "Computing c None"] quiet_live [OF q] q assms(3,4)
    by (simp add: quiet_def kept_deadline_def)
  then show ?thesis
    using q by (simp add: logs_def journalled_def quiet_def)
qed

text \<open>Every section of the holder of the gate.\<close>

lemma owner_section:
  assumes "store_inv s" and "owns p" and "pc_ok t p" and "stands t s p" and "1000000 \<le> t"
    and "hits (pending_of p) J" and "tracks t s (carry_out (pending_of p) J)"
    and "critical ap t ord victim p s = (p', s')" and "\<And>c r. p \<noteq> Leaving c r"
  shows "logs ap t J s p' s'"
proof (cases p)
  case (Inside c now)
  with assms owner_inside [OF assms(1), of t J c now] show ?thesis by simp
next
  case (Dropping c now)
  with assms owner_dropping [OF assms(1), of t J c] show ?thesis by auto
next
  case (Computing c found)
  have T: "tracks t s J"
    using assms(7) Computing by simp
  show ?thesis
    using assms(1,3,4,8) Computing T
    by (cases c) (auto simp: Let_def intro: logs_write logs_nothing split: sum.splits)
next
  case (Journalling c k v at r)
  have "s' = propagate ap (enc_mut (MutSet k v at)) s" "p' = Leaving c r"
    using assms(8) Journalling by (auto simp: propagateSetLocked_def set_record_def)
  with logs_record [OF assms(1,7,6), where p' = p' and m = "MutSet k v at" and s' = s' and ap = ap] assms(3) Journalling show ?thesis
    by simp
next
  case (Evicting k)
  with assms(7,8) show ?thesis
    using logs_evict [OF assms(1)] by auto
next
  case (Evicted k)
  have "s' = propagate ap (enc_mut (MutDel [k])) s" "p' = Inside CEnforce t"
    using assms(8) Evicted by simp_all
  with logs_record [OF assms(1,7,6), where p' = p' and m = "MutDel [k]" and s' = s' and ap = ap] assms(5) Evicted show ?thesis
    by simp
qed (use assms in auto)

section \<open>The machine\<close>

text \<open>
  With a journal: who is inside a gated method holds the gate, and the records so far with the one
  that is pending describe the memory.
\<close>

definition gate_ok :: "'j machine \<Rightarrow> bool" where
  "gate_ok M \<longleftrightarrow> (\<forall>i. owns (pcs M i) \<longleftrightarrow> commitMu M = Some i)"

definition machine_inv :: "(bytes list \<Rightarrow> 'j \<Rightarrow> 'j) \<Rightarrow> 'j \<Rightarrow> keymap \<Rightarrow> time \<Rightarrow> 'j machine \<Rightarrow> bool" where
  "machine_inv ap j0 J0 t M \<longleftrightarrow>
     1000000 \<le> t \<and> store_inv (mem M) \<and> gate_ok M \<and> (\<forall>i. pc_ok t (pcs M i)) \<and>
     (\<forall>i. commitMu M = Some i \<longrightarrow> stands t (mem M) (pcs M i)) \<and>
     (\<exists>ms. journal (mem M) = Some (fold ap (map enc_mut ms) j0) \<and> hits (ms @ pending M) J0 \<and>
        tracks t (mem M) (carry_out (ms @ pending M) J0))"

lemma machine_inv_later: "machine_inv ap j0 J0 t M \<Longrightarrow> t \<le> t' \<Longrightarrow> machine_inv ap j0 J0 t' M"
  unfolding machine_inv_def by (blast intro: pc_ok_later stands_later tracks_later order_trans)

lemma machine_inv_answers [simp]: "machine_inv ap j0 J0 t (M\<lparr>answers := a\<rparr>) = machine_inv ap j0 J0 t M"
proof -
  have "pending (M\<lparr>answers := a\<rparr>) = pending M"
    by (simp add: pending_def split: option.split)
  then show ?thesis
    by (simp add: machine_inv_def gate_ok_def)
qed

lemma pending_free: "commitMu M \<noteq> Some i \<Longrightarrow> pending (M\<lparr>mem := s', pcs := (pcs M)(i := p')\<rparr>) = pending M"
  by (simp add: pending_def split: option.split)

lemma machine_inv_free:
  assumes "machine_inv ap j0 J0 t M" and "\<not> owns (pcs M i)" and "\<not> owns p'" and "pc_ok t p'" and "quiet t (mem M) s'"
  shows "machine_inv ap j0 J0 t (M\<lparr>mem := s', pcs := (pcs M)(i := p')\<rparr>)"
proof -
  have n: "commitMu M \<noteq> Some i"
    using assms(1,2) by (auto simp: machine_inv_def gate_ok_def)
  obtain ms where "journal (mem M) = Some (fold ap (map enc_mut ms) j0)" "hits (ms @ pending M) J0"
    "tracks t (mem M) (carry_out (ms @ pending M) J0)"
    using assms(1) by (auto simp: machine_inv_def)
  then have "\<exists>ms. journal s' = Some (fold ap (map enc_mut ms) j0) \<and> hits (ms @ pending M) J0 \<and>
      tracks t s' (carry_out (ms @ pending M) J0)"
    using tracks_quiet [OF _ assms(5)] assms(5) by (auto simp: quiet_def)
  moreover have "stands t s' (((pcs M)(i := p')) j)" if "commitMu M = Some j" for j
    using stands_quiet [OF _ assms(5), of "pcs M j"] assms(1) that n by (auto simp: machine_inv_def)
  ultimately show ?thesis
    using assms pending_free [OF n, where s' = s' and p' = p'] n by (auto simp: machine_inv_def gate_ok_def quiet_def)
qed

lemma machine_inv_owner:
  assumes "machine_inv ap j0 J0 t M" and "commitMu M = Some i"
    and "\<And>J. hits (pending_of (pcs M i)) J \<Longrightarrow> tracks t (mem M) (carry_out (pending_of (pcs M i)) J) \<Longrightarrow>
      logs ap t J (mem M) p' s'"
  shows "machine_inv ap j0 J0 t (M\<lparr>mem := s', pcs := (pcs M)(i := p')\<rparr>)"
proof -
  obtain ms where ms: "journal (mem M) = Some (fold ap (map enc_mut ms) j0)" "hits (ms @ pending_of (pcs M i)) J0"
    "tracks t (mem M) (carry_out (ms @ pending_of (pcs M i)) J0)"
    using assms(1,2) by (auto simp: machine_inv_def pending_def)
  then have l: "logs ap t (carry_out ms J0) (mem M) p' s'"
    using assms(3) [of "carry_out ms J0"] by (simp add: hits_append)
  then obtain ms' where "journalled ap (map enc_mut ms') (mem M) s'" "hits (ms' @ pending_of p') (carry_out ms J0)"
    "tracks t s' (carry_out (ms' @ pending_of p') (carry_out ms J0))"
    by (auto simp: logs_def)
  then have "journal s' = Some (fold ap (map enc_mut (ms @ ms')) j0)" "hits ((ms @ ms') @ pending_of p') J0"
    "tracks t s' (carry_out ((ms @ ms') @ pending_of p') J0)"
    using ms(1,2) by (simp_all add: journalled_def hits_append)
  moreover have "pending (M\<lparr>mem := s', pcs := (pcs M)(i := p')\<rparr>) = pending_of p'"
    using assms(2) by (simp add: pending_def)
  moreover have "owns (pcs M j) \<longleftrightarrow> j = i" for j
    using assms(1,2) by (auto simp: machine_inv_def gate_ok_def)
  ultimately show ?thesis
    using assms(1,2) l unfolding machine_inv_def
    by (intro conjI exI [of _ "ms @ ms'"]) (auto simp: gate_ok_def logs_def)
qed

lemma machine_step_section:
  assumes "pcs M i = p" and "p \<noteq> Idle" and "\<And>c now. p \<noteq> Called c now" and "\<And>c r. p \<noteq> Leaving c r"
    and "critical ap t ord victim p (mem M) = (p', s')"
  shows "machine_step ap (i, t, Run ord victim) M = M\<lparr>mem := s', pcs := (pcs M)(i := p')\<rparr>"
  using assms by (cases p) auto

lemma machine_inv_section:
  assumes "machine_inv ap j0 J0 t M" and "pcs M i = p" and "p \<noteq> Idle" and "\<And>c now. p \<noteq> Called c now"
    and "\<And>c r. p \<noteq> Leaving c r"
  shows "machine_inv ap j0 J0 t (machine_step ap (i, t, Run ord victim) M)"
proof -
  obtain p' s' where c: "critical ap t ord victim p (mem M) = (p', s')"
    by (cases "critical ap t ord victim p (mem M)")
  have ok: "store_inv (mem M)" "pc_ok t p" "1000000 \<le> t"
    using assms(1,2) by (auto simp: machine_inv_def)
  show ?thesis
  proof (cases "owns p")
    case True
    then have "commitMu M = Some i" "stands t (mem M) p"
      using assms(1,2) by (auto simp: machine_inv_def gate_ok_def)
    then show ?thesis
      using machine_inv_owner [OF assms(1), of i p' s'] owner_section [OF ok(1) True ok(2) _ ok(3) _ _ c] assms(2,5)
      unfolding machine_step_section [OF assms(2-5) c] by simp
  next
    case False
    then show ?thesis
      using machine_inv_free [OF assms(1), of i p' s'] free_section [OF ok(1) False ok(2) c assms(3-5)] assms(2)
      unfolding machine_step_section [OF assms(2-5) c] by simp
  qed
qed

lemma machine_inv_enter:
  assumes "machine_inv ap j0 J0 t M" and "pcs M i = Called c now" and "gated c" and "commitMu M = None"
  shows "machine_inv ap j0 J0 t (M\<lparr>commitMu := Some i, pcs := (pcs M)(i := Inside c now)\<rparr>)"
proof -
  have "pc_ok t (Inside c now)"
    using assms(1,2) by (metis machine_inv_def pc_ok.simps(1,2))
  with assms show ?thesis
    by (auto simp: machine_inv_def gate_ok_def pending_def)
qed

lemma machine_inv_leave:
  assumes "machine_inv ap j0 J0 t M" and "pcs M i = Leaving c r" and "gated c"
  shows "machine_inv ap j0 J0 t (M\<lparr>commitMu := None, pcs := (pcs M)(i := Idle), answers := a\<rparr>)"
proof -
  have own: "owns (pcs M j) \<longleftrightarrow> commitMu M = Some j" for j
    using assms(1) by (simp add: machine_inv_def gate_ok_def)
  then have "commitMu M = Some i"
    using assms(2,3) by (metis owns.simps(2))
  moreover from this have "pending M = []"
    using assms(2) by (simp add: pending_def)
  ultimately show ?thesis
    using assms own by (auto simp: machine_inv_def gate_ok_def pending_def)
qed

lemma machine_inv_step:
  assumes "machine_inv ap j0 J0 lo M" and "timely lo [(i, t, a)]"
  shows "machine_inv ap j0 J0 t (machine_step ap (i, t, a) M)"
proof -
  have inv: "machine_inv ap j0 J0 t M"
    using machine_inv_later [OF assms(1), of t] assms(2) by simp
  then have q: "quiet t (mem M) (mem M)" and j: "journal (mem M) \<noteq> None" and t: "1000000 \<le> t"
    by (auto simp: machine_inv_def quiet_refl)
  note free = machine_inv_free [OF inv _ _ _ q, of i, simplified]
  show ?thesis
  proof (cases a)
    case (Invoke c)
    with assms(2) free [of "Called c t"] inv t show ?thesis by auto
  next
    case (Run ord victim)
    show ?thesis
    proof (cases "pcs M i")
      case (Called c now)
      then have "pc_ok t (Inside c now)"
        using inv by (metis machine_inv_def pc_ok.simps(1,2))
      then show ?thesis
        using Run Called free [of "Inside c now"] machine_inv_enter [OF inv Called] inv j by auto
    next
      case (Leaving c r)
      have "machine_inv ap j0 J0 t (M\<lparr>pcs := (pcs M)(i := Idle), answers := a\<rparr>)" if "\<not> gated c" for a
        using free [of Idle] Leaving that by simp
      then show ?thesis
        using Run Leaving machine_inv_leave [OF inv Leaving] j by auto
    qed (use Run inv machine_inv_section [OF inv refl, of i ord victim] in auto)
  qed
qed

lemma machine_inv_run:
  assumes "machine_inv ap j0 J0 lo M" and "timely lo es"
  shows "machine_inv ap j0 J0 (end_time lo es) (machine_run ap es M)"
  using assms
proof (induction lo es arbitrary: M rule: timely.induct)
  case (2 lo i t a es)
  then show ?case
    using machine_inv_step [of ap j0 J0 lo M i t a] by (simp add: machine_run_def)
qed (simp add: machine_run_def)

lemma machine_inv_New:
  assumes "store_inv s" and "journal s = Some j0" and "tracks lo s J0" and "1000000 \<le> lo"
  shows "machine_inv ap j0 J0 lo (machine_New s)"
  using assms by (simp add: machine_inv_def machine_New_def gate_ok_def pending_def exI [of _ "[]"])

section \<open>Counting\<close>

text \<open>What the answers say was added to a key, and what the holder of the gate has added and not yet answered.\<close>

fun added :: "key \<Rightarrow> call \<times> answer \<Rightarrow> int" where
  "added k (CIncrement k' d, Number (Inr n)) = (if k' = k then d else 0)"
| "added k _ = 0"

definition total_added :: "key \<Rightarrow> 'j machine \<Rightarrow> int" where
  "total_added k M = sum_list (map (added k) (answers M))"

fun in_flight :: "key \<Rightarrow> pc \<Rightarrow> int" where
  "in_flight k (Journalling c k' v at r) = added k (c, r)"
| "in_flight k (Leaving c r) = added k (c, r)"
| "in_flight k _ = 0"

definition flight :: "key \<Rightarrow> 'j machine \<Rightarrow> int" where
  "flight k M = (case commitMu M of None \<Rightarrow> 0 | Some i \<Rightarrow> in_flight k (pcs M i))"

text \<open>The calls that leave the key alone or increment it.\<close>

fun spares :: "key \<Rightarrow> call \<Rightarrow> bool" where
  "spares k (CSet k' v at) = (k' \<noteq> k)"
| "spares k (CMSet ps) = (k \<notin> set (map Key ps))"
| "spares k (CDel ks) = (k \<notin> set ks)"
| "spares k (CIncrement k' d) = in64 d"
| "spares k (CAppend k' suf) = (k' \<noteq> k)"
| "spares k (CExpireAt k' at) = (k' \<noteq> k)"
| "spares k CEnforce = False"
| "spares k _ = True"

definition only_increments :: "key \<Rightarrow> (nat \<times> time \<times> input) list \<Rightarrow> bool" where
  "only_increments k es \<longleftrightarrow>
     list_all (\<lambda>(i, t, a). case a of Invoke c \<Rightarrow> spares k c | _ \<Rightarrow> True) es"

abbreviation binding_of :: "entry option \<Rightarrow> binding" where
  "binding_of \<equiv> map_option (\<lambda>e. (val e, expiresAt e))"

text \<open>A counter with value \<open>n\<close>: an integer or nothing, and no deadline.\<close>

definition counts :: "binding \<Rightarrow> int \<Rightarrow> bool" where
  "counts x n \<longleftrightarrow> current_int x = Some n \<and> (\<forall>v at. x = Some (v, at) \<longrightarrow> at = 0)"

fun counting :: "key \<Rightarrow> int \<Rightarrow> pc \<Rightarrow> bool" where
  "counting k n (Called c now) = spares k c"
| "counting k n (Inside c now) = spares k c"
| "counting k n (Dropping c now) = (spares k c \<and> key_of c \<noteq> k)"
| "counting k n (Computing c found) = (spares k c \<and> (key_of c = k \<longrightarrow> counts (binding_of found) n))"
| "counting k n (Evicting k') = False"
| "counting k n (Evicted k') = False"
| "counting k n _ = True"

definition count_inv :: "key \<Rightarrow> int \<Rightarrow> 'j machine \<Rightarrow> bool" where
  "count_inv k n0 M \<longleftrightarrow>
     (\<exists>n. counts (view (mem M) k) n \<and> n = n0 + total_added k M + flight k M \<and> (\<forall>i. counting k n (pcs M i)))"

lemma counting_free: "\<not> owns p \<Longrightarrow> counting k n p \<Longrightarrow> counting k n' p"
  by (cases p) auto

lemma counts_live: "counts x n \<Longrightarrow> live t x = x"
  by (auto simp: counts_def live_def split: option.split)

lemma counts_quiet: "quiet t s s' \<Longrightarrow> counts (view s k) n \<Longrightarrow> view s' k = view s k"
  using counts_live [of "view s k" n t] by (auto simp: quiet_def)

lemma free_counting:
  assumes "\<not> owns p" and "critical ap t ord victim p s = (p', s')" and "counting k n p"
  shows "counting k n p'"
  using assms
  by (cases p; simp split: if_splits prod.splits get_result.splits) (cases "(ap, t, ord, victim, p, s)" rule: critical.cases;
      auto split: if_splits prod.splits get_result.splits)+

lemma increment_value_counts:
  assumes "counts (binding_of found) n" and "in64 d"
  shows "increment_value d found = (if in64 (n + d) then Inr (n + d) else Inl ErrNotInteger)"
proof -
  have c: "current_int (binding_of found) = Some n"
    using assms(1) by (simp add: counts_def)
  then have "(case found of None \<Rightarrow> Inr 0 | Some e \<Rightarrow> ParseInt (val e)) = (Inr n :: num_error + int)"
    by (auto simp: current_int_def split: option.splits sum.splits)
  then show ?thesis
    using overflow_check [OF current_int_in64 [OF c] assms(2)] by (simp add: increment_value_def)
qed

lemma counts_kept: "counts (binding_of found) n \<Longrightarrow> kept_deadline found = 0"
  by (auto simp: counts_def kept_deadline_def split: option.splits)

lemma counts_formatInt: "in64 n \<Longrightarrow> counts (Some (formatInt n, 0)) n"
  by (simp add: counts_def current_int_def)

text \<open>A section of the holder of the gate moves the counter by what it then has in flight.\<close>

lemma view_set: "store_inv s \<Longrightarrow> view (setLockedInWriteLockedShard k v at s) = (view s)(k \<mapsto> (v, at))"
  by (simp add: view_def lookup_set fun_eq_iff)

lemma view_propagate [simp]: "view (propagate ap r s) = view s"
  by (simp add: view_def fun_eq_iff)

lemma fold_bind_other: "k \<notin> set (map f ps) \<Longrightarrow> fold (\<lambda>p m. m(f p \<mapsto> g p)) ps m k = m k"
  by (induction ps arbitrary: m) auto

lemma owner_other:
  assumes "store_inv s" and "owns (Inside c now)" and "spares k c" and "critical ap t ord victim (Inside c now) s = (p', s')"
    and "\<And>k' d. c \<noteq> CIncrement k' d" and "\<And>k' d. c \<noteq> CAppend k' d"
  shows "view s' k = view s k \<and> in_flight k p' = 0 \<and> counting k n p'"
proof (cases c)
  case (CExpireAt k' at)
  have "lookup (snd (ExpireAt ap now k' at s)) k = lookup s k"
    using ExpireAt_cases [OF assms(1), where now = now and k = k' and at = at and ap = ap] assms(3) CExpireAt
    by (cases "visible now s k'"; cases "now < at") (auto simp: not_less)
  with assms(4) CExpireAt show ?thesis
    by (auto simp: view_def split: prod.splits)
next
  case (CDel ks)
  with assms(3,4) Del_result(2) [OF assms(1), where ap = ap and now = now and ks = ks] show ?thesis
    by (auto simp: view_def split: prod.splits)
next
  case (CMSet ps)
  with assms(1,3,4) fold_bind_other [of k Key ps "\<lambda>p. \<lparr>val = Value p, atime = clock s, expiresAt = 0\<rparr>" "lookup s"] show ?thesis
    by (auto simp: view_def MSet_lookup)
qed (use assms in \<open>auto simp: view_set\<close>)

lemma found_by_counting:
  assumes "counts (view s k) n" and "spares k c" and "c = CIncrement k' d \<or> c = CAppend k' suf"
  shows "counting k n (found_by c now k' s) \<and> in_flight k (found_by c now k' s) = 0"
proof (cases "k' = k")
  case True
  then have "found_by c now k' s = Computing c (lookup s k)"
    using assms(1) by (auto simp: found_by_def lookup_def [symmetric] counts_def view_def expired_def IsZero_def
        split: option.splits)
  with assms True show ?thesis
    by (auto simp: view_def)
qed (use assms in \<open>auto simp: found_by_def split: option.splits\<close>)

lemma owner_counts:
  assumes "store_inv s" and "owns p" and "counting k n p" and "counts (view s k) n"
    and "critical ap t ord victim p s = (p', s')" and "\<And>c r. p \<noteq> Leaving c r"
  shows "\<exists>n'. counts (view s' k) n' \<and> counting k n' p' \<and> n' - in_flight k p' = n - in_flight k p"
proof (cases p)
  case (Inside c now)
  consider k' d where "c = CIncrement k' d" | k' suf where "c = CAppend k' suf"
    | "\<And>k' d. c \<noteq> CIncrement k' d" "\<And>k' suf. c \<noteq> CAppend k' suf"
    by blast
  then show ?thesis
  proof cases
    case 1
    with assms(3-5) Inside found_by_counting [OF assms(4), of c] show ?thesis by auto
  next
    case 2
    with assms(3-5) Inside found_by_counting [OF assms(4), of c] show ?thesis by auto
  next
    case 3
    with assms Inside owner_other [OF assms(1), of c now k ap t ord victim p' s' n] show ?thesis by auto
  qed
next
  case (Dropping c now)
  with assms show ?thesis
    by (auto simp: deleteLocked_def view_def lookup_delete)
next
  case (Computing c found)
  show ?thesis
  proof (cases c)
    case (CIncrement k' d)
    show ?thesis
    proof (cases "k' = k")
      case True
      have f: "counts (binding_of found) n" "in64 d"
        using assms(3) Computing CIncrement True by simp_all
      show ?thesis
        using assms(1,4,5) Computing CIncrement True counts_formatInt [of "n + d"]
        by (auto simp: increment_value_counts [OF f] counts_kept [OF f(1)] view_set split: if_splits)
    qed (use assms Computing CIncrement in \<open>auto simp: view_set split: sum.splits\<close>)
  qed (use assms Computing in \<open>auto simp: view_set Let_def\<close>)
next
  case (Journalling c k' v at r)
  with assms show ?thesis
    by (auto simp: propagateSetLocked_def)
qed (use assms in auto)

text \<open>The counter through a step of the machine.\<close>

lemma flight_other: "commitMu M \<noteq> Some i \<Longrightarrow> flight k (M\<lparr>mem := s', pcs := (pcs M)(i := p')\<rparr>) = flight k M"
  by (simp add: flight_def split: option.split)

lemma total_added_simps [simp]:
  "total_added k (M\<lparr>mem := s\<rparr>) = total_added k M" "total_added k (M\<lparr>pcs := f\<rparr>) = total_added k M"
  "total_added k (M\<lparr>commitMu := x\<rparr>) = total_added k M"
  "total_added k (M\<lparr>answers := a # answers M\<rparr>) = added k a + total_added k M"
  by (simp_all add: total_added_def)

lemma count_inv_section:
  assumes "machine_inv ap j0 J0 t M" and "count_inv k n0 M" and "pcs M i = p" and "p \<noteq> Idle"
    and "\<And>c now. p \<noteq> Called c now" and "\<And>c r. p \<noteq> Leaving c r"
  shows "count_inv k n0 (machine_step ap (i, t, Run ord victim) M)"
proof -
  obtain p' s' where c: "critical ap t ord victim p (mem M) = (p', s')"
    by (cases "critical ap t ord victim p (mem M)")
  note step = machine_step_section [OF assms(3-6) c]
  have inv: "store_inv (mem M)" "pc_ok t p" and own: "\<And>j. owns (pcs M j) \<longleftrightarrow> commitMu M = Some j"
    using assms(1,3) by (auto simp: machine_inv_def gate_ok_def)
  obtain n where n: "counts (view (mem M) k) n" "n = n0 + total_added k M + flight k M" "\<And>j. counting k n (pcs M j)"
    using assms(2) by (auto simp: count_inv_def)
  have cp: "counting k n p"
    using n(3) [of i] assms(3) by simp
  show ?thesis
  proof (cases "owns p")
    case True
    then have i: "commitMu M = Some i"
      using own [of i] assms(3) by simp
    obtain n' where n': "counts (view s' k) n'" "counting k n' p'" "n' - in_flight k p' = n - in_flight k p"
      using owner_counts [OF inv(1) True cp n(1) c assms(6)] by blast
    have "counting k n' (pcs M j)" if "j \<noteq> i" for j
      using counting_free [of "pcs M j" k n n'] n(3) own [of j] i that by simp
    with n' n(2) i assms(3) show ?thesis
      unfolding step count_inv_def by (intro exI [of _ n']) (simp add: flight_def)
  next
    case False
    then have i: "commitMu M \<noteq> Some i"
      using own [of i] assms(3) by simp
    have "quiet t (mem M) s'"
      using free_section [OF inv(1) False inv(2) c assms(4-6)] by simp
    with n i free_counting [OF False c cp] counts_quiet [OF _ n(1)] show ?thesis
      unfolding step count_inv_def by (intro exI [of _ n]) (simp add: flight_other)
  qed
qed

lemma count_inv_step:
  assumes "machine_inv ap j0 J0 t M" and "count_inv k n0 M" and "only_increments k [(i, t, a)]"
  shows "count_inv k n0 (machine_step ap (i, t, a) M)"
proof -
  obtain n where n: "counts (view (mem M) k) n" "n = n0 + total_added k M + flight k M" "\<And>j. counting k n (pcs M j)"
    using assms(2) by (auto simp: count_inv_def)
  have own: "\<And>j. owns (pcs M j) \<longleftrightarrow> commitMu M = Some j" and j: "journal (mem M) \<noteq> None"
    using assms(1) by (auto simp: machine_inv_def gate_ok_def)
  have keep: "count_inv k n0 (M\<lparr>pcs := (pcs M)(i := p')\<rparr>)" if "counting k n p'" "commitMu M \<noteq> Some i" for p'
    using n that flight_other [OF that(2), where k = k and s' = "mem M" and p' = p'] unfolding count_inv_def by (intro exI [of _ n]) simp
  show ?thesis
  proof (cases a)
    case (Invoke c)
    then show ?thesis
      using assms(2,3) keep [of "Called c t"] own [of i] by (auto simp: only_increments_def)
  next
    case (Run ord victim)
    show ?thesis
    proof (cases "pcs M i")
      case (Called c now)
      then have c: "counting k n (Inside c now)" "commitMu M \<noteq> Some i"
        using n(3) [of i] own [of i] by auto
      have "count_inv k n0 (M\<lparr>commitMu := Some i, pcs := (pcs M)(i := Inside c now)\<rparr>)" if "commitMu M = None"
        using n c(1) that unfolding count_inv_def by (intro exI [of _ n]) (simp add: flight_def)
      with Run Called keep [OF c] assms(2) show ?thesis by auto
    next
      case (Leaving c r)
      have f: "flight k M = (if gated c then added k (c, r) else flight k M)"
        using own [of i] Leaving by (auto simp: flight_def)
      have u: "added k (c, r) = 0" if "\<not> gated c"
        using that by (cases c) auto
      let ?M = "M\<lparr>commitMu := (if gated c \<and> journal (mem M) \<noteq> None then None else commitMu M),
            pcs := (pcs M)(i := Idle), answers := (c, r) # answers M\<rparr>"
      have "flight k ?M = (if gated c then 0 else flight k M)"
        using own [of i] Leaving j by (auto simp: flight_def split: option.splits)
      moreover have "total_added k ?M = added k (c, r) + total_added k M"
        by (simp add: total_added_def)
      ultimately have "count_inv k n0 ?M"
        using n f u unfolding count_inv_def by (intro exI [of _ n]) (auto split: if_splits)
      with Run Leaving show ?thesis by simp
    qed (use Run assms(2) count_inv_section [OF assms(1,2) refl, of i ord victim] in auto)
  qed
qed

lemma count_inv_run:
  assumes "machine_inv ap j0 J0 lo M" and "count_inv k n0 M" and "timely lo es" and "only_increments k es"
  shows "count_inv k n0 (machine_run ap es M)"
  using assms
proof (induction lo es arbitrary: M rule: timely.induct)
  case (2 lo i t a es)
  have "machine_inv ap j0 J0 t M"
    using machine_inv_later [OF 2(2), of t] 2(4) by simp
  from count_inv_step [OF this 2(3), of i a] machine_inv_step [OF 2(2), of i t a] 2(1) 2(4,5) show ?case
    by (simp add: machine_run_def only_increments_def)
qed (simp add: machine_run_def)

section \<open>Sections and operations\<close>

text \<open>A goroutine that is not interrupted: \<open>n\<close> sections at time \<open>t\<close>.\<close>

fun alone :: "(bytes list \<Rightarrow> 'j \<Rightarrow> 'j) \<Rightarrow> time \<Rightarrow> nat \<Rightarrow> pc \<times> 'j store \<Rightarrow> pc \<times> 'j store" where
  "alone ap t 0 ps = ps"
| "alone ap t (Suc n) (p, s) = alone ap t n (critical ap t [] None p s)"

lemma alone_Leaving [simp]: "alone ap t n (Leaving c r, s) = (Leaving c r, s)"
  by (induction n) simp_all

lemma alone_Get: "alone ap t 2 (Inside (CGet k) now, s) = (case Get now t k s of (v, s') \<Rightarrow> (Leaving (CGet k) (Found v), s'))"
  by (simp add: numeral_2_eq_2 Get_def split: prod.split get_result.split)

lemma alone_set: "alone ap t 2 (Inside (CSet k v at) now, s) = (Leaving (CSet k v at) Done, set_store ap k v at s)"
  by (simp add: numeral_2_eq_2 set_store_def setLocked_def)

lemma alone_Increment:
  "alone ap t 4 (Inside (CIncrement k d) now, s) =
     (case Increment ap now k d s of (r, s') \<Rightarrow> (Leaving (CIncrement k d) (Number r), s'))"
  by (auto simp: eval_nat_numeral found_by_def Increment_def load_live_def increment_value_def kept_deadline_def
      setLocked_def Let_def split: option.split sum.split)

lemma alone_Append:
  "alone ap t 4 (Inside (CAppend k suf) now, s) =
     (case Append ap now k suf s of (r, s') \<Rightarrow> (Leaving (CAppend k suf) (Count r), s'))"
  by (simp add: eval_nat_numeral found_by_def Append_def load_live_def kept_value_def kept_deadline_def
      setLocked_def Let_def split: option.split)

section \<open>Without the gate\<close>

text \<open>
  Schedules of a goroutine: it is given a call and runs its first section, and it runs \<open>n\<close> times.
\<close>

definition begins :: "nat \<Rightarrow> time \<Rightarrow> call \<Rightarrow> (nat \<times> time \<times> input) list" where
  "begins i t c = [(i, t, Invoke c), (i, t, Run [] None), (i, t, Run [] None)]"

definition goes_on :: "nat \<Rightarrow> time \<Rightarrow> nat \<Rightarrow> (nat \<times> time \<times> input) list" where
  "goes_on i t n = replicate n (i, t, Run [] None)"

lemma machine_run_append: "machine_run ap (es @ es') M = machine_run ap es' (machine_run ap es M)"
  by (simp add: machine_run_def)

lemma propagateSetLocked_None: "journal s = None \<Longrightarrow> propagateSetLocked ap k v at s = s"
  by (simp add: propagateSetLocked_def propagate_def)

lemma begins_section:
  assumes "journal (mem M) = None" and "pcs M i = Idle" and "critical ap t [] None (Inside c t) (mem M) = (p', s')"
  shows "machine_run ap (begins i t c) M = M\<lparr>mem := s', pcs := (pcs M)(i := p')\<rparr>"
  using assms by (simp add: machine_run_def begins_def)

text \<open>An increment that has read the counter \<open>n\<close> writes what it makes of that, whatever is there now.\<close>

lemma increment_goes_on:
  assumes "journal (mem M) = None" and "store_inv (mem M)" and "pcs M i = Computing (CIncrement k d) found"
    and "counts (binding_of found) n" and "in64 d" and "in64 (n + d)"
  obtains s where "machine_run ap (goes_on i t 3) M =
      M\<lparr>mem := s, pcs := (pcs M)(i := Idle), answers := (CIncrement k d, Number (Inr (n + d))) # answers M\<rparr>"
    and "view s k = Some (formatInt (n + d), 0)" and "store_inv s" and "journal s = None"
proof -
  let ?s = "setLockedInWriteLockedShard k (formatInt (n + d)) 0 (mem M)"
  have v: "increment_value d found = Inr (n + d)" "kept_deadline found = 0"
    using increment_value_counts [OF assms(4,5)] counts_kept [OF assms(4)] assms(6) by simp_all
  have "machine_run ap (goes_on i t 3) M =
      M\<lparr>mem := propagateSetLocked ap k (formatInt (n + d)) 0 ?s, pcs := (pcs M)(i := Idle),
        answers := (CIncrement k d, Number (Inr (n + d))) # answers M\<rparr>"
    using assms(1,3) v by (simp add: machine_run_def goes_on_def numeral_3_eq_3 propagateSetLocked_None)
  moreover have "view (propagateSetLocked ap k (formatInt (n + d)) 0 ?s) k = Some (formatInt (n + d), 0)"
    using assms(1,2) by (simp add: propagateSetLocked_None view_set)
  moreover have "store_inv (propagateSetLocked ap k (formatInt (n + d)) 0 ?s)"
    "journal (propagateSetLocked ap k (formatInt (n + d)) 0 ?s) = None"
    using assms(1,2) by (simp_all add: propagateSetLocked_None inv_intros)
  ultimately show thesis
    using that by blast
qed

lemma reads_counter:
  assumes "counts (view s k) n"
  shows "found_by (CIncrement k d) now k s = Computing (CIncrement k d) (lookup s k)" and "counts (binding_of (lookup s k)) n"
  using assms by (auto simp: found_by_def lookup_def [symmetric] counts_def view_def expired_def IsZero_def split: option.splits)

lemma both_increments_answered:
  assumes "journal (mem M) = None" and "store_inv (mem M)" and "i \<noteq> j" and "pcs M i = Idle" and "pcs M j = Idle"
    and "in64 d" and "in64 d'" and "counts (view (mem M) k) n" and "in64 (n + d)" and "in64 (n + d')"
    and "M' = machine_run ap (begins i t (CIncrement k d) @ begins j t (CIncrement k d') @ goes_on i t 3 @ goes_on j t 3) M"
  shows "answers M' = [(CIncrement k d', Number (Inr (n + d'))), (CIncrement k d, Number (Inr (n + d)))] @ answers M"
    and "visible t (mem M') k = Some (formatInt (n + d'), 0)"
proof -
  note r = reads_counter [OF assms(8)]
  let ?e = "lookup (mem M) k"
  define M2 where "M2 = M\<lparr>pcs := (pcs M)(i := Computing (CIncrement k d) ?e, j := Computing (CIncrement k d') ?e)\<rparr>"
  have 2: "machine_run ap (begins i t (CIncrement k d) @ begins j t (CIncrement k d')) M = M2"
    using assms(1,3-5) by (simp add: machine_run_append begins_section r M2_def)
  have p: "pcs M2 i = Computing (CIncrement k d) ?e" "journal (mem M2) = None" "store_inv (mem M2)" "answers M2 = answers M"
    using assms(1-3) by (simp_all add: M2_def)
  obtain s3 where 3: "machine_run ap (goes_on i t 3) M2 =
      M2\<lparr>mem := s3, pcs := (pcs M2)(i := Idle), answers := (CIncrement k d, Number (Inr (n + d))) # answers M2\<rparr>"
    "store_inv s3" "journal s3 = None"
    using increment_goes_on [OF p(2,3,1) r(2) assms(6,9)] by metis
  define M3 where "M3 = machine_run ap (goes_on i t 3) M2"
  have q: "pcs M3 j = Computing (CIncrement k d') ?e" "journal (mem M3) = None" "store_inv (mem M3)"
    "answers M3 = (CIncrement k d, Number (Inr (n + d))) # answers M"
    using 3 assms(3) p(4) by (simp_all add: M3_def) (simp add: M2_def)
  obtain s4 where "machine_run ap (goes_on j t 3) M3 =
      M3\<lparr>mem := s4, pcs := (pcs M3)(j := Idle), answers := (CIncrement k d', Number (Inr (n + d'))) # answers M3\<rparr>"
    "view s4 k = Some (formatInt (n + d'), 0)"
    using increment_goes_on [OF q(2,3,1) r(2) assms(7,10)] by metis
  moreover have "M' = machine_run ap (goes_on j t 3) M3"
    using 2 assms(11) by (simp add: machine_run_append M3_def)
  ultimately show "answers M' = [(CIncrement k d', Number (Inr (n + d'))), (CIncrement k d, Number (Inr (n + d)))] @ answers M"
    and "visible t (mem M') k = Some (formatInt (n + d'), 0)"
    using q(4) by (simp_all add: visible_live live_def)
qed

lemma set_overtaken:
  assumes "journal (mem M) = None" and "store_inv (mem M)" and "i \<noteq> j" and "pcs M i = Idle" and "pcs M j = Idle"
    and "in64 d" and "view (mem M) k \<noteq> None" and "visible t (mem M) k = None"
    and "M' = machine_run ap (begins i t (CIncrement k d) @ begins j t (CSet k v 0) @ goes_on j t 2 @ goes_on i t 4) M"
  shows "answers M' = [(CIncrement k d, Number (Inr d)), (CSet k v 0, Done)] @ answers M"
    and "visible t (mem M') k = Some (formatInt d, 0)"
proof -
  let ?s = "setLocked ap k v 0 (mem M)"
  obtain e where "lookup (mem M) k = Some e" "expired e t"
    using assms(7,8) by (auto simp: view_def visible_def split: if_splits)
  then have f: "found_by (CIncrement k d) t k (mem M) = Dropping (CIncrement k d) t"
    by (simp add: found_by_def lookup_def)
  define M2 where "M2 = M\<lparr>pcs := (pcs M)(i := Dropping (CIncrement k d) t, j := Idle), mem := ?s,
      answers := (CSet k v 0, Done) # answers M\<rparr>"
  have "machine_run ap (goes_on j t 2) (M\<lparr>mem := setLockedInWriteLockedShard k v 0 (mem M),
      pcs := (pcs M)(i := Dropping (CIncrement k d) t, j := Journalling (CSet k v 0) k v 0 Done)\<rparr>) = M2"
    using assms(1,3) by (simp add: machine_run_def goes_on_def numeral_2_eq_2 M2_def setLocked_def propagateSetLocked_None)
  then have 2: "machine_run ap (begins i t (CIncrement k d) @ begins j t (CSet k v 0) @ goes_on j t 2) M = M2"
    using assms(1,3-5) f by (simp add: machine_run_append begins_section)
  define M3 where "M3 = M2\<lparr>mem := deleteLocked k ?s, pcs := (pcs M2)(i := Computing (CIncrement k d) None)\<rparr>"
  have "goes_on i t 4 = (i, t, Run [] None) # goes_on i t 3"
    by (simp add: goes_on_def numeral_eq_Suc)
  then have 3: "machine_run ap (goes_on i t 4) M2 = machine_run ap (goes_on i t 3) M3"
    using assms(3) by (simp add: machine_run_def M2_def M3_def)
  have p: "journal (mem M3) = None" "store_inv (mem M3)" "pcs M3 i = Computing (CIncrement k d) None"
    using assms(1,2) by (simp_all add: M3_def setLocked_def propagateSetLocked_None deleteLocked_def store_inv_delete inv_intros)
  have "counts (binding_of None) 0" "in64 (0 + d)"
    using assms(6) by (simp_all add: counts_def current_int_def)
  from increment_goes_on [OF p this(1) assms(6) this(2)] obtain s4 where
    "machine_run ap (goes_on i t 3) M3 =
      M3\<lparr>mem := s4, pcs := (pcs M3)(i := Idle), answers := (CIncrement k d, Number (Inr (0 + d))) # answers M3\<rparr>"
    "view s4 k = Some (formatInt (0 + d), 0)"
    by metis
  moreover have "M' = machine_run ap (goes_on i t 4) M2"
    using 2 assms(9) by (simp add: machine_run_append)
  ultimately show "answers M' = [(CIncrement k d, Number (Inr d)), (CSet k v 0, Done)] @ answers M"
    and "visible t (mem M') k = Some (formatInt d, 0)"
    using 3 by (simp_all add: M3_def M2_def visible_live live_def)
qed

section \<open>Properties\<close>

text \<open>Two increments by two goroutines that take turns, for the witnesses.\<close>

definition both_read :: "(nat \<times> time \<times> input) list" where
  "both_read =
     [(0, 5000000, Invoke (CIncrement ''n'' 1)), (1, 5000000, Invoke (CIncrement ''n'' 1))] @
     map (\<lambda>i. (i, 5000000, Run [] None)) [0, 1, 0, 1, 0, 1, 0, 1, 0, 1, 0, 0, 0, 0, 1, 1, 1, 1, 1]"

text \<open>
  C5: the journal describes the keyspace at every moment of a concurrent run.  However the critical
  sections of any number of goroutines interleave, whatever they call, and however long they wait
  for the gate, the records handed to the journal, with at most one more that its goroutine is
  about to hand over, carried out in order, give what clients see; and when nobody holds the gate
  nothing is missing.
\<close>

theorem concurrent_journal:
  assumes "timely lo es" and "1000000 \<le> lo" and "M = machine_run ap es (machine_New (SetJournal j New))"
  shows "store_inv (mem M) \<and> length (pending M) \<le> 1 \<and> (commitMu M = None \<longrightarrow> pending M = []) \<and>
    (\<exists>ms. journal (mem M) = Some (fold ap (map enc_mut ms) j) \<and> hits (ms @ pending M) Map.empty \<and>
       agree (end_time lo es) (mem M) (carry_out (ms @ pending M) Map.empty))"
proof -
  have j: "journal (SetJournal j New) = Some j"
    by (simp add: SetJournal_def)
  have "tracks lo (SetJournal j New) Map.empty"
    by (simp add: tracks_def view_def)
  then have "machine_inv ap j Map.empty lo (machine_New (SetJournal j New))"
    using assms(2) j by (intro machine_inv_New) simp_all
  then have inv: "machine_inv ap j Map.empty (end_time lo es) M"
    unfolding assms(3) by (rule machine_inv_run) (rule assms(1))
  have "length (pending_of p) \<le> 1" for p
    by (cases p) simp_all
  then have "length (pending M) \<le> 1"
    by (simp add: pending_def split: option.split)
  with inv show ?thesis
    using tracks_agree unfolding machine_inv_def pending_def by (auto split: option.splits)
qed

theorem concurrent_journal_witness:
  "\<exists>ms. journal (mem (machine_run rec_append (take 8 both_read) (machine_New (SetJournal [] New)))) = Some (map enc_mut ms) \<and>
     agree 5000000 (mem (machine_run rec_append (take 8 both_read) (machine_New (SetJournal [] New))))
       (carry_out (ms @ [MutSet ''n'' ''1'' 0]) Map.empty)"
proof -
  let ?M = "machine_run rec_append (take 8 both_read) (machine_New (SetJournal [] New))"
  have "fold rec_append rs [] = rs" for rs :: "bytes list list"
    by (induction rs rule: rev_induct) simp_all
  moreover have "pending ?M = [MutSet ''n'' ''1'' 0]" "end_time 5000000 (take 8 both_read) = 5000000"
    "timely 5000000 (take 8 both_read)"
    by code_simp+
  ultimately show ?thesis
    using concurrent_journal [of 5000000 "take 8 both_read" ?M rec_append "[]"] by fastforce
qed

text \<open>
  C10: with a journal no increment is lost.  When goroutines do anything to other keys and nothing but
  reading and incrementing to this one, its value, whenever nobody holds the gate, is what it was
  plus the sum of the increments that were answered with success.
\<close>

theorem increments_add_up:
  assumes "store_inv s" and "journal s = Some j" and "\<forall>k v at. view s k = Some (v, at) \<longrightarrow> at = 0 \<or> 1000000 \<le> at"
    and "counts (view s k) n" and "timely lo es" and "1000000 \<le> lo" and "only_increments k es"
    and "M = machine_run ap es (machine_New s)" and "commitMu M = None"
  shows "current_int (visible t (mem M) k) = Some (n + total_added k M)"
proof -
  have "tracks lo s (\<lambda>k. map_option (\<lambda>(v, at). (v, ms_floor at)) (view s k))"
    using assms(3) by (auto simp: tracks_def held_def split: option.splits)
  from machine_inv_New [OF assms(1,2) this assms(6)]
  have inv: "machine_inv ap j (\<lambda>k. map_option (\<lambda>(v, at). (v, ms_floor at)) (view s k)) lo (machine_New s)" .
  have "count_inv k n (machine_New s)"
    using assms(4) by (simp add: count_inv_def machine_New_def flight_def total_added_def)
  from count_inv_run [OF inv this assms(5,7)] have "counts (view (mem M) k) (n + total_added k M)"
    using assms(8,9) by (auto simp: count_inv_def flight_def)
  then show ?thesis
    using counts_live by (simp add: visible_live counts_def)
qed

theorem increments_add_up_witness:
  "answers (machine_run rec_append both_read (machine_New counter)) =
     [(CIncrement ''n'' 1, Number (Inr 43)), (CIncrement ''n'' 1, Number (Inr 42))] \<and>
   current_int (visible 5000000 (mem (machine_run rec_append both_read (machine_New counter))) ''n'') = Some (41 + 2)"
proof -
  let ?M = "machine_run rec_append both_read (machine_New counter)"
  have "journal counter = Some (the (journal counter))" "current_int (view counter ''n'') = Some 41"
    "timely 5000000 both_read" "only_increments ''n'' both_read" "commitMu ?M = None" "total_added ''n'' ?M = 2"
    "answers ?M = [(CIncrement ''n'' 1, Number (Inr 43)), (CIncrement ''n'' 1, Number (Inr 42))]"
    by code_simp+
  moreover have "\<forall>k v at. view counter k = Some (v, at) \<longrightarrow> at = 0"
    by (simp add: view_def counter_lookup)
  ultimately show ?thesis
    using increments_add_up [OF counter_inv, of "the (journal counter)" "''n''" 41 5000000 both_read ?M rec_append 5000000]
    by (auto simp: counts_def)
qed

text \<open>
  C40: without a journal updates are lost, from any state of the store and whatever other goroutines
  are doing.  If two increments of a counter both read before either writes, both are answered with
  the sum of the old value and their own increment, and the counter is left at the second sum: the
  first increment, though answered, has no effect.  And if an increment finds its key expired and a
  \<^verbatim>\<open>SET\<close> of the key is carried out and answered before the increment goes on, the increment
  deletes the new value and counts from 0, which no order of the two calls explains.
\<close>

theorem updates_lost_without_journal:
  assumes "journal (mem M) = None" and "store_inv (mem M)" and "i \<noteq> j" and "pcs M i = Idle" and "pcs M j = Idle"
    and "in64 d" and "in64 d'"
  shows "(\<forall>n. counts (view (mem M) k) n \<longrightarrow> in64 (n + d) \<longrightarrow> in64 (n + d') \<longrightarrow>
      (let M' = machine_run ap (begins i t (CIncrement k d) @ begins j t (CIncrement k d') @ goes_on i t 3 @ goes_on j t 3) M in
       answers M' = [(CIncrement k d', Number (Inr (n + d'))), (CIncrement k d, Number (Inr (n + d)))] @ answers M \<and>
       visible t (mem M') k = Some (formatInt (n + d'), 0))) \<and>
    (view (mem M) k \<noteq> None \<longrightarrow> visible t (mem M) k = None \<longrightarrow>
      (let M' = machine_run ap (begins i t (CIncrement k d) @ begins j t (CSet k v 0) @ goes_on j t 2 @ goes_on i t 4) M in
       answers M' = [(CIncrement k d, Number (Inr d)), (CSet k v 0, Done)] @ answers M \<and>
       visible t (mem M') k = Some (formatInt d, 0)))"
proof (intro conjI allI impI)
  fix n assume c: "counts (view (mem M) k) n" "in64 (n + d)" "in64 (n + d')"
  show "let M' = machine_run ap (begins i t (CIncrement k d) @ begins j t (CIncrement k d') @ goes_on i t 3 @ goes_on j t 3) M in
       answers M' = [(CIncrement k d', Number (Inr (n + d'))), (CIncrement k d, Number (Inr (n + d)))] @ answers M \<and>
       visible t (mem M') k = Some (formatInt (n + d'), 0)"
    unfolding Let_def using both_increments_answered [OF assms c refl, where ap = ap and t = t] by (intro conjI)
next
  assume "view (mem M) k \<noteq> None" "visible t (mem M) k = None"
  then show "let M' = machine_run ap (begins i t (CIncrement k d) @ begins j t (CSet k v 0) @ goes_on j t 2 @ goes_on i t 4) M in
       answers M' = [(CIncrement k d, Number (Inr d)), (CSet k v 0, Done)] @ answers M \<and>
       visible t (mem M') k = Some (formatInt d, 0)"
    unfolding Let_def using set_overtaken [OF assms(1-6) _ _ refl, where ap = ap and t = t and k = k and v = v] by (intro conjI)
qed

theorem updates_lost_without_journal_witness:
  "(let M' = machine_run rec_append (begins 0 5000000 (CIncrement ''n'' 2) @ begins 1 5000000 (CIncrement ''n'' 3) @
       goes_on 0 5000000 3 @ goes_on 1 5000000 3) (machine_New New) in
     answers M' = [(CIncrement ''n'' 3, Number (Inr 3)), (CIncrement ''n'' 2, Number (Inr 2))] \<and>
     visible 5000000 (mem M') ''n'' = Some (''3'', 0)) \<and>
   (let M' = machine_run rec_append (begins 0 5000000 (CIncrement ''n'' 1) @ begins 1 5000000 (CSet ''n'' ''100'' 0) @
       goes_on 1 5000000 2 @ goes_on 0 5000000 4) (machine_New (set_store rec_append ''n'' ''7'' 2000000 New)) in
     answers M' = [(CIncrement ''n'' 1, Number (Inr 1)), (CSet ''n'' ''100'' 0, Done)] \<and>
     visible 5000000 (mem M') ''n'' = Some (''1'', 0))"
proof -
  let ?s = "set_store rec_append ''n'' ''7'' 2000000 New :: bytes list list store"
  have f: "formatInt 3 = ''3''" "formatInt 1 = ''1''"
    by code_simp+
  have i: "in64 1" "in64 2" "in64 3" "journal (New :: bytes list list store) = None"
    by (simp_all add: in64_def minInt64_def maxInt64_def New_def)
  have n: "counts (view (New :: bytes list list store) ''n'') 0"
    by (simp add: counts_def view_def current_int_def)
  have v: "view ?s ''n'' = Some (''7'', 2000000)" "store_inv ?s" "journal ?s = None"
    using i(4) by (simp_all add: set_store_def setLocked_def propagateSetLocked_None view_set inv_intros)
  have "visible 5000000 ?s ''n'' = None"
    using v(1) by (simp add: visible_live live_def)
  note two = updates_lost_without_journal [of "machine_New ?s" 0 1 1 1 "''n''" rec_append 5000000 "''100''"]
  note one = updates_lost_without_journal [of "machine_New (New :: bytes list list store)" 0 1 2 3 "''n''" rec_append 5000000 "''100''"]
  have m: "mem (machine_New s) = s" "pcs (machine_New s) j = Idle" "answers (machine_New s) = []"
    for s :: "bytes list list store" and j
    by (simp_all add: machine_New_def)
  have "in64 (0 + 2)" "in64 (0 + 3)"
    using i by simp_all
  with conjunct1 [OF one] n i store_inv_New have a: "let M' = machine_run rec_append (begins 0 5000000 (CIncrement ''n'' 2) @
      begins 1 5000000 (CIncrement ''n'' 3) @ goes_on 0 5000000 3 @ goes_on 1 5000000 3) (machine_New New) in
     answers M' = [(CIncrement ''n'' 3, Number (Inr (0 + 3))), (CIncrement ''n'' 2, Number (Inr (0 + 2)))] @ [] \<and>
     visible 5000000 (mem M') ''n'' = Some (formatInt (0 + 3), 0)"
    unfolding m by (metis zero_neq_one)
  have "view ?s ''n'' \<noteq> None"
    using v(1) by simp
  with conjunct2 [OF two] \<open>visible 5000000 ?s ''n'' = None\<close> v i have b: "let M' = machine_run rec_append (begins 0 5000000 (CIncrement ''n'' 1) @
      begins 1 5000000 (CSet ''n'' ''100'' 0) @ goes_on 1 5000000 2 @ goes_on 0 5000000 4) (machine_New ?s) in
     answers M' = [(CIncrement ''n'' 1, Number (Inr 1)), (CSet ''n'' ''100'' 0, Done)] @ [] \<and>
     visible 5000000 (mem M') ''n'' = Some (formatInt 1, 0)"
    unfolding m by (metis zero_neq_one)
  from a b show ?thesis
    unfolding append_Nil2 add_0 f by (rule conjI)
qed

end
