(* ===== verification/Spec2Isabelle.thy ===== *)
theory Spec2Isabelle
  imports Lifecycle Locks Interleaving
begin

text \<open>
  Verification of redisclone, a Redis-compatible key-value server in Go.

  \<^bold>\<open>The program.\<close>  A process (\<^verbatim>\<open>cmd/redisclone/main.go\<close>) reads its flags, replays its append-only
  file, and serves TCP connections, one goroutine each (\<^verbatim>\<open>internal/server/server.go\<close>).  A
  connection's bytes are parsed into commands (\<^verbatim>\<open>internal/resp/reader.go\<close>), looked up in a table and
  run by a handler (\<^verbatim>\<open>internal/server/commands.go\<close>) on a keyspace of 32 shards
  (\<^verbatim>\<open>internal/store\<close>), and answered in RESP2 (\<^verbatim>\<open>internal/resp/writer.go\<close>).  The keyspace expires
  keys lazily and in the background, evicts under a memory limit, and hands every mutation, under a
  commit gate, to the append-only file (\<^verbatim>\<open>internal/aof\<close>), which is synced by policy, rewritten in
  the background and read back at the start.

  \<^bold>\<open>The theories.\<close>  Definitions keep the names of the Go functions; an operation whose name is
  taken has a suffix (\<open>set_cmd\<close>, \<open>append_cmd\<close>, \<open>log_Append\<close>, \<open>server_New\<close>).

  \<^item> \<open>Prelude\<close> has the types (byte strings, 64-bit integers as \<open>int\<close> with \<open>wrap64\<close>, instants in
    nanoseconds), the order of a loop over a map as a parameter (\<open>range_order\<close>), and the collections
    \<open>io_simps\<close>, \<open>store_simps\<close> and \<open>inv_intros\<close>.  \<open>GoLib\<close> has what is used of the standard library:
    \<^verbatim>\<open>strconv\<close>, \<^verbatim>\<open>strings\<close>, and \<^verbatim>\<open>io.Writer\<close> as the locale \<open>io_writer\<close> with \<^verbatim>\<open>bytes.Buffer\<close> and
    \<^verbatim>\<open>bufio.Writer\<close> as its two instances, over a device that can fill up and fail to sync.
    \<open>Path_Match\<close> has \<^verbatim>\<open>path.Match\<close>.
  \<^item> \<open>Resp_Writer\<close> and \<open>Resp_Reader\<close>: the encoder, shown to write the wire format or a prefix of it,
    and the parser, with its limits, its errors and what it does with a command that is cut short.
  \<^item> \<open>Shards\<close>: FNV-1a on 64-bit words and the locks of a multi-key command.  \<open>Locks\<close>: the lock
    operations of every method of the store, the discipline they follow (locale \<open>lock_discipline\<close>),
    and that goroutines that follow it do not deadlock.
  \<^item> \<open>Store\<close>: the record of the store and all operations of \<^verbatim>\<open>store.go\<close>; \<open>Store_Inv\<close> the invariant
    and the effect of the primitives; \<open>Store_Props\<close> each operation's result, records and frame;
    \<open>Evict\<close> (\<^verbatim>\<open>evict.go\<close>) and \<open>Expire\<close> (\<^verbatim>\<open>expire.go\<close>).
  \<^item> \<open>Keyspace\<close>: the abstract map with deadlines, the contract of changing it (locale
    \<open>keyspace\<close>) and its refinement by the sharded store.  \<open>Journal\<close>: the records of any sequence of
    operations describe what clients see.  \<open>Interleaving\<close>: the same for the critical sections of
    any number of goroutines in any order; increments under the gate add up; and without a journal,
    when there is no gate, updates are lost from any state.
  \<^item> \<open>Aof\<close>: the log, every method of \<^verbatim>\<open>Log\<close> on every branch, and the contract its clients
    rely on (locale \<open>journal_contract\<close>).  \<open>Replay\<close>: reading it back, also when it is damaged.
  \<^item> \<open>Commands\<close>: the table, the handlers and \<^verbatim>\<open>dispatch\<close>.  \<open>Command_Props\<close>: a handler does on any
    writer what it does in memory, and answers with one value.  \<open>Command_Spec\<close>: what each command
    means on the abstract map, and that the handlers do that.  \<open>Command_Effects\<close>: what commands leave
    alone.
  \<^item> \<open>Server\<close>: the connection loop with its flush before each read, and the replay callback.
    \<open>Recovery\<close>: a restart on whatever a crash leaves of the file.
  \<^item> \<open>Startup\<close>: the first part of \<^verbatim>\<open>main\<close>.  \<open>Tracking\<close>: every handler is accounted for by its
    records, and a log tail can be replayed on a snapshot that has seen a part of it.
    \<open>Persistence\<close>: the running server as a step relation, with background sync, expiration and
    rewrite, and restarts after crashes; \<open>Durability\<close>: what that means for acknowledged writes, and
    what a failure of the log does to them.
  \<^item> \<open>Lifecycle\<close>: accepting, draining and the shutdown, the second part of \<^verbatim>\<open>main\<close>.  A handler
    returns only when its client goes away or its connection is closed; the steps the process takes
    of its own (\<open>own_step\<close>) are set apart from those of the clients and the background tasks.

  \<^bold>\<open>State, time and chance.\<close>  Operations are functions from a state to an answer and the next state.
  The readings an operation makes of the clock are its arguments, in order (\<open>clk E i\<close> for the
  \<open>i\<close>-th one of a command); results say for which readings they hold.  The order of a loop over a Go
  map is an argument, as is what the operating system answers.  Errors and panics are values
  (\<open>wres\<close>, \<open>read_error\<close>, \<open>replay_error\<close>, \<open>store_error\<close>, \<open>fatal\<close>).

  \<^bold>\<open>Bounds.\<close>  The parser, the replay, the connection loop and the handlers are total functions, by the
  length of what is left to read.  Only the eviction loop has fuel: one round more than there are
  keys, which theorem \<open>EnforceMemoryLimit_returns\<close> shows to be enough.  Deadlines are taken to be
  at least a millisecond after year 1, and clocks not to go back between steps; Unicode case
  folding outside ASCII is a parameter.

  \<^bold>\<open>What the results need.\<close>  Recovery replays a log without loss if it is \<open>replayable\<close>: no record moves
  a deadline from before the instant of its replay to after it, no deadline is out of the range of
  the parser, and every record is within the parser's limits (\<open>writable\<close>: 512 MiB for a bulk string).
  Logs that violate each of these can be written by the server and are not replayed, as
  \<open>replay_loses_extended_key\<close>, \<open>replay_rejects_far_deadline\<close> and \<open>Replay_large_value\<close> show.  That a
  crash leaves a prefix of the file is an assumption (\<open>crash_file\<close>); a file damaged otherwise may be
  cut off without an error, as \<open>Replay_damaged\<close> says.  That acknowledged writes survive needs that the
  log has not failed, and \<open>failed_sync_acknowledged\<close> shows why.  The shutdown comes to its end by the
  steps of \<open>own_step\<close> alone; commands that clients still send during the drain can come in between.

  \<^bold>\<open>Not modelled.\<close>  Parsing the command line, listening, TCP, signal delivery, logging and the pprof
  endpoint of \<^verbatim>\<open>main\<close> are the runtime's.  A rename is durable at once: the code does not
  sync the directory after it, so a crash of the machine may in fact bring back the log from before
  a rewrite, and what is said of acknowledged writes leaves that out.  The bytes in use are an \<open>int\<close>
  without a bound, as a total of 2^63 bytes cannot arise.  A log that has failed is not restarted from: what its file then holds is
  covered by \<open>Recovery\<close> alone.  In \<open>Persistence\<close> a command is one step or several operations of the
  store; that such an operation can be taken as one step although it is several critical sections is
  theory \<open>Interleaving\<close>, for the mutating operations with a journal attached.  Without a
  journal \<^verbatim>\<open>Increment\<close> reads a field of an entry that \<^verbatim>\<open>ExpireAt\<close> writes, a data race; the model
  reads it at the lookup.  Reads of several keys (\<^verbatim>\<open>MGET\<close>, \<^verbatim>\<open>EXISTS\<close>, \<^verbatim>\<open>DBSIZE\<close>) are not atomic in
  the code and are sequences of single reads or run alone here.  The sync loop stops with the
  process: that it may find the file closed during the shutdown is left out.  Test hooks and the
  trivial constructors of the reader and the writer have no definition of their own.
\<close>

end
